(* ===== verification/Prelude.thy ===== *)
theory Prelude
  imports Main "HOL-Library.Word"
begin

text \<open>
  Shared vocabulary of the development: the C integer types as words, C strings as lists of
  characters, byte-level access to 32-bit values in both byte orders, and the generic facts on
  lists and words which the component theories use.

  A C string pointer is the list of characters from that address up to (not including) the
  terminating NUL; reading through the pointer at the end of the list gives NUL.  On the ARM
  target \<open>char\<close> is an unsigned 8-bit type, so the code of a character is \<open>of_char\<close>.
\<close>

unbundle bit_operations_syntax

named_theorems replay_simps
named_theorems replay_splits

type_synonym u8 = "8 word"
type_synonym u16 = "16 word"
type_synonym u32 = "32 word"
type_synonym u64 = "64 word"

subsection \<open>C characters and string pointers\<close>

abbreviation NUL :: char where
  "NUL \<equiv> CHR 0x00"

abbreviation code_of :: "char \<Rightarrow> int" where
  "code_of c \<equiv> int (of_char c)"

definition deref :: "string \<Rightarrow> char" where
  "deref s = (case s of [] \<Rightarrow> NUL | c # _ \<Rightarrow> c)"

definition advance :: "string \<Rightarrow> string" where
  "advance s = (case s of [] \<Rightarrow> [] | _ # t \<Rightarrow> t)"

lemma deref_simps [simp]: "deref [] = NUL" "deref (c # s) = c"
  by (simp_all add: deref_def)

lemma advance_simps [simp]: "advance [] = []" "advance (c # s) = s"
  by (simp_all add: advance_def)

lemma deref_not_NUL: "deref s \<noteq> NUL \<Longrightarrow> s = deref s # advance s"
  by (cases s) auto

lemma deref_not_NUL_length: "deref s \<noteq> NUL \<Longrightarrow> length s - Suc 0 < length s"
  by (cases s) auto

lemma length_advance [simp]: "length (advance s) = length s - 1"
  by (cases s) auto

text \<open>The string which a character buffer holds: everything before the first NUL.\<close>

definition cstr :: "string \<Rightarrow> string" where
  "cstr buf = takeWhile (\<lambda>c. c \<noteq> NUL) buf"

definition is_cstr :: "string \<Rightarrow> bool" where
  "is_cstr s \<longleftrightarrow> NUL \<notin> set s"

lemma is_cstr_cstr [simp]: "is_cstr (cstr s)"
  by (induction s) (auto simp: is_cstr_def cstr_def)

lemma cstr_id [simp]: "is_cstr s \<Longrightarrow> cstr s = s"
  by (induction s) (auto simp: is_cstr_def cstr_def)

lemma is_cstr_simps [simp]:
  "is_cstr []" "is_cstr (c # s) \<longleftrightarrow> c \<noteq> NUL \<and> is_cstr s"
  "is_cstr (s @ t) \<longleftrightarrow> is_cstr s \<and> is_cstr t"
  by (auto simp: is_cstr_def)

lemma of_char_eq_0 [simp]: "of_char c = (0 :: nat) \<longleftrightarrow> c = NUL"
proof -
  have "(of_char c :: nat) = of_char NUL \<longleftrightarrow> c = NUL"
    by (rule of_char_eq_iff)
  then show ?thesis by simp
qed

subsection \<open>Bytes of 32-bit values\<close>

definition byte_of :: "nat \<Rightarrow> 'a :: len word \<Rightarrow> u8" where
  "byte_of i v = ucast (drop_bit (8 * i) v)"

definition le32 :: "u32 \<Rightarrow> u8 list" where
  "le32 v = [byte_of 0 v, byte_of 1 v, byte_of 2 v, byte_of 3 v]"

definition be32 :: "u32 \<Rightarrow> u8 list" where
  "be32 v = [byte_of 3 v, byte_of 2 v, byte_of 1 v, byte_of 0 v]"

definition of_le32 :: "u8 \<Rightarrow> u8 \<Rightarrow> u8 \<Rightarrow> u8 \<Rightarrow> u32" where
  "of_le32 b0 b1 b2 b3 =
     ucast b0 OR push_bit 8 (ucast b1) OR push_bit 16 (ucast b2) OR push_bit 24 (ucast b3)"

definition of_le16 :: "u8 \<Rightarrow> u8 \<Rightarrow> u16" where
  "of_le16 b0 b1 = ucast b0 OR push_bit 8 (ucast b1)"

lemma length_le32 [simp]: "length (le32 v) = 4"
  by (simp add: le32_def)

lemma length_be32 [simp]: "length (be32 v) = 4"
  by (simp add: be32_def)

lemma of_le32_le32: "of_le32 (byte_of 0 v) (byte_of 1 v) (byte_of 2 v) (byte_of 3 v) = v"
proof (rule bit_word_eqI)
  fix n assume "n < LENGTH(32)"
  then consider "n < 8" | "8 \<le> n" "n < 16" | "16 \<le> n" "n < 24" | "24 \<le> n" "n < 32"
    by fastforce
  then show "bit (of_le32 (byte_of 0 v) (byte_of 1 v) (byte_of 2 v) (byte_of 3 v)) n = bit v n"
    by cases
       (auto simp: of_le32_def byte_of_def bit_or_iff bit_push_bit_iff bit_ucast_iff bit_drop_bit_eq)
qed

text \<open>The bytes of a buffer as characters.\<close>

definition chars :: "u8 list \<Rightarrow> string" where
  "chars bs = map (\<lambda>b. char_of (unat b)) bs"

text \<open>Storing bytes over the start of a buffer.\<close>

definition fill :: "'a list \<Rightarrow> 'a list \<Rightarrow> 'a list" where
  "fill buf dat = dat @ drop (length dat) buf"

lemma length_fill [simp]: "length (fill buf dat) = max (length buf) (length dat)"
  by (simp add: fill_def)

lemma fill_all: "length buf \<le> length dat \<Longrightarrow> fill buf dat = dat"
  by (simp add: fill_def)

text \<open>The little-endian 32-bit value at a position of a buffer.\<close>

definition le32_at :: "u8 list \<Rightarrow> nat \<Rightarrow> u32" where
  "le32_at bs i = of_le32 (bs ! i) (bs ! (i + 1)) (bs ! (i + 2)) (bs ! (i + 3))"

text \<open>Two bytes are equal when they agree on the eight bits.\<close>

lemma u8_eqI:
  fixes x y :: u8
  assumes "bit x 0 = bit y 0" "bit x 1 = bit y 1" "bit x 2 = bit y 2" "bit x 3 = bit y 3"
    "bit x 4 = bit y 4" "bit x 5 = bit y 5" "bit x 6 = bit y 6" "bit x 7 = bit y 7"
  shows "x = y"
proof (rule bit_word_eqI)
  fix n assume "n < LENGTH(8)"
  then consider "n = 0" | "n = 1" | "n = 2" | "n = 3" | "n = 4" | "n = 5" | "n = 6" | "n = 7" by fastforce
  then show "bit x n = bit y n" by cases (simp_all only: assms)
qed

subsection \<open>Changing the width\<close>

lemma unat_ucast_mod: "unat (ucast (w :: 'a :: len word) :: 'b :: len word) = unat w mod 2 ^ LENGTH('b)"
  by (simp add: unsigned_ucast_eq take_bit_eq_mod)

lemma unat_ucast_less: "unat (w :: 'a :: len word) < 2 ^ LENGTH('b) \<Longrightarrow> unat (ucast w :: 'b :: len word) = unat w"
  by (simp add: unat_ucast_mod)

lemma unat_bound: "unat (w :: 'a :: len word) < 2 ^ LENGTH('a)"
  by (rule unsigned_less)

lemma unat_16_32 [simp]: "unat (ucast (w :: u16) :: u32) = unat w"
  using unat_bound [of w] by (simp add: unat_ucast_mod)

lemma unat_8_32 [simp]: "unat (ucast (w :: u8) :: u32) = unat w"
  using unat_bound [of w] by (simp add: unat_ucast_mod)

lemma unat_32_64 [simp]: "unat (ucast (w :: u32) :: u64) = unat w"
  using unat_bound [of w] by (simp add: unat_ucast_mod)

lemma unat_of_nat_less: "n < 2 ^ LENGTH('a) \<Longrightarrow> unat (of_nat n :: 'a :: len word) = n"
  by (simp add: unat_of_nat take_bit_eq_mod)

lemma unat_drop_bit: "unat (drop_bit n (w :: 'a :: len word)) = unat w div 2 ^ n"
proof -
  have "unat (drop_bit n w) = drop_bit n (take_bit LENGTH('a) (unat w))" by (rule unsigned_drop_bit_eq)
  also have "take_bit LENGTH('a) (unat w) = unat w" by (rule take_bit_nat_eq_self [OF unat_bound])
  finally show ?thesis by (simp add: drop_bit_eq_div)
qed

lemma unat_push_bit: "unat (push_bit n (w :: 'a :: len word)) = unat w * 2 ^ n mod 2 ^ LENGTH('a)"
proof -
  have "unat (push_bit n w) = take_bit LENGTH('a) (push_bit n (unat w))" by (rule unsigned_push_bit_eq)
  then show ?thesis by (simp add: take_bit_eq_mod push_bit_eq_mult)
qed

lemma unat_pow2:
  assumes "n < LENGTH('a :: len)"
  shows "unat (2 ^ n :: 'a word) = 2 ^ n"
proof -
  have "unat (push_bit n (1 :: 'a word)) = 2 ^ n mod 2 ^ LENGTH('a)" unfolding unat_push_bit by simp
  with assms show ?thesis by simp
qed

subsection \<open>Masks as remainders\<close>

lemma unat_and_511: "unat ((x :: u32) AND 0x1FF) = unat x mod 512"
proof -
  have "unat (x AND 0x1FF) = take_bit 9 (unat x)"
    by (simp add: unsigned_and_eq take_bit_eq_mask mask_numeral)
  then show ?thesis by (simp add: take_bit_eq_mod)
qed

lemma unat_and_FFFE:
  assumes "unat (x :: u32) < 65536"
  shows "unat (x AND 0xFFFE) = unat x - unat x mod 2"
proof -
  have "x AND 0xFFFE = push_bit 1 (drop_bit 1 x)"
  proof (rule bit_word_eqI)
    fix n assume n: "n < LENGTH(32)"
    have "\<forall>n \<in> set [0..<32]. bit (0xFFFE :: u32) n \<longleftrightarrow> 1 \<le> n \<and> n < 16" by code_simp
    with n have b: "bit (0xFFFE :: u32) n \<longleftrightarrow> 1 \<le> n \<and> n < 16" by simp
    have "bit x n \<Longrightarrow> n < 16"
    proof (rule ccontr)
      assume "bit x n" "\<not> n < 16"
      then have "bit (unat x) n" by (simp add: bit_unsigned_iff)
      moreover have "take_bit 16 (unat x) = unat x" using assms by (simp add: take_bit_nat_eq_self)
      ultimately show False using \<open>\<not> n < 16\<close> by (metis bit_take_bit_iff)
    qed
    then show "bit (x AND 0xFFFE) n = bit (push_bit 1 (drop_bit 1 x)) n"
      unfolding bit_and_iff b bit_push_bit_iff bit_drop_bit_eq comp_def using n by auto
  qed
  then have "unat (x AND 0xFFFE) = unat (push_bit 1 (drop_bit 1 x))" by simp
  also have "\<dots> = 2 * (unat x div 2)"
    using assms by (simp add: push_bit_eq_mult drop_bit_eq_div unat_word_ariths unat_div)
  finally show ?thesis by (simp add: minus_mod_eq_mult_div)
qed

end
