(* ===== verification/Libc.thy ===== *)
theory Libc
  imports Prelude "HOL-Library.Signed_Division"
begin

text \<open>
  The character classes of \<open>libc/ctype.c\<close>, case-insensitive comparison
  (\<open>libc/string/strcasecmp.c\<close>) and number conversion (\<open>libc/stdlib/strtoul.c\<close>,
  \<open>strtol.c\<close>) that the firmware links against.  The functions on \<open>int\<close> characters are
  modelled on characters, which is the range the callers pass.
\<close>

subsection \<open>ctype.c\<close>

definition isdigit :: "char \<Rightarrow> bool" where
  "isdigit c \<longleftrightarrow> code_of CHR ''0'' \<le> code_of c \<and> code_of c \<le> code_of CHR ''9''"

definition islower :: "char \<Rightarrow> bool" where
  "islower c \<longleftrightarrow> code_of CHR ''a'' \<le> code_of c \<and> code_of c \<le> code_of CHR ''z''"

definition isupper :: "char \<Rightarrow> bool" where
  "isupper c \<longleftrightarrow> code_of CHR ''A'' \<le> code_of c \<and> code_of c \<le> code_of CHR ''Z''"

definition isalpha :: "char \<Rightarrow> bool" where
  "isalpha c \<longleftrightarrow> isupper c \<or> islower c"

definition isalnum :: "char \<Rightarrow> bool" where
  "isalnum c \<longleftrightarrow> isalpha c \<or> isdigit c"

definition isspace :: "char \<Rightarrow> bool" where
  "isspace c \<longleftrightarrow> c = CHR 0x09 \<or> c = CHR 0x0A \<or> c = CHR 0x0B \<or> c = CHR 0x0C \<or> c = CHR 0x0D
     \<or> c = CHR '' ''"

definition isxdigit :: "char \<Rightarrow> bool" where
  "isxdigit c \<longleftrightarrow>
     (code_of CHR ''A'' \<le> code_of c \<and> code_of c \<le> code_of CHR ''F'') \<or>
     (code_of CHR ''a'' \<le> code_of c \<and> code_of c \<le> code_of CHR ''f'')"

definition tolower :: "char \<Rightarrow> char" where
  "tolower c = (if isupper c then char_of ((of_char c :: nat) OR 0x20) else c)"

definition toupper :: "char \<Rightarrow> char" where
  "toupper c = (if islower c then char_of ((of_char c :: int) AND NOT 0x20) else c)"

lemma isdigit_not_NUL: "isdigit c \<Longrightarrow> c \<noteq> NUL"
  by (auto simp: isdigit_def)

lemma isspace_not_NUL: "isspace c \<Longrightarrow> c \<noteq> NUL"
  by (auto simp: isspace_def)

subsection \<open>strcasecmp.c\<close>

text \<open>
  The table \<open>charmap\<close> of the C file maps every code to itself except \<open>A\<close> to \<open>Z\<close>, which it
  maps to lower case: it is \<open>tolower\<close>.
\<close>

function strcasecmp :: "string \<Rightarrow> string \<Rightarrow> int" where
  "strcasecmp s1 s2 =
     (if tolower (deref s1) = tolower (deref s2)
      then (if deref s1 = NUL then 0 else strcasecmp (advance s1) (advance s2))
      else code_of (tolower (deref s1)) - code_of (tolower (deref s2)))"
  by pat_completeness auto
termination
  by (relation "measure (\<lambda>(s1, s2). length s1)") (auto simp: deref_not_NUL_length)

declare strcasecmp.simps [simp del]

function strncasecmp :: "string \<Rightarrow> string \<Rightarrow> nat \<Rightarrow> int" where
  "strncasecmp s1 s2 n =
     (if n = 0 then 0
      else if tolower (deref s1) \<noteq> tolower (deref s2)
      then code_of (tolower (deref s1)) - code_of (tolower (deref s2))
      else if deref s1 = NUL then 0
      else strncasecmp (advance s1) (advance s2) (n - 1))"
  by pat_completeness auto
termination by (relation "measure (\<lambda>(s1, s2, n). n)") auto

declare strncasecmp.simps [simp del]

function strncmp :: "string \<Rightarrow> string \<Rightarrow> nat \<Rightarrow> int" where
  "strncmp s1 s2 n =
     (if n = 0 then 0
      else if deref s1 \<noteq> deref s2 then code_of (deref s1) - code_of (deref s2)
      else if deref s1 = NUL then 0
      else strncmp (advance s1) (advance s2) (n - 1))"
  by pat_completeness auto
termination by (relation "measure (\<lambda>(s1, s2, n). n)") auto

declare strncmp.simps [simp del]

text \<open>Comparing as many characters as a string has is a prefix test.\<close>

lemma strncmp_prefix: "is_cstr t \<Longrightarrow> strncmp s t (length t) = 0 \<longleftrightarrow> take (length t) s = t"
proof (induction t arbitrary: s)
  case Nil
  show ?case by (simp add: strncmp.simps)
next
  case (Cons c t)
  show ?case
  proof (cases s)
    case Nil
    with Cons.prems show ?thesis by (auto simp: strncmp.simps of_char_eq_iff)
  next
    case (Cons d s')
    with Cons.prems Cons.IH [of s'] show ?thesis
      by (subst strncmp.simps) (auto simp: of_char_eq_iff)
  qed
qed

lemma or_32_upper:
  assumes "65 \<le> n \<and> n \<le> (90 :: nat)"
  shows "n OR 0x20 = n + 32 \<and> n < 256 - 32"
proof -
  have "\<forall>m \<in> set [65..<91]. m OR 0x20 = m + 32 \<and> m < 256 - (32 :: nat)"
    by code_simp
  moreover have "n \<in> set [65..<91]" unfolding set_upt using assms by simp
  ultimately show ?thesis by blast
qed

lemma code_of_tolower: "code_of (tolower c) = (if isupper c then code_of c + 32 else code_of c)"
proof (cases "isupper c")
  case True
  then have "(of_char c :: nat) \<in> {65..90}" by (auto simp: isupper_def)
  then have "(of_char c :: nat) OR 0x20 = of_char c + 32 \<and> (of_char c :: nat) < 256 - 32"
    by (simp only: atLeastAtMost_iff) (rule or_32_upper)
  with True show ?thesis by (simp add: tolower_def)
qed (simp add: tolower_def)

lemma tolower_NUL [simp]: "tolower c = NUL \<longleftrightarrow> c = NUL"
proof -
  have "tolower c = NUL \<longleftrightarrow> code_of (tolower c) = 0" by simp
  also have "\<dots> \<longleftrightarrow> c = NUL" by (auto simp: code_of_tolower isupper_def)
  finally show ?thesis .
qed

lemma tolower_NUL_eq [simp]: "tolower NUL = NUL"
  by simp

lemma strcasecmp_Nil: "strcasecmp [] s = - code_of (tolower (deref s))"
  by (simp add: strcasecmp.simps [of "[]"] tolower_def isupper_def)

lemma strcasecmp_Cons:
  "c \<noteq> NUL \<Longrightarrow> strcasecmp (c # s1) s2 =
     (if tolower c = tolower (deref s2) then strcasecmp s1 (advance s2)
      else code_of (tolower c) - code_of (tolower (deref s2)))"
  by (simp add: strcasecmp.simps [of "c # s1"])

lemma strcasecmp_eq_0:
  "is_cstr s1 \<Longrightarrow> is_cstr s2 \<Longrightarrow> strcasecmp s1 s2 = 0 \<longleftrightarrow> map tolower s1 = map tolower s2"
proof (induction s1 arbitrary: s2)
  case Nil
  then show ?case by (cases s2) (auto simp: strcasecmp_Nil)
next
  case (Cons c s1)
  then show ?case by (cases s2) (auto simp: strcasecmp_Cons)
qed

subsection \<open>strtoul.c and strtol.c\<close>

text \<open>
  \<open>unsigned long\<close> is 32 bits on the target.  Both functions accept digits up to the base,
  saturate on overflow and report where they stopped.  The digit loop is one function: its
  state is the accumulator and the flag \<open>any\<close> (0: no digit seen, 1: digits, -1: overflow).
\<close>

definition digit_val :: "char \<Rightarrow> int option" where
  "digit_val c =
     (if isdigit c then Some (code_of c - code_of CHR ''0'')
      else if isalpha c
      then Some (code_of c - (if isupper c then code_of CHR ''A'' - 10 else code_of CHR ''a'' - 10))
      else None)"

abbreviation ULONG_MAX :: u32 where
  "ULONG_MAX \<equiv> 0xFFFFFFFF"

definition strtoul_acc :: "int \<Rightarrow> int \<Rightarrow> u32 \<Rightarrow> int \<Rightarrow> u32 \<times> int" where
  "strtoul_acc base c acc any =
     (let cutoff = ULONG_MAX div word_of_int base; cutlim = uint (ULONG_MAX mod word_of_int base)
      in if any < 0 then (acc, any)
         else if cutoff < acc \<or> (acc = cutoff \<and> cutlim < c) then (ULONG_MAX, -1)
         else (acc * word_of_int base + word_of_int c, 1))"

fun strtoul_loop :: "int \<Rightarrow> string \<Rightarrow> u32 \<Rightarrow> int \<Rightarrow> u32 \<times> int \<times> string" where
  "strtoul_loop base [] acc any = (acc, any, [])"
| "strtoul_loop base (ch # s) acc any =
     (case digit_val ch of
        None \<Rightarrow> (acc, any, ch # s)
      | Some c \<Rightarrow>
          (if base \<le> c then (acc, any, ch # s)
           else let (acc, any) = strtoul_acc base c acc any in strtoul_loop base s acc any))"

text \<open>Leading white space, the sign and the base prefix, shared by both conversions.\<close>

definition strto_prefix :: "string \<Rightarrow> int \<Rightarrow> bool \<times> int \<times> string" where
  "strto_prefix nptr base =
     (let s = dropWhile isspace nptr;
          neg = (deref s = CHR ''-'');
          s = (if neg then advance s else if deref s = CHR ''+'' then advance s else s);
          hex = ((base = 0 \<or> base = 16) \<and> deref s = CHR ''0'' \<and>
                 (deref (advance s) = CHR ''x'' \<or> deref (advance s) = CHR ''X''));
          s = (if hex then advance (advance s) else s);
          base = (if hex then 16 else base);
          base = (if base = 0 then (if deref s = CHR ''0'' then 8 else 10) else base)
      in (neg, base, s))"

definition strtoul :: "string \<Rightarrow> int \<Rightarrow> u32 \<times> string" where
  "strtoul nptr base =
     (if base < 0 \<or> base = 1 \<or> base > 36 then (0, nptr)
      else let (neg, base, s) = strto_prefix nptr base;
               (acc, any, e) = strtoul_loop base s 0 0
           in (if neg \<and> any > 0 then - acc else acc, if any \<noteq> 0 then e else nptr))"

abbreviation LONG_MAX :: int where
  "LONG_MAX \<equiv> 2147483647"

abbreviation LONG_MIN :: int where
  "LONG_MIN \<equiv> - 2147483648"

text \<open>
  \<open>strtol\<close> accumulates negatively for a negative number.  \<open>sdiv\<close> and \<open>smod\<close> are C's
  truncating division; the C code's correction for a positive remainder is kept.
\<close>

definition strtol_cut :: "int \<Rightarrow> bool \<Rightarrow> int \<times> int" where
  "strtol_cut base neg =
     (let cutoff = (if neg then LONG_MIN else LONG_MAX);
          cutlim = cutoff smod base;
          cutoff = cutoff sdiv base
      in if neg
         then (let (cutlim, cutoff) = (if cutlim > 0 then (cutlim - base, cutoff + 1) else (cutlim, cutoff))
               in (cutoff, - cutlim))
         else (cutoff, cutlim))"

definition strtol_acc :: "int \<Rightarrow> bool \<Rightarrow> int \<Rightarrow> int \<Rightarrow> int \<Rightarrow> int \<times> int" where
  "strtol_acc base neg c acc any =
     (let (cutoff, cutlim) = strtol_cut base neg
      in if any < 0 then (acc, any)
         else if neg then
           (if acc < cutoff \<or> (acc = cutoff \<and> cutlim < c) then (LONG_MIN, -1)
            else (acc * base - c, 1))
         else
           (if cutoff < acc \<or> (acc = cutoff \<and> cutlim < c) then (LONG_MAX, -1)
            else (acc * base + c, 1)))"

fun strtol_loop :: "int \<Rightarrow> bool \<Rightarrow> string \<Rightarrow> int \<Rightarrow> int \<Rightarrow> int \<times> int \<times> string" where
  "strtol_loop base neg [] acc any = (acc, any, [])"
| "strtol_loop base neg (ch # s) acc any =
     (case digit_val ch of
        None \<Rightarrow> (acc, any, ch # s)
      | Some c \<Rightarrow>
          (if base \<le> c then (acc, any, ch # s)
           else let (acc, any) = strtol_acc base neg c acc any in strtol_loop base neg s acc any))"

definition strtol :: "string \<Rightarrow> int \<Rightarrow> int \<times> string" where
  "strtol nptr base =
     (if base < 0 \<or> base = 1 \<or> base > 36 then (0, nptr)
      else let (neg, base, s) = strto_prefix nptr base;
               (acc, any, e) = strtol_loop base neg s 0 0
           in (acc, if any \<noteq> 0 then e else nptr))"

text \<open>Both loops stop at the first character that is no digit of the base.\<close>

definition is_digit_of :: "int \<Rightarrow> char \<Rightarrow> bool" where
  "is_digit_of base c \<longleftrightarrow> (case digit_val c of None \<Rightarrow> False | Some d \<Rightarrow> d < base)"

lemma strtoul_loop_end [simp]: "snd (snd (strtoul_loop base s acc any)) = dropWhile (is_digit_of base) s"
  by (induction s arbitrary: acc any)
     (auto simp: is_digit_of_def split: option.split prod.split)

lemma strtol_loop_end [simp]:
  "snd (snd (strtol_loop base neg s acc any)) = dropWhile (is_digit_of base) s"
  by (induction s arbitrary: acc any)
     (auto simp: is_digit_of_def split: option.split prod.split)

lemma strtoul_acc_any: "strtoul_acc base d acc any = (acc', any') \<Longrightarrow> any' \<noteq> 0"
  by (auto simp: strtoul_acc_def Let_def split: if_splits)

lemma strtoul_loop_any: "any \<noteq> 0 \<Longrightarrow> fst (snd (strtoul_loop base s acc any)) \<noteq> 0"
proof (induction s arbitrary: acc any)
  case (Cons c s)
  show ?case
  proof (cases "digit_val c")
    case (Some d)
    obtain acc' any' where step: "strtoul_acc base d acc any = (acc', any')"
      by (cases "strtoul_acc base d acc any")
    with Cons.IH [OF strtoul_acc_any [OF step]] Some Cons.prems show ?thesis by simp
  qed (use Cons.prems in simp)
qed simp

lemma is_digit_of_10 [simp]: "is_digit_of 10 = isdigit"
  by (rule ext)
     (auto simp: is_digit_of_def digit_val_def isdigit_def isalpha_def isupper_def islower_def)

end
