(* ===== verification/Printf.thy ===== *)
theory Printf
  imports Libc "HOL-Library.Monad_Syntax"
begin

text \<open>
  The formatter of \<open>printf.c\<close>: number conversion (\<open>ui2a\<close>, \<open>i2a\<close>), padding (\<open>putchw\<close>), the
  width parser (\<open>a2d\<close>, \<open>a2i\<close>) and the format loop \<open>tfp_format\<close>.

  The character sink \<open>putf\<close> with its pointer argument \<open>putp\<close> is a function on an abstract
  sink state, applied once per character in order.  The loops of \<open>ui2a\<close> do not end for a base
  below 2, so they are partial functions, and \<open>None\<close> stands for that; a variadic argument that
  is missing or of the wrong kind (undefined behaviour in C) is \<open>None\<close> as well.  On the target
  \<open>long\<close> and \<open>int\<close> are both 32 bits, so \<open>uli2a\<close> and \<open>li2a\<close> coincide with \<open>ui2a\<close> and \<open>i2a\<close>.
\<close>

subsection \<open>Numbers to digits\<close>

partial_function (option) ui2a_scale :: "u32 \<Rightarrow> u32 \<Rightarrow> u32 \<Rightarrow> u32 option" where
  "ui2a_scale num base d =
     (if base \<le> num div d then ui2a_scale num base (d * base) else Some d)"

definition digit_char :: "u32 \<Rightarrow> bool \<Rightarrow> char" where
  "digit_char dgt uc =
     char_of (unat dgt + (if dgt < 10 then 48 else (if uc then 65 else 97) - 10))"

partial_function (option) ui2a_emit :: "u32 \<Rightarrow> u32 \<Rightarrow> bool \<Rightarrow> u32 \<Rightarrow> nat \<Rightarrow> string option" where
  "ui2a_emit num base uc d n =
     (if d = 0 then Some []
      else let dgt = num div d; num = num mod d; d = d div base
           in if 0 < n \<or> 0 < dgt \<or> d = 0
              then do { s \<leftarrow> ui2a_emit num base uc d (Suc n); Some (digit_char dgt uc # s) }
              else ui2a_emit num base uc d n)"

definition ui2a :: "u32 \<Rightarrow> u32 \<Rightarrow> bool \<Rightarrow> string option" where
  "ui2a num base uc = do { d \<leftarrow> ui2a_scale num base 1; ui2a_emit num base uc d 0 }"

definition i2a :: "u32 \<Rightarrow> string option" where
  "i2a num =
     (if num <s 0 then map_option (Cons CHR ''-'') (ui2a (- num) 10 False) else ui2a num 10 False)"

text \<open>
  The scale loop stops at the largest power of the base that does not exceed the number, without
  wrap-around; the digit loop then writes exactly the base digits from there down.
\<close>

lemma ui2a_scale_power:
  assumes "2 \<le> unat base" "unat d = unat base ^ k" "k = 0 \<or> unat base ^ k \<le> unat num"
  shows "\<exists>k' d'. ui2a_scale num base d = Some d' \<and> unat d' = unat base ^ k' \<and>
           unat num < unat base ^ Suc k' \<and> (k' = 0 \<or> unat base ^ k' \<le> unat num)"
  using assms(2,3)
proof (induction "unat num - unat d" arbitrary: d k rule: less_induct)
  case less
  have pos: "0 < unat d" using assms(1) less.prems(1) by simp
  have unfold: "ui2a_scale num base d = (if base \<le> num div d then ui2a_scale num base (d * base) else Some d)"
    by (rule ui2a_scale.simps)
  show ?case
  proof (cases "base \<le> num div d")
    case True
    then have "unat base \<le> unat num div unat d" by (simp add: word_le_nat_alt unat_div)
    then have le: "unat d * unat base \<le> unat num"
      using pos by (simp add: less_eq_div_iff_mult_less_eq mult.commute)
    then have prod: "unat (d * base) = unat base ^ Suc k"
      using less.prems(1) unsigned_less [of num, where 'a = nat] by (simp add: unat_word_ariths mult.commute)
    have "unat d < unat (d * base)" using prod less.prems(1) pos assms(1) by simp
    moreover have "unat (d * base) \<le> unat num" using le prod less.prems(1) by (simp add: mult.commute)
    ultimately have "unat num - unat (d * base) < unat num - unat d" by linarith
    moreover have "Suc k = 0 \<or> unat base ^ Suc k \<le> unat num" using le less.prems(1) by (simp add: mult.commute)
    ultimately show ?thesis using less.hyps [OF _ prod] True unfold by simp
  next
    case False
    then have "unat num div unat d < unat base" by (simp add: word_le_nat_alt unat_div)
    then have "unat num < unat base * unat d" using pos by (simp add: div_less_iff_less_mult)
    with False less.prems unfold show ?thesis by (auto simp: mult.commute)
  qed
qed

lemma div_mod_power:
  assumes "i < k"
  shows "(m mod b ^ k) div b ^ i mod b = m div b ^ i mod (b :: nat)"
proof (cases "b = 0")
  case False
  have "b ^ k = b ^ i * b ^ (k - i)" using assms by (simp add: power_add [symmetric])
  then have "(m mod b ^ k) div b ^ i = m div b ^ i mod b ^ (k - i)"
    using False by (simp add: mod_mult2_eq)
  moreover have "b dvd b ^ (k - i)" using assms by (simp add: dvd_power)
  ultimately show ?thesis by (simp add: mod_mod_cancel)
qed (use assms in \<open>cases i; simp add: power_0_left\<close>)

definition base_digits :: "nat \<Rightarrow> bool \<Rightarrow> nat \<Rightarrow> nat \<Rightarrow> string" where
  "base_digits b uc m k = map (\<lambda>i. digit_char (of_nat (m div b ^ i mod b)) uc) (rev [0..<Suc k])"

lemma base_digits_Suc:
  "base_digits b uc m (Suc k) =
     digit_char (of_nat (m div b ^ Suc k mod b)) uc # base_digits b uc (m mod b ^ Suc k) k"
  unfolding base_digits_def by (simp add: div_mod_power del: power_Suc)

lemma ui2a_emit_digits:
  assumes "2 \<le> unat base" "unat d = unat base ^ k" "unat num < unat base ^ Suc k"
    and "0 < n \<or> unat base ^ k \<le> unat num \<or> k = 0"
  shows "ui2a_emit num base uc d n = Some (base_digits (unat base) uc (unat num) k)"
  using assms(2-)
proof (induction k arbitrary: num d n)
  case 0
  then have d: "d = 1" by (simp add: word_eq_iff_unsigned [where 'a = nat])
  have "1 div base = 0" using assms(1) by (simp add: word_arith_nat_div)
  then show ?case using 0 d
    by (simp add: ui2a_emit.simps [of num] ui2a_emit.simps [of _ _ _ 0] base_digits_def Let_def)
next
  case (Suc k)
  have b0: "0 < unat base ^ Suc k" using assms(1) by simp
  have d0: "d \<noteq> 0" using Suc.prems(1) b0 by auto
  have d': "unat (d div base) = unat base ^ k" using Suc.prems(1) assms(1) by (simp add: unat_div)
  have num': "unat (num mod d) = unat num mod unat base ^ Suc k" by (simp add: unat_mod Suc.prems(1))
  have dgt: "unat (num div d) = unat num div unat base ^ Suc k" by (simp add: unat_div Suc.prems(1))
  have small: "unat num div unat base ^ Suc k < unat base"
    using Suc.prems(2) b0 by (simp add: div_less_iff_less_mult mult.commute)
  have emits: "0 < n \<or> 0 < num div d \<or> d div base = 0"
  proof -
    have "0 < unat (num div d)" if "unat base ^ Suc k \<le> unat num"
      using that b0 unfolding dgt by (simp only: div_greater_zero_iff)
    then show ?thesis using Suc.prems(3) by (auto simp: word_greater_zero_iff unat_gt_0)
  qed
  have rec: "ui2a_emit (num mod d) base uc (d div base) (Suc n) =
      Some (base_digits (unat base) uc (unat num mod unat base ^ Suc k) k)"
    using Suc.IH [OF d', of "num mod d" "Suc n"] b0 by (simp add: num' del: power_Suc)
  have "num div d = of_nat (unat num div unat base ^ Suc k)"
    unfolding dgt [symmetric] by simp
  then show ?case
    using d0 emits rec small
    by (simp add: ui2a_emit.simps [of num] base_digits_Suc Let_def del: power_Suc)
qed

lemma ui2a_digits:
  assumes "2 \<le> unat base"
  shows "\<exists>k. ui2a num base uc = Some (base_digits (unat base) uc (unat num) k) \<and>
           unat num < unat base ^ Suc k \<and> (k = 0 \<or> unat base ^ k \<le> unat num)"
proof -
  from ui2a_scale_power [of base 1 0 num] assms obtain k d where
    "ui2a_scale num base 1 = Some d" "unat d = unat base ^ k" "unat num < unat base ^ Suc k"
    "k = 0 \<or> unat base ^ k \<le> unat num" by auto
  then show ?thesis
    using ui2a_emit_digits [OF assms, of d k num 0 uc] by (auto simp: ui2a_def)
qed

lemma unat_numeral_10: "unat (10 :: u32) = 10"
  by simp

lemma code_of_digit_char:
  assumes "d < 16"
  shows "code_of (digit_char (of_nat d) uc) = int d + (if d < 10 then 48 else if uc then 55 else 87)"
proof -
  have "unat (word_of_nat d :: u32) = d" using assms by (simp add: unat_of_nat take_bit_eq_mod)
  then have "digit_char (of_nat d) uc = char_of (d + (if d < 10 then 48 else (if uc then 65 else 97) - 10))"
    by (simp only: digit_char_def word_less_nat_alt unat_numeral_10)
  then show ?thesis using assms by simp
qed

lemma char_eq_code: "c = c' \<longleftrightarrow> code_of c = code_of c'"
  by simp

lemma digit_char_facts:
  assumes "d < 16"
  shows "digit_val (digit_char (of_nat d) uc) = Some (int d)"
    and "\<not> isspace (digit_char (of_nat d) uc)"
    and "digit_char (of_nat d) uc \<notin> {CHR ''-'', CHR ''+'', CHR ''x'', CHR ''X'', NUL}"
    and "digit_char (of_nat d) uc = CHR ''0'' \<longleftrightarrow> d = 0"
  using assms
  by (auto simp: digit_val_def isdigit_def isalpha_def isupper_def islower_def isspace_def
      code_of_digit_char char_eq_code [of "digit_char (of_nat d) uc"]
      simp del: of_char_eq_iff of_nat_eq_iff)

lemma strtoul_acc_small:
  assumes "2 \<le> b" "b \<le> 36" "d < b" "0 \<le> any" "unat acc * b + d < 2 ^ 32"
  shows "strtoul_acc (int b) (int d) acc any = (of_nat (unat acc * b + d), 1)"
proof -
  have ub: "unat (word_of_nat b :: u32) = b" using assms(2) by (simp add: unat_of_nat take_bit_eq_mod)
  have q: "unat (ULONG_MAX div word_of_nat b) = 4294967295 div b"
    and r: "unat (ULONG_MAX mod word_of_nat b) = 4294967295 mod b"
    by (simp_all add: unat_div unat_mod ub)
  have "unat acc * b + d \<le> 4294967295" using assms(5) by simp
  then have qle: "unat acc \<le> 4294967295 div b"
    using assms(1) by (simp add: less_eq_div_iff_mult_less_eq)
  have "d \<le> 4294967295 mod b" if "unat acc = 4294967295 div b"
  proof -
    have "unat acc * b + 4294967295 mod b = 4294967295" unfolding that by simp
    then show ?thesis using assms(5) by simp
  qed
  then have "\<not> (ULONG_MAX div word_of_nat b < acc \<or>
        acc = ULONG_MAX div word_of_nat b \<and> uint (ULONG_MAX mod word_of_nat b) < int d)"
    using qle q r by (auto simp: word_less_nat_alt uint_nat)
  then show ?thesis using assms(4) by (simp add: strtoul_acc_def Let_def)
qed

lemma strtoul_loop_digits:
  assumes "b = 10 \<or> b = 16" "0 \<le> any" "m < b ^ Suc k" "unat acc * b ^ Suc k + m < 2 ^ 32"
  shows "strtoul_loop (int b) (base_digits b uc m k) acc any = (of_nat (unat acc * b ^ Suc k + m), 1, [])"
  using assms(2-)
proof (induction k arbitrary: m acc any)
  case 0
  then have "m < 16" "m < b" using assms(1) by auto
  then show ?case using 0 assms(1) strtoul_acc_small [of b m any acc]
    by (auto simp: base_digits_def digit_char_facts)
next
  case (Suc k)
  define d where "d = m div b ^ Suc k"
  define r where "r = m mod b ^ Suc k"
  have b0: "0 < b ^ Suc k" using assms(1) by auto
  have db: "d < b" using Suc.prems(2) b0 by (simp add: d_def div_less_iff_less_mult mult.commute)
  then have d16: "d < 16" "d mod b = d" using assms(1) by auto
  have m: "m = d * b ^ Suc k + r" unfolding d_def r_def by (rule div_mult_mod_eq [symmetric])
  have tot: "unat acc * b ^ Suc (Suc k) + m = (unat acc * b + d) * b ^ Suc k + r"
    by (simp add: m algebra_simps)
  have small: "unat acc * b + d < 2 ^ 32"
  proof -
    have "unat acc * b + d \<le> (unat acc * b + d) * b ^ Suc k" using b0 by (simp add: Suc_leI)
    then show ?thesis using Suc.prems(3) tot by linarith
  qed
  then have acc': "unat (word_of_nat (unat acc * b + d) :: u32) = unat acc * b + d"
    by (simp add: unat_of_nat take_bit_eq_mod del: of_nat_add of_nat_mult)
  have step: "strtoul_acc (int b) (int d) acc any = (word_of_nat (unat acc * b + d), 1)"
    using strtoul_acc_small [OF _ _ db Suc.prems(1) small] assms(1) by auto
  have "strtoul_loop (int b) (base_digits b uc r k) (word_of_nat (unat acc * b + d)) 1 =
      (word_of_nat ((unat acc * b + d) * b ^ Suc k + r), 1, [])"
    using Suc.IH [of 1 r "word_of_nat (unat acc * b + d)"] b0 Suc.prems(3) tot
    unfolding acc' by (simp add: r_def del: power_Suc of_nat_add of_nat_mult)
  then show ?case
    unfolding tot base_digits_Suc d_def [symmetric] r_def [symmetric] d16
    using db d16 step by (simp add: digit_char_facts del: power_Suc of_nat_add of_nat_mult)
qed

lemma base_digits_hd: "hd (base_digits b uc m k) = digit_char (of_nat (m div b ^ k mod b)) uc"
  by (simp add: base_digits_def)

lemma length_base_digits [simp]: "length (base_digits b uc m k) = Suc k"
  by (simp add: base_digits_def)

lemma set_base_digits:
  assumes "b = 10 \<or> b = 16" "c \<in> set (base_digits b uc m k)"
  shows "\<not> isspace c \<and> c \<notin> {CHR ''-'', CHR ''+'', CHR ''x'', CHR ''X'', NUL}"
proof -
  from assms(2) obtain i where c: "c = digit_char (of_nat (m div b ^ i mod b)) uc"
    unfolding base_digits_def by (auto simp del: upt_Suc)
  have "m div b ^ i mod b < b" using assms(1) by (intro mod_less_divisor) auto
  then have "m div b ^ i mod b < 16" using assms(1) by auto
  from digit_char_facts(2,3) [OF this, of uc] show ?thesis unfolding c by blast
qed

lemma strto_prefix_digits:
  assumes "s \<noteq> []" "base \<noteq> 0"
    and "\<And>c. c \<in> set s \<Longrightarrow> \<not> isspace c \<and> c \<notin> {CHR ''-'', CHR ''+'', CHR ''x'', CHR ''X'', NUL}"
  shows "strto_prefix s base = (False, base, s)"
proof -
  obtain c t where s: "s = c # t" using assms(1) by (cases s) auto
  have "deref t \<noteq> CHR ''x'' \<and> deref t \<noteq> CHR ''X''" using assms(3) [of "deref t"] s by (cases t) auto
  moreover have "\<not> isspace c" "c \<noteq> CHR ''-''" "c \<noteq> CHR ''+''" using assms(3) [of c] s by auto
  ultimately show ?thesis using s assms(2) by (simp add: strto_prefix_def)
qed

text \<open>
  C33. Printing an unsigned number in base 10 or 16 always returns, fits the 24-byte buffer of
  \<open>tfp_format\<close>, has no leading zero except for 0 itself, and reading the text back with
  \<open>strtoul\<close> gives the number and consumes the whole text.
\<close>

theorem ui2a_roundtrip:
  assumes "base = 10 \<or> base = 16"
  shows "\<exists>s. ui2a num base uc = Some s \<and> strtoul s (uint base) = (num, []) \<and>
           0 < length s \<and> length s < 24 \<and> (hd s = CHR ''0'' \<longleftrightarrow> num = 0)"
proof -
  define b where "b = unat base"
  have b: "b = 10 \<or> b = 16" "uint base = int b" "2 \<le> unat base"
    using assms by (auto simp: b_def)
  from ui2a_digits [OF b(3), of num uc] obtain k where
    k: "ui2a num base uc = Some (base_digits b uc (unat num) k)" "unat num < b ^ Suc k"
      "k = 0 \<or> b ^ k \<le> unat num"
    by (auto simp: b_def)
  let ?s = "base_digits b uc (unat num) k"
  have n32: "unat num < 2 ^ 32" using unsigned_less [of num, where 'a = nat] by simp
  have loop: "strtoul_loop (int b) ?s 0 0 = (num, 1, [])"
    using strtoul_loop_digits [OF b(1), of 0 "unat num" k 0 uc] k(2) n32
    by (simp del: power_Suc)
  have c: "\<And>c. c \<in> set ?s \<Longrightarrow> \<not> isspace c \<and> c \<notin> {CHR ''-'', CHR ''+'', CHR ''x'', CHR ''X'', NUL}"
    using b(1) by (rule set_base_digits)
  have prefix: "strto_prefix ?s (int b) = (False, int b, ?s)"
    using b(1) c by (intro strto_prefix_digits) (auto simp: base_digits_def)
  have "strtoul ?s (int b) = (num, [])"
    using b(1) by (auto simp: strtoul_def prefix loop)
  moreover have "0 < length ?s" by simp
  moreover have "length ?s < 24"
  proof -
    have "k < 10" if "b ^ k \<le> unat num"
    proof -
      have "(10 :: nat) ^ k \<le> b ^ k" using b(1) by (intro power_mono) auto
      also have "b ^ k < 10 ^ 10" using that n32 by simp
      finally show ?thesis by (rule power_less_imp_less_exp [rotated]) simp
    qed
    then show ?thesis using k(3) by auto
  qed
  moreover have "hd ?s = CHR ''0'' \<longleftrightarrow> num = 0"
  proof -
    have "unat num div b ^ k < b" using k(2) by (intro less_mult_imp_div_less) simp
    moreover have "b \<le> 16" using b(1) by auto
    ultimately have "unat num div b ^ k mod b = unat num div b ^ k" "unat num div b ^ k < 16" by auto
    then have "hd ?s = CHR ''0'' \<longleftrightarrow> unat num div b ^ k = 0"
      by (simp only: base_digits_hd digit_char_facts(4))
    also have "\<dots> \<longleftrightarrow> num = 0" using k(3) b(1) by (auto simp: div_eq_0_iff unsigned_eq_0_iff)
    finally show ?thesis .
  qed
  ultimately show ?thesis unfolding b(2) using k(1) by blast
qed

theorem ui2a_roundtrip_witness:
  "\<exists>s. ui2a 0xC0FFEE 16 True = Some s \<and> strtoul s 16 = (0xC0FFEE, [])"
  using ui2a_roundtrip [of 16 "0xC0FFEE" True] by auto

subsection \<open>The width field\<close>

definition a2d :: "char \<Rightarrow> int" where
  "a2d ch =
     (if code_of CHR ''0'' \<le> code_of ch \<and> code_of ch \<le> code_of CHR ''9'' then code_of ch - code_of CHR ''0''
      else if code_of CHR ''a'' \<le> code_of ch \<and> code_of ch \<le> code_of CHR ''f'' then code_of ch - code_of CHR ''a'' + 10
      else if code_of CHR ''A'' \<le> code_of ch \<and> code_of ch \<le> code_of CHR ''F'' then code_of ch - code_of CHR ''A'' + 10
      else -1)"

text \<open>
  \<open>a2i\<close> is entered with the current character \<open>ch\<close> and the rest of the format.  Its bound test
  is \<open>digit > base\<close>, as in the source, so it accepts a digit equal to the base.
\<close>

fun a2i :: "char \<Rightarrow> string \<Rightarrow> u32 \<Rightarrow> u32 \<Rightarrow> char \<times> string \<times> u32" where
  "a2i ch [] base num =
     (let digit = a2d ch in
      if digit < 0 \<or> sint base < digit then (ch, [], num)
      else (NUL, [], num * base + word_of_int digit))"
| "a2i ch (c # src) base num =
     (let digit = a2d ch in
      if digit < 0 \<or> sint base < digit then (ch, c # src, num)
      else a2i c src base (num * base + word_of_int digit))"

lemma a2i_length: "length (fst (snd (a2i ch src base num))) \<le> length src"
  by (induction ch src base num rule: a2i.induct) (auto simp: Let_def)

subsection \<open>Output\<close>

text \<open>\<open>putchw\<close> writes \<open>bf\<close>, preceded by \<open>n - length bf\<close> fill characters when that is positive.\<close>

fun putchw_fill :: "('p \<Rightarrow> char \<Rightarrow> 'p) \<Rightarrow> 'p \<Rightarrow> nat \<Rightarrow> char \<Rightarrow> 'p" where
  "putchw_fill putf p 0 fc = p"
| "putchw_fill putf p (Suc n) fc = putchw_fill putf (putf p fc) n fc"

fun putchw_count :: "int \<Rightarrow> string \<Rightarrow> int" where
  "putchw_count n [] = n"
| "putchw_count n (c # bf) = (if n > 0 then putchw_count (n - 1) bf else n)"

definition putchw :: "('p \<Rightarrow> char \<Rightarrow> 'p) \<Rightarrow> 'p \<Rightarrow> int \<Rightarrow> bool \<Rightarrow> string \<Rightarrow> 'p" where
  "putchw putf p n z bf =
     (let fc = (if z then CHR ''0'' else CHR '' '');
          n = putchw_count n bf
      in foldl putf (putchw_fill putf p (nat n) fc) bf)"

subsection \<open>The format loop\<close>

datatype varg = ArgInt u32 | ArgStr string

text \<open>
  \<open>tfp_spec\<close> reads a conversion after the \<open>%\<close>: the flag \<open>0\<close>, the width and the letter \<open>l\<close>.  It
  returns the flag, the width, the conversion character (NUL at the end of the format) and the
  rest of the format.
\<close>

definition tfp_spec :: "string \<Rightarrow> bool \<times> u32 \<times> char \<times> string" where
  "tfp_spec fmt =
     (let (ch, fmt) = (deref fmt, advance fmt);
          lz = (ch = CHR ''0'');
          (ch, fmt) = (if lz then (deref fmt, advance fmt) else (ch, fmt));
          (ch, fmt, w) = (if isdigit ch then a2i ch fmt 10 0 else (ch, fmt, 0));
          (ch, fmt) = (if ch = CHR ''l'' then (deref fmt, advance fmt) else (ch, fmt))
      in (lz, w, ch, fmt))"

text \<open>
  \<open>tfp_conv\<close> is the \<open>switch\<close>: it consumes the argument which the conversion needs.  The case
  \<open>%\<close> falls through to \<open>default\<close>, which does nothing.
\<close>

definition tfp_conv ::
  "('p \<Rightarrow> char \<Rightarrow> 'p) \<Rightarrow> 'p \<Rightarrow> bool \<Rightarrow> u32 \<Rightarrow> char \<Rightarrow> varg list \<Rightarrow> ('p \<times> varg list) option" where
  "tfp_conv putf p lz w ch va =
     (if ch = CHR ''u'' then
        (case va of ArgInt v # va \<Rightarrow> do { bf \<leftarrow> ui2a v 10 False; Some (putchw putf p (sint w) lz bf, va) }
                  | _ \<Rightarrow> None)
      else if ch = CHR ''d'' then
        (case va of ArgInt v # va \<Rightarrow> do { bf \<leftarrow> i2a v; Some (putchw putf p (sint w) lz bf, va) }
                  | _ \<Rightarrow> None)
      else if ch = CHR ''x'' \<or> ch = CHR ''X'' then
        (case va of ArgInt v # va \<Rightarrow>
            do { bf \<leftarrow> ui2a v 16 (ch = CHR ''X''); Some (putchw putf p (sint w) lz bf, va) }
                  | _ \<Rightarrow> None)
      else if ch = CHR ''c'' then
        (case va of ArgInt v # va \<Rightarrow> Some (putf p (char_of (unat v)), va) | _ \<Rightarrow> None)
      else if ch = CHR ''s'' then
        (case va of ArgStr bf # va \<Rightarrow> Some (putchw putf p (sint w) False bf, va) | _ \<Rightarrow> None)
      else if ch = CHR ''%'' then Some (putf p ch, va)
      else Some (p, va))"

lemma tfp_spec_length: "tfp_spec fmt = (lz, w, ch, fmt') \<Longrightarrow> length fmt' \<le> length fmt"
proof -
  assume spec: "tfp_spec fmt = (lz, w, ch, fmt')"
  define f1 where "f1 = advance fmt"
  define f2 where "f2 = (if deref fmt = CHR ''0'' then advance f1 else f1)"
  define c2 where "c2 = (if deref fmt = CHR ''0'' then deref f1 else deref fmt)"
  define f3 where "f3 = (if isdigit c2 then fst (snd (a2i c2 f2 10 0)) else f2)"
  have "length f1 \<le> length fmt" "length f2 \<le> length f1" by (auto simp: f1_def f2_def)
  moreover have "length f3 \<le> length f2" using a2i_length [of c2 f2 10 0] by (auto simp: f3_def)
  moreover have "fmt' = f3 \<or> fmt' = advance f3"
    using spec by (auto simp: tfp_spec_def f1_def f2_def c2_def f3_def split: if_splits prod.splits)
  ultimately show ?thesis by auto
qed

function tfp_format :: "('p \<Rightarrow> char \<Rightarrow> 'p) \<Rightarrow> 'p \<Rightarrow> string \<Rightarrow> varg list \<Rightarrow> 'p option" where
  "tfp_format putf p [] va = Some p"
| "tfp_format putf p (ch # fmt) va =
     (if ch \<noteq> CHR ''%'' then tfp_format putf (putf p ch) fmt va
      else case tfp_spec fmt of (lz, w, ch, fmt) \<Rightarrow>
        (if ch = NUL then Some p
         else case tfp_conv putf p lz w ch va of
             None \<Rightarrow> None
           | Some (p, va) \<Rightarrow> tfp_format putf p fmt va))"
  by pat_completeness auto
termination
  by (relation "measure (\<lambda>(putf, p, fmt, va). length fmt)")
     (auto dest!: tfp_spec_length [OF sym])

text \<open>
  \<open>tfp_sprintf\<close> writes through \<open>putcp\<close>, which stores a character and advances the pointer: the
  sink state is the text written so far.
\<close>

definition putcp :: "string \<Rightarrow> char \<Rightarrow> string" where
  "putcp s c = s @ [c]"

definition tfp_sprintf :: "string \<Rightarrow> varg list \<Rightarrow> string option" where
  "tfp_sprintf fmt va = map_option (\<lambda>s. putcp s NUL) (tfp_format putcp [] fmt va)"

text \<open>
  \<open>tfp_printf\<close> writes to the registered sink, or does nothing when \<open>init_printf\<close> has not run.
\<close>

definition tfp_printf :: "('p \<times> ('p \<Rightarrow> char \<Rightarrow> 'p)) option \<Rightarrow> string \<Rightarrow> varg list \<Rightarrow> ('p \<times> ('p \<Rightarrow> char \<Rightarrow> 'p)) option option" where
  "tfp_printf out fmt va =
     (case out of
        None \<Rightarrow> Some None
      | Some (p, putf) \<Rightarrow> map_option (\<lambda>p. Some (p, putf)) (tfp_format putf p fmt va))"

definition init_printf :: "'p \<Rightarrow> ('p \<Rightarrow> char \<Rightarrow> 'p) \<Rightarrow> ('p \<times> ('p \<Rightarrow> char \<Rightarrow> 'p)) option" where
  "init_printf putp putf = Some (putp, putf)"

subsection \<open>What is written does not depend on the sink\<close>

text \<open>
  The text of a format: the same recursion with the output collected as a list.  Formatting
  into any sink feeds it this text, one character at a time.
\<close>

definition pad :: "int \<Rightarrow> bool \<Rightarrow> string \<Rightarrow> string" where
  "pad n z bf = replicate (nat (n - int (length bf))) (if z then CHR ''0'' else CHR '' '') @ bf"

lemma putchw_count: "nat (putchw_count n bf) = nat (n - int (length bf))"
proof (induction bf arbitrary: n)
  case (Cons c bf)
  then show ?case by (cases "n > 0") auto
qed simp

lemma putchw_fill: "putchw_fill putf p n fc = foldl putf p (replicate n fc)"
  by (induction putf p n fc rule: putchw_fill.induct) auto

lemma putchw_pad: "putchw putf p n z bf = foldl putf p (pad n z bf)"
  by (simp add: putchw_def pad_def putchw_count putchw_fill)

lemma foldl_putcp [simp]: "foldl putcp p s = p @ s"
  by (induction s arbitrary: p) (auto simp: putcp_def)

function format_text :: "string \<Rightarrow> varg list \<Rightarrow> string option" where
  "format_text [] va = Some []"
| "format_text (ch # fmt) va =
     (if ch \<noteq> CHR ''%'' then map_option (Cons ch) (format_text fmt va)
      else case tfp_spec fmt of (lz, w, ch, fmt) \<Rightarrow>
        (if ch = NUL then Some []
         else case tfp_conv putcp [] lz w ch va of
             None \<Rightarrow> None
           | Some (s, va) \<Rightarrow> map_option ((@) s) (format_text fmt va)))"
  by pat_completeness auto
termination
  by (relation "measure (\<lambda>(fmt, va). length fmt)") (auto dest!: tfp_spec_length [OF sym])

lemma tfp_conv_text:
  "tfp_conv putf p lz w ch va =
     map_option (\<lambda>(s, va). (foldl putf p s, va)) (tfp_conv putcp [] lz w ch va)"
  unfolding tfp_conv_def putchw_pad
  by (auto simp: putcp_def split: list.split varg.split option.split Option.bind_split)


end
