(* ===== verification/StringLight.thy ===== *)
theory StringLight
  imports Printf
begin

text \<open>
  The string helpers of \<open>stringlight.c\<close>: bounded copies, the comparisons used for sorting and
  matching, hexadecimal parsing and the path helpers.  Destination buffers are lists of
  characters, returned updated.  Reads outside a string (undefined in C) give \<open>None\<close>.
\<close>

subsection \<open>Copies\<close>

text \<open>\<open>_strncpySpace\<close> writes exactly \<open>nCount\<close> characters and no terminator.\<close>

fun strncpySpace :: "string \<Rightarrow> nat \<Rightarrow> string" where
  "strncpySpace s 0 = []"
| "strncpySpace [] (Suc n) = CHR '' '' # strncpySpace [] n"
| "strncpySpace (c # s) (Suc n) = c # strncpySpace s n"

definition strlcpy :: "string \<Rightarrow> string \<Rightarrow> nat \<Rightarrow> string" where
  "strlcpy dst src bufsize =
     (let srclen = length src in
      if bufsize > 0 then
        (let srclen = (if srclen \<ge> bufsize then bufsize - 1 else srclen);
             dst = (if srclen > 0 then take srclen src @ drop srclen dst else dst)
         in dst[srclen := NUL])
      else dst)"

lemma strncpySpace_eq: "strncpySpace s n = take n s @ replicate (n - length s) CHR '' ''"
  by (induction s n rule: strncpySpace.induct) auto

lemma length_strncpySpace [simp]: "length (strncpySpace s n) = n"
  by (simp add: strncpySpace_eq)

subsection \<open>Comparisons\<close>

function strnicmp' :: "string \<Rightarrow> string \<Rightarrow> u32 \<Rightarrow> int" where
  "strnicmp' s1 s2 n =
     (let c1 = deref s1; c2 = deref s2; v = code_of (tolower c1) - code_of (tolower c2); n = n - 1
      in if v = 0 \<and> c1 \<noteq> NUL \<and> c2 \<noteq> NUL \<and> n > 0 then strnicmp' (advance s1) (advance s2) n else v)"
  by pat_completeness auto
termination
  by (relation "measure (\<lambda>(s1, s2, n). length s1)") (auto simp: deref_not_NUL_length)

function strncmp' :: "string \<Rightarrow> string \<Rightarrow> u32 \<Rightarrow> int" where
  "strncmp' s1 s2 n =
     (let c1 = deref s1; c2 = deref s2; v = code_of c1 - code_of c2; n = n - 1
      in if v = 0 \<and> c1 \<noteq> NUL \<and> c2 \<noteq> NUL \<and> n > 0 then strncmp' (advance s1) (advance s2) n else v)"
  by pat_completeness auto
termination
  by (relation "measure (\<lambda>(s1, s2, n). length s1)") (auto simp: deref_not_NUL_length)

declare strnicmp'.simps [simp del] strncmp'.simps [simp del]

text \<open>
  The comparison with embedded numbers compared by value.  Reading the number consumes at
  least its first digit, so the strings get shorter in every round.
\<close>

lemma strtoul_10_end:
  "isdigit (deref s) \<Longrightarrow> snd (strtoul s 10) = dropWhile isdigit s"
proof -
  assume d: "isdigit (deref s)"
  then obtain c t where s: "s = c # t" "isdigit c" by (cases s) (auto simp: isdigit_def)
  then have "\<not> isspace c" "c \<noteq> CHR ''-''" "c \<noteq> CHR ''+''" by (auto simp: isdigit_def isspace_def)
  with s have p: "strto_prefix s 10 = (False, 10, s)" by (simp add: strto_prefix_def)
  obtain acc any e where l: "strtoul_loop 10 s 0 0 = (acc, any, e)" by (cases "strtoul_loop 10 s 0 0")
  then have e: "e = dropWhile isdigit s" using strtoul_loop_end [of 10 s 0 0] by (simp del: strtoul_loop_end)
  have "any \<noteq> 0"
  proof -
    have dv: "digit_val c = Some (code_of c - 48)" "code_of c - 48 < 10"
      using s(2) by (auto simp: digit_val_def isdigit_def)
    obtain x y where xy: "strtoul_acc 10 (code_of c - 48) 0 0 = (x, y)"
      by (cases "strtoul_acc 10 (code_of c - 48) 0 0")
    then have "strtoul_loop 10 s 0 0 = strtoul_loop 10 t x y" using s dv by simp
    then show ?thesis using strtoul_loop_any [OF strtoul_acc_any [OF xy], of 10 t x] l
      by (metis fst_conv snd_conv)
  qed
  then show ?thesis using p l e by (simp add: strtoul_def)
qed

function stricmp_logical :: "string \<Rightarrow> string \<Rightarrow> int" where
  "stricmp_logical pS1 pS2 =
     (let c1 = deref pS1; c2 = deref pS2; d1 = isdigit c1; d2 = isdigit c2 in
      if c1 = NUL \<or> c2 = NUL then code_of c1 - code_of c2
      else if d1 \<or> d2 then
        (if d1 \<and> \<not> d2 then -1
         else if \<not> d1 \<and> d2 then 1
         else let v = uint (fst (strtoul pS1 10) AND 0x7fffffff) - uint (fst (strtoul pS2 10) AND 0x7fffffff)
              in if v = 0 then stricmp_logical (snd (strtoul pS1 10)) (snd (strtoul pS2 10)) else v)
      else let v = code_of (tolower c1) - code_of (tolower c2)
           in if v = 0 then stricmp_logical (advance pS1) (advance pS2) else v)"
  by pat_completeness auto

lemma strtoul_10_shorter: "isdigit (deref s) \<Longrightarrow> length (snd (strtoul s 10)) < length s"
proof -
  assume d: "isdigit (deref s)"
  then obtain c t where s: "s = c # t" "isdigit c" by (cases s) (auto simp: isdigit_def)
  have "length (dropWhile isdigit t) \<le> length t" by (rule length_dropWhile_le)
  with s d strtoul_10_end [OF d] show ?thesis by simp
qed

termination stricmp_logical
  by (relation "measure (\<lambda>(s1, s2). length s1)")
     (auto simp: strtoul_10_shorter deref_not_NUL_length)

declare stricmp_logical.simps [simp del]

text \<open>
  One round compares a key of the two strings (end of string below numbers below other
  characters) and goes on after it when the keys are equal.
\<close>

definition logical_key :: "string \<Rightarrow> int" where
  "logical_key s =
     (if deref s = NUL then 0
      else if isdigit (deref s) then 1 + uint (fst (strtoul s 10) AND 0x7fffffff)
      else 1 + 2 ^ 31 + code_of (tolower (deref s)))"

definition logical_rest :: "string \<Rightarrow> string" where
  "logical_rest s = (if isdigit (deref s) then snd (strtoul s 10) else advance s)"

lemma mask31_bound: "0 \<le> uint (x AND 0x7fffffff :: u32) \<and> uint (x AND 0x7fffffff) < 2 ^ 31"
proof -
  have "uint (x AND 0x7fffffff) = take_bit 31 (uint x)"
    by (simp add: uint_and take_bit_eq_mask mask_numeral)
  then show ?thesis using take_bit_int_less_exp [of 31 "uint x"] by simp
qed

lemma logical_key_cases:
  "deref s = NUL \<Longrightarrow> logical_key s = 0"
  "isdigit (deref s) \<Longrightarrow> 0 < logical_key s \<and> logical_key s \<le> 2 ^ 31"
  "deref s \<noteq> NUL \<Longrightarrow> \<not> isdigit (deref s) \<Longrightarrow> 2 ^ 31 < logical_key s"
proof -
  obtain m where m: "uint (fst (strtoul s 10) AND 0x7fffffff) = m" "0 \<le> m" "m < 2 ^ 31"
    using mask31_bound [of "fst (strtoul s 10)"] by blast
  then show "deref s = NUL \<Longrightarrow> logical_key s = 0"
    "isdigit (deref s) \<Longrightarrow> 0 < logical_key s \<and> logical_key s \<le> 2 ^ 31"
    "deref s \<noteq> NUL \<Longrightarrow> \<not> isdigit (deref s) \<Longrightarrow> 2 ^ 31 < logical_key s"
    using isdigit_not_NUL [of "deref s"] unfolding logical_key_def by auto
qed

lemma logical_key_0 [simp]: "logical_key s = 0 \<longleftrightarrow> deref s = NUL"
  using logical_key_cases [of s] by force

lemma stricmp_logical_step:
  "sgn (stricmp_logical a b) =
     (if logical_key a = logical_key b
      then (if deref a = NUL then 0 else sgn (stricmp_logical (logical_rest a) (logical_rest b)))
      else sgn (logical_key a - logical_key b))"
proof (cases "deref a = NUL \<or> deref b = NUL")
  case True
  have "deref a \<noteq> NUL \<Longrightarrow> 0 < logical_key a" "deref b \<noteq> NUL \<Longrightarrow> 0 < logical_key b"
    using logical_key_cases [of a] logical_key_cases [of b] by force+
  moreover have "deref a \<noteq> NUL \<Longrightarrow> 0 < code_of (deref a)" "deref b \<noteq> NUL \<Longrightarrow> 0 < code_of (deref b)"
    by (metis of_char_eq_0 of_nat_0_less_iff not_gr_zero)+
  ultimately show ?thesis using True
    by (auto simp: stricmp_logical.simps [of a b] logical_key_cases(1))
next
  case False
  consider "isdigit (deref a)" "isdigit (deref b)" | "isdigit (deref a)" "\<not> isdigit (deref b)"
    | "\<not> isdigit (deref a)" "isdigit (deref b)" | "\<not> isdigit (deref a)" "\<not> isdigit (deref b)"
    by blast
  then show ?thesis
  proof cases
    case 1
    with False show ?thesis
      by (simp add: stricmp_logical.simps [of a b] logical_key_def logical_rest_def Let_def)
  next
    case 2
    with False logical_key_cases(2) [of a] logical_key_cases(3) [of b] show ?thesis
      by (simp add: stricmp_logical.simps [of a b])
  next
    case 3
    with False logical_key_cases(3) [of a] logical_key_cases(2) [of b] show ?thesis
      by (simp add: stricmp_logical.simps [of a b])
  next
    case 4
    with False show ?thesis
      by (simp add: stricmp_logical.simps [of a b] logical_key_def logical_rest_def Let_def)
  qed
qed

lemma logical_rest_shorter: "deref s \<noteq> NUL \<Longrightarrow> length (logical_rest s) < length s"
  by (auto simp: logical_rest_def strtoul_10_shorter deref_not_NUL_length)

lemma stricmp_logical_keys:
  "logical_key a < logical_key b \<Longrightarrow> stricmp_logical a b < 0"
  "logical_key b < logical_key a \<Longrightarrow> 0 < stricmp_logical a b"
  "logical_key a = logical_key b \<Longrightarrow> deref a = NUL \<Longrightarrow> stricmp_logical a b = 0"
  "logical_key a = logical_key b \<Longrightarrow> deref a \<noteq> NUL \<Longrightarrow>
     sgn (stricmp_logical a b) = sgn (stricmp_logical (logical_rest a) (logical_rest b))"
  using stricmp_logical_step [of a b]
  by (auto simp: sgn_less sgn_greater sgn_0_0 sgn_1_neg sgn_1_pos split: if_splits)

lemma sgn_le_0 [simp]: "sgn x \<le> 0 \<longleftrightarrow> x \<le> (0 :: int)"
  by (simp add: sgn_if)

lemma stricmp_logical_swap: "sgn (stricmp_logical b a) = - sgn (stricmp_logical a b)"
proof (induction "length a" arbitrary: a b rule: less_induct)
  case less
  consider "logical_key a < logical_key b" | "logical_key b < logical_key a"
    | "logical_key a = logical_key b" "deref a = NUL" | "logical_key a = logical_key b" "deref a \<noteq> NUL"
    by linarith
  then show ?case
  proof cases
    case 3
    then have "deref b = NUL" using logical_key_0 [of a] logical_key_0 [of b] by simp
    with 3 show ?thesis by (simp add: stricmp_logical_keys(3))
  next
    case 4
    then have "deref b \<noteq> NUL" using logical_key_0 [of a] logical_key_0 [of b] by simp
    with 4 less.hyps [OF logical_rest_shorter [OF 4(2)], of "logical_rest b"] show ?thesis
      by (simp add: stricmp_logical_keys(4))
  qed (use stricmp_logical_keys(1,2) [of a b] stricmp_logical_keys(1,2) [of b a] in simp_all)
qed

lemma stricmp_logical_trans:
  "stricmp_logical a b \<le> 0 \<Longrightarrow> stricmp_logical b c \<le> 0 \<Longrightarrow> stricmp_logical a c \<le> 0"
proof (induction "length a" arbitrary: a b c rule: less_induct)
  case less
  have ab: "logical_key a \<le> logical_key b" and bc: "logical_key b \<le> logical_key c"
    using less.prems stricmp_logical_keys(2) [of b a] stricmp_logical_keys(2) [of c b]
    by (meson not_less)+
  consider "logical_key a < logical_key c" | "logical_key a = logical_key c" "deref a = NUL"
    | "logical_key a = logical_key c" "deref a \<noteq> NUL"
    using ab bc by linarith
  then show ?case
  proof cases
    case 3
    then have eq: "logical_key a = logical_key b" "logical_key b = logical_key c" "deref b \<noteq> NUL"
      using ab bc logical_key_0 [of a] logical_key_0 [of b] by auto
    have "stricmp_logical (logical_rest a) (logical_rest b) \<le> 0"
      "stricmp_logical (logical_rest b) (logical_rest c) \<le> 0"
      using less.prems stricmp_logical_keys(4) [OF eq(1) 3(2)] stricmp_logical_keys(4) [OF eq(2,3)]
      by (metis sgn_le_0)+
    from less.hyps [OF logical_rest_shorter [OF 3(2)] this]
    show ?thesis using stricmp_logical_keys(4) [OF 3] by (metis sgn_le_0)
  qed (use stricmp_logical_keys(1) [of a c] stricmp_logical_keys(3) [of a c] in simp_all)
qed

text \<open>
  C34. The comparison used to sort directory listings is a total preorder: swapping the arguments
  flips the sign of the result, and "not greater" is transitive, also across embedded numbers of
  any length (whose value saturates and is masked to 31 bits).
\<close>

theorem stricmp_logical_preorder:
  "sgn (stricmp_logical b a) = - sgn (stricmp_logical a b) \<and>
   (stricmp_logical a b \<le> 0 \<and> stricmp_logical b c \<le> 0 \<longrightarrow> stricmp_logical a c \<le> 0)"
  using stricmp_logical_swap stricmp_logical_trans by blast

theorem stricmp_logical_preorder_witness:
  "stricmp_logical ''a2'' ''A10'' \<le> 0 \<and> stricmp_logical ''A10'' ''b'' \<le> 0 \<and> stricmp_logical ''a2'' ''b'' \<le> 0"
proof -
  have "stricmp_logical ''a2'' ''A10'' \<le> 0" "stricmp_logical ''A10'' ''b'' \<le> 0" by code_simp+
  then show ?thesis using stricmp_logical_preorder [of "''A10''" "''a2''" "''b''"] by blast
qed

subsection \<open>Hexadecimal numbers\<close>

definition hex_digit :: "char \<Rightarrow> u32 option" where
  "hex_digit ch =
     (if code_of CHR ''0'' \<le> code_of ch \<and> code_of ch \<le> code_of CHR ''9''
      then Some (word_of_int (code_of ch - code_of CHR ''0''))
      else if code_of CHR ''A'' \<le> code_of ch \<and> code_of ch \<le> code_of CHR ''F''
      then Some (word_of_int (code_of ch - code_of CHR ''A'' + 10))
      else if code_of CHR ''a'' \<le> code_of ch \<and> code_of ch \<le> code_of CHR ''f''
      then Some (word_of_int (code_of ch - code_of CHR ''a'' + 10))
      else None)"

fun htoi_loop :: "string \<Rightarrow> u32 \<Rightarrow> u32" where
  "htoi_loop [] value = value"
| "htoi_loop (ch # s) value =
     (case hex_digit ch of None \<Rightarrow> value | Some d \<Rightarrow> htoi_loop s (push_bit 4 value + d))"

definition htoi :: "string \<Rightarrow> u32" where
  "htoi s =
     (let s = dropWhile (\<lambda>ch. ch = CHR '' '' \<or> ch = CHR 0x09) s;
          s = (if deref s = CHR ''0'' then advance s else s);
          s = (if deref s = CHR ''x'' \<or> deref s = CHR ''X'' then advance s else s)
      in htoi_loop s 0)"

subsection \<open>Paths\<close>

definition is_sep :: "char \<Rightarrow> bool" where
  "is_sep c \<longleftrightarrow> c = CHR ''/'' \<or> c = CHR 0x5C"

text \<open>
  \<open>FileDisplayName\<close> scans down from the end and copies what follows the index it stops at; at
  index 0 it stops whether or not a separator stands there.  The index is a 16-bit value.
\<close>

fun last_sep :: "string \<Rightarrow> nat \<Rightarrow> nat" where
  "last_sep path 0 = 0"
| "last_sep path (Suc i) = (if is_sep (deref (drop (Suc i) path)) then Suc i else last_sep path i)"

definition FileDisplayName :: "string \<Rightarrow> nat \<Rightarrow> string option" where
  "FileDisplayName path name_len =
     (let i = last_sep path (length path mod 2 ^ 16) in
      if name_len = 0 \<or> path = [] then None
      else Some ((strncpySpace (drop (i + 1) path) name_len)[name_len - 1 := NUL]))"

text \<open>
  \<open>GetExtension\<close> looks at the indices from the last one down to 1.  For the empty string the
  unsigned start index wraps around and reads outside the string.
\<close>

fun ext_scan :: "string \<Rightarrow> nat \<Rightarrow> string" where
  "ext_scan f 0 = []"
| "ext_scan f (Suc i) =
     (if f ! Suc i = CHR ''.'' then drop (Suc i + 1) f
      else if is_sep (f ! Suc i) then []
      else ext_scan f i)"

definition GetExtension :: "string \<Rightarrow> string option" where
  "GetExtension filename = (if filename = [] then None else Some (ext_scan filename (length filename - 1)))"

definition IsPathRooted :: "string option \<Rightarrow> bool" where
  "IsPathRooted path =
     (case path of
        None \<Rightarrow> False
      | Some path \<Rightarrow> if deref path = NUL then False else is_sep (deref path))"

definition pathcat :: "string \<Rightarrow> string \<Rightarrow> string option" where
  "pathcat path1 path2 =
     (if IsPathRooted (Some path2) then Some (path2 @ [NUL])
      else let fmt = (if path1 \<noteq> [] \<and> \<not> is_sep (last path1) then ''%s'' @ [CHR 0x5C] @ ''%s'' else ''%s%s'')
           in tfp_sprintf fmt [ArgStr path1, ArgStr path2])"

lemma ext_scan_no_dot:
  "(\<And>j. 0 < j \<Longrightarrow> j \<le> i \<Longrightarrow> f ! j \<noteq> CHR ''.'') \<Longrightarrow> ext_scan f i = []"
  by (induction i) auto

lemma ext_scan_skip:
  "i \<le> n \<Longrightarrow> (\<And>j. i < j \<Longrightarrow> j \<le> n \<Longrightarrow> f ! j \<noteq> CHR ''.'' \<and> \<not> is_sep (f ! j)) \<Longrightarrow>
     ext_scan f n = ext_scan f i"
proof (induction n)
  case (Suc n)
  show ?case
  proof (cases "i = Suc n")
    case False
    with Suc.prems have "i \<le> n" by simp
    with Suc.IH Suc.prems have "ext_scan f n = ext_scan f i" by simp
    with Suc.prems(2) [of "Suc n"] \<open>i \<le> n\<close> show ?thesis by simp
  qed simp
qed simp

lemma ext_scan_skip_tail:
  assumes "\<forall>c\<in>set e. c \<noteq> CHR ''.'' \<and> \<not> is_sep c" "a \<noteq> []"
  shows "ext_scan (a @ d # e) (length a + length e) = ext_scan (a @ d # e) (length a)"
proof (rule ext_scan_skip)
  fix j assume j: "length a < j" "j \<le> length a + length e"
  then have "(a @ d # e) ! j = e ! (j - length a - 1)" "j - length a - 1 < length e"
    by (auto simp: nth_append nth_Cons')
  then show "(a @ d # e) ! j \<noteq> CHR ''.'' \<and> \<not> is_sep ((a @ d # e) ! j)"
    using assms(1) nth_mem by metis
qed simp

text \<open>
  C35. The extension of a file name is what follows its last dot, when no path separator comes
  after that dot and something precedes it; otherwise it is empty.  In particular the dot of a
  hidden file such as \<open>.cfg\<close> starts no extension.
\<close>

theorem GetExtension_spec:
  assumes "\<forall>c\<in>set e. c \<noteq> CHR ''.'' \<and> \<not> is_sep c" and "a \<noteq> []"
  shows "GetExtension (a @ CHR ''.'' # e) = Some e
    \<and> (is_sep d \<longrightarrow> GetExtension (a @ d # e) = Some [])
    \<and> GetExtension (CHR ''.'' # e) = Some []"
proof -
  obtain k where k: "length a = Suc k" using assms(2) by (cases a) auto
  have *: "ext_scan (a @ d # e) (length (a @ d # e) - 1) = ext_scan (a @ d # e) (Suc k)" for d
    using ext_scan_skip_tail [OF assms, of d] k by simp
  have d: "is_sep d \<Longrightarrow> d \<noteq> CHR ''.''" for d by (auto simp: is_sep_def)
  have "GetExtension (a @ CHR ''.'' # e) = Some e"
    using * [of "CHR ''.''"] k by (simp add: GetExtension_def nth_append)
  moreover have "is_sep d \<Longrightarrow> GetExtension (a @ d # e) = Some []"
    using * [of d] k d by (auto simp add: GetExtension_def nth_append)
  moreover have "ext_scan (CHR ''.'' # e) (length e) = []"
    by (rule ext_scan_no_dot) (use assms(1) nth_mem in \<open>fastforce simp: nth_Cons'\<close>)
  ultimately show ?thesis by (simp add: GetExtension_def)
qed

theorem GetExtension_spec_witness:
  "GetExtension ''dir/disk.1.adf'' = Some ''adf''"
  using GetExtension_spec [of "''adf''" "''dir/disk.1''"] by (simp add: is_sep_def)

end
