(* ===== verification/World.thy ===== *)
theory World
  imports Prelude
begin

text \<open>
  The hardware the firmware talks to: the SPI bus with its chip selects (\<open>hardware/spi.c\<close>), the
  millisecond timer (\<open>hardware/timer.c\<close>) and the message log (the macros of \<open>messaging.h\<close>).

  What happens on the bus is a history of events, oldest first.  The slave's reply to a byte is
  any function of the history, so it can be any deterministic device; the timer reading is the
  milliseconds elapsed, also a function of the history, kept in 32 bits like \<open>HARDWARE_TICK\<close>.
  DMA bursts are the same bytes one by one.  The log keeps the messages that also go to the on-screen
  display (warnings, errors and infos); \<open>DEBUG\<close> messages of level 0 go to the serial line only and are
  not kept, those of higher levels are compiled out.
\<close>

datatype port = PortFileIO | PortOsd | PortCard | PortDirect

datatype event =
    Enable port
  | Disable port
  | Xfer u8
  | CardData "u8 list"
  | Clock

datatype msg_arg = MsgInt nat | MsgStr string

datatype msg = WARNING string "msg_arg list" | ERROR string "msg_arg list" | INFO string "msg_arg list"

record world =
  trace :: "event list"
  reply :: "event list \<Rightarrow> u8"
  elapsed :: "event list \<Rightarrow> nat"
  msgs :: "msg list"

definition emit :: "event \<Rightarrow> world \<Rightarrow> world" where
  "emit e w = w\<lparr>trace := trace w @ [e]\<rparr>"

definition say :: "msg \<Rightarrow> world \<Rightarrow> world" where
  "say m w = w\<lparr>msgs := msgs w @ [m]\<rparr>"

subsection \<open>spi.c\<close>

definition rSPI :: "u8 \<Rightarrow> world \<Rightarrow> u8 \<times> world" where
  "rSPI outByte w = (let w = emit (Xfer outByte) w in (reply w (trace w), w))"

definition SPI_EnableFileIO :: "world \<Rightarrow> world" where
  "SPI_EnableFileIO w = emit (Enable PortFileIO) w"

definition SPI_DisableFileIO :: "world \<Rightarrow> world" where
  "SPI_DisableFileIO w = emit (Disable PortFileIO) w"

definition SPI_EnableOsd :: "world \<Rightarrow> world" where
  "SPI_EnableOsd w = emit (Enable PortOsd) w"

definition SPI_DisableOsd :: "world \<Rightarrow> world" where
  "SPI_DisableOsd w = emit (Disable PortOsd) w"

definition SPI_EnableCard :: "world \<Rightarrow> world" where
  "SPI_EnableCard w = emit (Enable PortCard) w"

definition SPI_DisableCard :: "world \<Rightarrow> world" where
  "SPI_DisableCard w = snd (rSPI 0xFF (emit (Disable PortCard) w))"

definition SPI_EnableDirect :: "world \<Rightarrow> world" where
  "SPI_EnableDirect w = emit (Enable PortDirect) w"

definition SPI_DisableDirect :: "world \<Rightarrow> world" where
  "SPI_DisableDirect w = emit (Disable PortDirect) w"

text \<open>\<open>tx\<close> sends bytes and drops the replies: a run of \<open>rSPI\<close> statements.\<close>

fun tx :: "u8 list \<Rightarrow> world \<Rightarrow> world" where
  "tx [] w = w"
| "tx (b # bs) w = tx bs (snd (rSPI b w))"

definition SPI_WriteBufferSingle :: "u8 list \<Rightarrow> world \<Rightarrow> world" where
  "SPI_WriteBufferSingle pBuffer w = tx pBuffer w"

text \<open>
  \<open>SPI_ReadBufferSingle\<close> clocks the old buffer contents out and stores the replies over them.
\<close>

fun SPI_ReadBufferSingle :: "u8 list \<Rightarrow> world \<Rightarrow> u8 list \<times> world" where
  "SPI_ReadBufferSingle [] w = ([], w)"
| "SPI_ReadBufferSingle (b # bs) w =
     (let (r, w) = rSPI b w; (rs, w) = SPI_ReadBufferSingle bs w in (r # rs, w))"

text \<open>A command: select, send bytes, deselect.\<close>

definition fileio_cmd :: "u8 list \<Rightarrow> world \<Rightarrow> world" where
  "fileio_cmd bs w = SPI_DisableFileIO (tx bs (SPI_EnableFileIO w))"

text \<open>A query: select, send a command byte, read one byte, deselect.\<close>

definition fileio_query :: "u8 \<Rightarrow> world \<Rightarrow> u8 \<times> world" where
  "fileio_query b w =
     (let w = SPI_EnableFileIO w; (_, w) = rSPI b w; (stat, w) = rSPI 0 w in (stat, SPI_DisableFileIO w))"

subsection \<open>timer.c\<close>

definition GetSystemTime :: "world \<Rightarrow> u32 \<times> world" where
  "GetSystemTime w = (let w = emit Clock w in (of_nat (elapsed w (trace w)), w))"

definition Timer_Get :: "u32 \<Rightarrow> world \<Rightarrow> u32 \<times> world" where
  "Timer_Get time_ms w = (let (systimer, w) = GetSystemTime w in (systimer + time_ms, w))"

definition Timer_Check :: "u32 \<Rightarrow> world \<Rightarrow> bool \<times> world" where
  "Timer_Check offset w =
     (let (systimer, w) = GetSystemTime w in (offset - systimer > push_bit 31 1, w))"

text \<open>Waiting: the clock is read until the time is over.\<close>

partial_function (option) Timer_Wait_loop :: "u32 \<Rightarrow> world \<Rightarrow> world option" where
  "Timer_Wait_loop tick w =
     (let (expired, w) = Timer_Check tick w in if expired then Some w else Timer_Wait_loop tick w)"

definition Timer_Wait :: "u32 \<Rightarrow> world \<Rightarrow> world option" where
  "Timer_Wait time_ms w = (let (tick, w) = Timer_Get time_ms w in Timer_Wait_loop tick w)"

subsection \<open>What the operations leave alone\<close>

text \<open>
  \<open>extends w w' es\<close>: the device and the clock behind the bus are the same ones, and the history of
  the second world is that of the first followed by \<open>es\<close>.
\<close>

definition extends :: "world \<Rightarrow> world \<Rightarrow> event list \<Rightarrow> bool" where
  "extends w w' es \<longleftrightarrow> reply w' = reply w \<and> elapsed w' = elapsed w \<and> trace w' = trace w @ es"

lemma emit_sel [simp]:
  "trace (emit e w) = trace w @ [e]" "reply (emit e w) = reply w"
  "elapsed (emit e w) = elapsed w" "msgs (emit e w) = msgs w"
  by (simp_all add: emit_def)

lemma say_sel [simp]:
  "trace (say m w) = trace w" "reply (say m w) = reply w"
  "elapsed (say m w) = elapsed w" "msgs (say m w) = msgs w @ [m]"
  by (simp_all add: say_def)

lemma rSPI_sel [simp]:
  "trace (snd (rSPI b w)) = trace w @ [Xfer b]" "reply (snd (rSPI b w)) = reply w"
  "elapsed (snd (rSPI b w)) = elapsed w" "msgs (snd (rSPI b w)) = msgs w"
  "fst (rSPI b w) = reply w (trace w @ [Xfer b])"
  by (simp_all add: rSPI_def Let_def)

lemma tx_sel [simp]:
  "trace (tx bs w) = trace w @ map Xfer bs" "reply (tx bs w) = reply w"
  "elapsed (tx bs w) = elapsed w" "msgs (tx bs w) = msgs w"
  by (induction bs arbitrary: w) auto

lemma fileio_cmd_sel [simp]:
  "trace (fileio_cmd bs w) = trace w @ [Enable PortFileIO] @ map Xfer bs @ [Disable PortFileIO]"
  "reply (fileio_cmd bs w) = reply w" "elapsed (fileio_cmd bs w) = elapsed w"
  "msgs (fileio_cmd bs w) = msgs w"
  by (simp_all add: fileio_cmd_def SPI_EnableFileIO_def SPI_DisableFileIO_def)

lemma fileio_query_sel [simp]:
  "trace (snd (fileio_query b w)) =
     trace w @ [Enable PortFileIO, Xfer b, Xfer 0, Disable PortFileIO]"
  "reply (snd (fileio_query b w)) = reply w" "elapsed (snd (fileio_query b w)) = elapsed w"
  "msgs (snd (fileio_query b w)) = msgs w"
  "fst (fileio_query b w) = reply w (trace w @ [Enable PortFileIO, Xfer b, Xfer 0])"
  by (simp_all add: fileio_query_def SPI_EnableFileIO_def SPI_DisableFileIO_def Let_def
      case_prod_beta)

lemma Timer_Get_sel [simp]:
  "trace (snd (Timer_Get t w)) = trace w @ [Clock]" "reply (snd (Timer_Get t w)) = reply w"
  "elapsed (snd (Timer_Get t w)) = elapsed w" "msgs (snd (Timer_Get t w)) = msgs w"
  "fst (Timer_Get t w) = of_nat (elapsed w (trace w @ [Clock])) + t"
  by (simp_all add: Timer_Get_def GetSystemTime_def Let_def)

lemma Timer_Check_sel [simp]:
  "trace (snd (Timer_Check t w)) = trace w @ [Clock]" "reply (snd (Timer_Check t w)) = reply w"
  "elapsed (snd (Timer_Check t w)) = elapsed w" "msgs (snd (Timer_Check t w)) = msgs w"
  "fst (Timer_Check t w) \<longleftrightarrow> t - of_nat (elapsed w (trace w @ [Clock])) > push_bit 31 1"
  by (simp_all add: Timer_Check_def GetSystemTime_def Let_def)

lemma length_SPI_ReadBufferSingle [simp]: "length (fst (SPI_ReadBufferSingle bs w)) = length bs"
  by (induction bs arbitrary: w) (auto simp: Let_def case_prod_beta)

lemma SPI_ReadBufferSingle_sel [simp]:
  "trace (snd (SPI_ReadBufferSingle bs w)) = trace w @ map Xfer bs"
  "reply (snd (SPI_ReadBufferSingle bs w)) = reply w"
  "elapsed (snd (SPI_ReadBufferSingle bs w)) = elapsed w"
  "msgs (snd (SPI_ReadBufferSingle bs w)) = msgs w"
  by (induction bs arbitrary: w) (auto simp: Let_def case_prod_beta)

subsection \<open>What the FPGA receives\<close>

text \<open>
  The FPGA's view of a history: a byte after the select is a command, the following bytes are its
  data.  In direct mode the data comes from the card.  \<open>received cmd\<close> collects the data bytes of
  one command.
\<close>

datatype bus = Idle | Selected | Cmd u8 | Direct u8

fun bus_step :: "bus \<Rightarrow> event \<Rightarrow> bus" where
  "bus_step st (Enable PortFileIO) = Selected"
| "bus_step (Direct c) (Disable PortFileIO) = Direct c"
| "bus_step st (Disable PortFileIO) = Idle"
| "bus_step Selected (Xfer b) = Cmd b"
| "bus_step (Cmd c) (Enable PortDirect) = Direct c"
| "bus_step (Direct c) (Disable PortDirect) = Idle"
| "bus_step st e = st"

fun bus_data :: "u8 \<Rightarrow> bus \<Rightarrow> event \<Rightarrow> u8 list" where
  "bus_data cmd (Cmd c) (Xfer b) = (if c = cmd then [b] else [])"
| "bus_data cmd (Direct c) (CardData bs) = (if c = cmd then bs else [])"
| "bus_data cmd st e = []"

fun received :: "u8 \<Rightarrow> bus \<Rightarrow> event list \<Rightarrow> u8 list" where
  "received cmd st [] = []"
| "received cmd st (e # es) = bus_data cmd st e @ received cmd (bus_step st e) es"

abbreviation bus_run :: "bus \<Rightarrow> event list \<Rightarrow> bus" where
  "bus_run st es \<equiv> foldl bus_step st es"

lemma received_append: "received cmd st (es @ es') = received cmd st es @ received cmd (bus_run st es) es'"
  by (induction es arbitrary: st) auto

lemma bus_run_Xfers [simp]: "bus_run (Cmd c) (map Xfer bs) = Cmd c"
  by (induction bs) auto

lemma received_Xfers [simp]: "received cmd (Cmd c) (map Xfer bs) = (if c = cmd then bs else [])"
  by (induction bs) auto

text \<open>
  \<open>runs w w' es\<close>: from \<open>w\<close> the events \<open>es\<close>, complete transactions, led to \<open>w'\<close>.
\<close>

definition runs :: "world \<Rightarrow> world \<Rightarrow> event list \<Rightarrow> bool" where
  "runs w w' es \<longleftrightarrow> extends w w' es \<and> bus_run Idle es = Idle"

lemma runs_refl [simp]: "runs w w []"
  by (simp add: runs_def extends_def)

lemma runs_trans: "runs w w1 es \<Longrightarrow> runs w1 w2 es' \<Longrightarrow> runs w w2 (es @ es')"
  by (simp add: runs_def extends_def)

lemma received_runs:
  "runs w w1 es \<Longrightarrow> received cmd Idle (es @ es') = received cmd Idle es @ received cmd Idle es'"
  by (simp add: runs_def received_append)

lemma runs_fileio_cmd:
  "runs w (fileio_cmd (c # bs) w) ([Enable PortFileIO] @ map Xfer (c # bs) @ [Disable PortFileIO])"
  by (simp add: runs_def extends_def)

lemma received_fileio_cmd [simp]:
  "received cmd Idle ([Enable PortFileIO] @ map Xfer (c # bs) @ [Disable PortFileIO]) = (if c = cmd then bs else [])"
  by (simp add: received_append)

lemma runs_fileio_query:
  "runs w (snd (fileio_query b w)) [Enable PortFileIO, Xfer b, Xfer 0, Disable PortFileIO]"
  by (simp add: runs_def extends_def)

lemma runs_Timer_Get: "runs w (snd (Timer_Get t w)) [Clock]"
  by (simp add: runs_def extends_def)

lemma runs_Timer_Check: "runs w (snd (Timer_Check t w)) [Clock]"
  by (simp add: runs_def extends_def)

lemma runs_say: "runs w (say m w) []"
  by (simp add: runs_def extends_def)

text \<open>
  \<open>sends cmd w w' bs\<close>: between the two worlds the FPGA received exactly the data \<open>bs\<close> for command
  \<open>cmd\<close>, in complete transactions.
\<close>

definition sends :: "u8 \<Rightarrow> world \<Rightarrow> world \<Rightarrow> u8 list \<Rightarrow> bool" where
  "sends cmd w w' bs \<longleftrightarrow> (\<exists>es. runs w w' es \<and> received cmd Idle es = bs)"

lemma sends_refl [simp]: "sends cmd w w []"
  by (auto simp: sends_def intro!: exI [of _ "[]"])

lemma sends_trans: "sends cmd w w1 bs \<Longrightarrow> sends cmd w1 w2 bs' \<Longrightarrow> sends cmd w w2 (bs @ bs')"
  unfolding sends_def by (metis runs_trans received_runs)

lemma sends_trans0: "sends cmd w w1 [] \<Longrightarrow> sends cmd w1 w2 bs \<Longrightarrow> sends cmd w w2 bs"
  using sends_trans by fastforce

lemma sends_trans1: "sends cmd w w1 bs \<Longrightarrow> sends cmd w1 w2 [] \<Longrightarrow> sends cmd w w2 bs"
  using sends_trans by fastforce

lemma sends_fileio_cmd: "sends cmd w (fileio_cmd (c # bs) w) (if c = cmd then bs else [])"
  unfolding sends_def using runs_fileio_cmd received_fileio_cmd by blast

lemma sends_fileio_query: "sends cmd w (snd (fileio_query b w)) (if b = cmd then [0] else [])"
  unfolding sends_def by (rule exI, rule conjI, rule runs_fileio_query) simp

lemma sends_Timer_Get: "sends cmd w (snd (Timer_Get t w)) []"
  unfolding sends_def by (rule exI, rule conjI, rule runs_Timer_Get) simp

lemma sends_Timer_Check: "sends cmd w (snd (Timer_Check t w)) []"
  unfolding sends_def by (rule exI, rule conjI, rule runs_Timer_Check) simp

lemma sends_say: "sends cmd w (say m w) []"
  unfolding sends_def by (rule exI, rule conjI, rule runs_say) simp

lemma sends_say_iff [simp]: "sends cmd w (say m w1) bs = sends cmd w w1 bs" "sends cmd (say m w) w1 bs = sends cmd w w1 bs"
  by (simp_all add: sends_def runs_def extends_def)

text \<open>
  The other direction: the replies to the data bytes of a command, from history \<open>h\<close> on.
  \<open>gets cmd w w' bs\<close>: between the two worlds the firmware clocked in exactly \<open>bs\<close> under \<open>cmd\<close>.
\<close>

fun bus_reply :: "(event list \<Rightarrow> u8) \<Rightarrow> u8 \<Rightarrow> bus \<Rightarrow> event list \<Rightarrow> event \<Rightarrow> u8 list" where
  "bus_reply rep cmd (Cmd c) h (Xfer b) = (if c = cmd then [rep (h @ [Xfer b])] else [])"
| "bus_reply rep cmd st h e = []"

fun fetched :: "(event list \<Rightarrow> u8) \<Rightarrow> u8 \<Rightarrow> bus \<Rightarrow> event list \<Rightarrow> event list \<Rightarrow> u8 list" where
  "fetched rep cmd st h [] = []"
| "fetched rep cmd st h (e # es) = bus_reply rep cmd st h e @ fetched rep cmd (bus_step st e) (h @ [e]) es"

definition gets :: "u8 \<Rightarrow> world \<Rightarrow> world \<Rightarrow> u8 list \<Rightarrow> bool" where
  "gets cmd w w' bs \<longleftrightarrow> (\<exists>es. runs w w' es \<and> fetched (reply w) cmd Idle (trace w) es = bs)"

lemma fetched_append:
  "fetched rep cmd st h (es @ es') = fetched rep cmd st h es @ fetched rep cmd (bus_run st es) (h @ es) es'"
  by (induction es arbitrary: st h) auto

lemma gets_trans: "gets cmd w w1 bs \<Longrightarrow> gets cmd w1 w2 bs' \<Longrightarrow> gets cmd w w2 (bs @ bs')"
  unfolding gets_def
proof (elim exE conjE)
  fix es es' assume "runs w w1 es" "fetched (reply w) cmd Idle (trace w) es = bs"
    "runs w1 w2 es'" "fetched (reply w1) cmd Idle (trace w1) es' = bs'"
  then show "\<exists>es. runs w w2 es \<and> fetched (reply w) cmd Idle (trace w) es = bs @ bs'"
    by (intro exI [of _ "es @ es'"] conjI runs_trans) (auto simp: runs_def extends_def fetched_append)
qed

lemma gets_refl [simp]: "gets cmd w w []"
  by (auto simp: gets_def intro!: exI [of _ "[]"])

lemma gets_trans0: "gets cmd w w1 [] \<Longrightarrow> gets cmd w1 w2 bs \<Longrightarrow> gets cmd w w2 bs"
  using gets_trans by fastforce

lemma gets_trans1: "gets cmd w w1 bs \<Longrightarrow> gets cmd w1 w2 [] \<Longrightarrow> gets cmd w w2 bs"
  using gets_trans by fastforce

lemma fetched_length: "length (fetched rep cmd st h es) \<le> length (received cmd st es)"
proof (induction es arbitrary: st h)
  case (Cons e es)
  have "length (bus_reply rep cmd st h e) \<le> length (bus_data cmd st e)"
    by (cases "(rep, cmd, st, h, e)" rule: bus_reply.cases) auto
  with Cons [of "bus_step st e" "h @ [e]"] show ?case by simp
qed simp

text \<open>When nothing was sent under a command, nothing was clocked in under it.\<close>

lemma sends_gets: "sends cmd w w' [] \<Longrightarrow> gets cmd w w' []"
  unfolding sends_def gets_def using fetched_length by (metis le_zero_eq length_0_conv list.size(3))

lemma fetched_Xfers [simp]:
  "fetched rep cmd (Cmd c) h (map Xfer bs) =
     (if c = cmd then map (\<lambda>i. rep (h @ map Xfer (take (Suc i) bs))) [0..<length bs] else [])"
proof (induction bs arbitrary: h)
  case (Cons b bs)
  have "[0..<length (b # bs)] = 0 # map Suc [0..<length bs]"
    by (simp add: map_Suc_upt upt_conv_Cons del: upt_Suc)
  with Cons show ?case by simp
qed simp

lemma sends_env: "sends cmd w w' bs \<Longrightarrow> elapsed w' = elapsed w \<and> reply w' = reply w"
  by (auto simp: sends_def runs_def extends_def)

subsection \<open>Deadlines\<close>

text \<open>
  A clock that ticks: every reading is later than all history before it, and less than half the
  counter's range later than the previous one when no other reading lies between them.
\<close>

definition ticking :: "(event list \<Rightarrow> nat) \<Rightarrow> bool" where
  "ticking el \<longleftrightarrow>
     (\<forall>h es. Clock \<notin> set es \<longrightarrow>
        el (h @ [Clock]) < el (h @ Clock # es @ [Clock]) \<and>
        el (h @ Clock # es @ [Clock]) < el (h @ [Clock]) + 2 ^ 30)"

text \<open>A deadline at most \<open>2 ^ 30\<close> ahead has expired exactly when the clock is past it.\<close>

lemma Timer_Check_deadline:
  assumes "w1 = elapsed w (trace w @ [Clock])" "w1 < d + 2 ^ 31" "d \<le> w1 + 2 ^ 30"
  shows "fst (Timer_Check (of_nat d) w) \<longleftrightarrow> d < w1"
proof -
  have "unat (of_nat d - of_nat w1 :: u32) = (if d < w1 then 2 ^ 32 - (w1 - d) else d - w1)"
  proof (cases "d < w1")
    case True
    have "of_nat (2 ^ 32 - (w1 - d)) = (of_nat (2 ^ 32) - of_nat (w1 - d) :: u32)"
      using assms by (intro of_nat_diff) simp
    also have "\<dots> = of_nat d - of_nat w1" using True by (simp add: of_nat_diff)
    finally have eq: "(of_nat d - of_nat w1 :: u32) = of_nat (2 ^ 32 - (w1 - d))" by simp
    show ?thesis using True assms unfolding eq by (simp add: unat_of_nat take_bit_eq_mod del: of_nat_diff)
  next
    case False
    then have eq: "(of_nat d - of_nat w1 :: u32) = of_nat (d - w1)" by (simp add: of_nat_diff)
    show ?thesis using False assms unfolding eq by (simp add: unat_of_nat take_bit_eq_mod del: of_nat_diff)
  qed
  moreover have "unat (push_bit 31 1 :: u32) = 2 ^ 31" by simp
  ultimately show ?thesis using assms by (auto simp: word_less_nat_alt)
qed

lemma tickingD:
  "ticking el \<Longrightarrow> Clock \<notin> set es \<Longrightarrow>
     el (h @ [Clock]) < el (h @ Clock # es @ [Clock]) \<and>
     el (h @ Clock # es @ [Clock]) \<le> el (h @ [Clock]) + 2 ^ 30"
  unfolding ticking_def by (blast intro: less_imp_le)

lemma ticking_step:
  "ticking el \<Longrightarrow> Clock \<notin> set es \<Longrightarrow> el (h @ Clock # es @ [Clock]) < el (h @ [Clock]) + 2 ^ 30"
  unfolding ticking_def by blast

subsection \<open>Waiting for a status\<close>

text \<open>
  The polling loop of the memory channel and of the file channels: \<open>c\<close> is the status command,
  \<open>limit\<close> the time limit in milliseconds.  It polls until the masked status has the wanted value
  or the time is up, so it is a partial function.
\<close>

partial_function (option) WaitStat_loop ::
  "u8 \<Rightarrow> string \<Rightarrow> u8 \<Rightarrow> u8 \<Rightarrow> u32 \<Rightarrow> world \<Rightarrow> (u8 \<times> world) option" where
  "WaitStat_loop c wmsg msk wanted timeout w =
     (let (stat, w) = fileio_query c w;
          (expired, w) = Timer_Check timeout w
      in if expired then Some (1, say (WARNING wmsg []) w)
         else if stat AND msk \<noteq> wanted then WaitStat_loop c wmsg msk wanted timeout w
         else Some (0, w))"

definition WaitStat :: "u8 \<Rightarrow> string \<Rightarrow> u32 \<Rightarrow> u8 \<Rightarrow> u8 \<Rightarrow> world \<Rightarrow> (u8 \<times> world) option" where
  "WaitStat c wmsg limit msk wanted w =
     (let (timeout, w) = Timer_Get limit w in WaitStat_loop c wmsg msk wanted timeout w)"

lemma WaitStat_loop_sends:
  "WaitStat_loop c wmsg msk wanted timeout w = Some y \<Longrightarrow>
     (fst y = 0 \<or> fst y = 1) \<and> (cmd \<noteq> c \<longrightarrow> sends cmd w (snd y) [])"
proof (induction c wmsg msk wanted timeout w y
    rule: WaitStat_loop.raw_induct [rotated, consumes 1, case_names loop])
  case (loop wait c wmsg m wa t w y)
  let ?w1 = "snd (fileio_query c w)"
  let ?w2 = "snd (Timer_Check t ?w1)"
  have s: "sends cmd w ?w2 []" if "cmd \<noteq> c"
    using that sends_trans0 [OF _ sends_Timer_Check] sends_fileio_query [of cmd w c]
    by auto
  show ?case
    using loop(2) loop(1) sends_trans0 [OF s sends_say] sends_trans0 [OF s] s
    by (auto simp: Let_def case_prod_beta simp del: fileio_query_sel Timer_Check_sel split: if_splits)
qed

lemma WaitStat_sends:
  assumes "WaitStat c wmsg limit msk wanted w = Some (r, w')"
  shows "r = 0 \<or> r = 1" and "cmd \<noteq> c \<Longrightarrow> sends cmd w w' []"
proof -
  have l: "WaitStat_loop c wmsg msk wanted (fst (Timer_Get limit w)) (snd (Timer_Get limit w)) = Some (r, w')"
    using assms by (simp add: WaitStat_def case_prod_beta)
  show "r = 0 \<or> r = 1" using WaitStat_loop_sends [OF l] by simp
  show "cmd \<noteq> c \<Longrightarrow> sends cmd w w' []"
    using WaitStat_loop_sends [OF l, of cmd] sends_trans0 [OF sends_Timer_Get [of cmd w limit], of w' "[]"]
    by simp
qed

text \<open>The loop ends: every round reads the clock, so the deadline is reached.\<close>

lemma WaitStat_loop_returns:
  assumes "ticking (elapsed w)"
    and "trace w = h @ [Clock]" "elapsed w (h @ [Clock]) \<le> d" "d \<le> elapsed w (h @ [Clock]) + 2 ^ 30"
  shows "\<exists>y. WaitStat_loop c wmsg msk wanted (of_nat d) w = Some y"
  using assms
proof (induction "d - elapsed w (h @ [Clock])" arbitrary: w h rule: less_induct)
  case less
  let ?w1 = "snd (fileio_query c w)"
  let ?w2 = "snd (Timer_Check (of_nat d) ?w1)"
  let ?es = "[Enable PortFileIO, Xfer c, Xfer 0, Disable PortFileIO]"
  define h' where "h' = h @ Clock # ?es"
  define t where "t = elapsed w (h' @ [Clock])"
  have tr: "trace ?w1 = h'" using less.prems(2) by (simp add: h'_def)
  have "Clock \<notin> set ?es" by simp
  then have tick: "elapsed w (h @ [Clock]) < t" "t \<le> elapsed w (h @ [Clock]) + 2 ^ 30"
    using tickingD [OF less.prems(1), of ?es h] unfolding t_def h'_def by simp_all
  have exp: "fst (Timer_Check (of_nat d) ?w1) \<longleftrightarrow> d < t"
    using tick less.prems tr by (intro Timer_Check_deadline) (auto simp: t_def)
  have unfold: "WaitStat_loop c wmsg msk wanted (of_nat d) w =
      (if d < t then Some (1, say (WARNING wmsg []) ?w2)
       else if fst (fileio_query c w) AND msk \<noteq> wanted then WaitStat_loop c wmsg msk wanted (of_nat d) ?w2
       else Some (0, ?w2))"
    by (subst WaitStat_loop.simps) (simp add: case_prod_beta exp del: fileio_query_sel Timer_Check_sel)
  show ?case
  proof (cases "d < t")
    case False
    have "\<exists>y. WaitStat_loop c wmsg msk wanted (of_nat d) ?w2 = Some y"
      using False tick less.prems tr by (intro less.hyps [of ?w2 h']) (auto simp: t_def)
    with False show ?thesis unfolding unfold by auto
  qed (simp add: unfold)
qed

lemma Timer_Get_of_nat:
  "fst (Timer_Get limit w) = of_nat (elapsed w (trace w @ [Clock]) + unat limit)"
  by simp

lemma WaitStat_returns:
  assumes "ticking (elapsed w)" "unat limit \<le> 2 ^ 30"
  shows "\<exists>r w'. WaitStat c wmsg limit msk wanted w = Some (r, w')"
proof -
  let ?d = "elapsed w (trace w @ [Clock]) + unat limit"
  have "\<exists>y. WaitStat_loop c wmsg msk wanted (of_nat ?d) (snd (Timer_Get limit w)) = Some y"
    by (rule WaitStat_loop_returns [where h = "trace w"]) (use assms in simp_all)
  then show ?thesis unfolding WaitStat_def case_prod_beta Timer_Get_of_nat by auto
qed

text \<open>When every poll shows the wanted status and the clock is not too fast, the wait succeeds.\<close>

lemma WaitStat_ready:
  assumes "ticking (elapsed w)"
    and "\<And>h. reply w (h @ [Enable PortFileIO, Xfer c, Xfer 0]) AND msk = wanted"
    and "\<And>h es. Clock \<notin> set es \<Longrightarrow>
           elapsed w (h @ Clock # es @ [Clock]) \<le> elapsed w (h @ [Clock]) + unat limit"
    and "unat limit \<le> 2 ^ 30"
  shows "\<exists>w'. WaitStat c wmsg limit msk wanted w = Some (0, w')"
proof -
  let ?w0 = "snd (Timer_Get limit w)"
  let ?d = "elapsed w (trace w @ [Clock]) + unat limit"
  let ?es = "[Enable PortFileIO, Xfer c, Xfer 0, Disable PortFileIO]"
  have "Clock \<notin> set ?es" by simp
  then have "elapsed w (trace w @ Clock # ?es @ [Clock]) \<le> ?d"
    "elapsed w (trace w @ [Clock]) < elapsed w (trace w @ Clock # ?es @ [Clock])"
    using assms(3) tickingD [OF assms(1), of ?es "trace w"] by blast+
  then have ne: "\<not> fst (Timer_Check (of_nat ?d) (snd (fileio_query c ?w0)))"
    using assms(4) by (subst Timer_Check_deadline) auto
  have "reply w ((trace w @ [Clock]) @ [Enable PortFileIO, Xfer c, Xfer 0]) AND msk = wanted"
    by (rule assms(2))
  then have "fst (fileio_query c ?w0) AND msk = wanted" by simp
  then have "WaitStat_loop c wmsg msk wanted (of_nat ?d) ?w0 =
      Some (0, snd (Timer_Check (of_nat ?d) (snd (fileio_query c ?w0))))"
    using ne by (subst WaitStat_loop.simps) (simp add: case_prod_beta del: fileio_query_sel Timer_Check_sel)
  then show ?thesis unfolding WaitStat_def case_prod_beta Timer_Get_of_nat by auto
qed

end
