(* ===== verification/Files.thy ===== *)
theory Files
  imports World "HOL-Library.Monad_Syntax"
begin

text \<open>
  Open files as the firmware sees them: the functions of \<open>fatfs/wrapper.c\<close> over the documented
  contract of the FatFs calls they make (\<open>f_read\<close>, \<open>f_write\<close>, \<open>f_lseek\<close>, \<open>f_eof\<close>, \<open>f_size\<close>,
  \<open>f_tell\<close>).  A file is its contents with a read/write pointer.  What can go wrong is part of
  the value: sectors that cannot be read or written (\<open>bad\<close>), the room on the volume
  (\<open>space\<close>), a missing write permission, and the sticky error that FatFs keeps after a failure.
  Sectors which the volume adds when a file is extended hold arbitrary bytes (\<open>junk\<close>).  The clusters
  of the file (\<open>csize\<close> bytes each, the numbers in \<open>chain\<close>, the current one in \<open>clust\<close>) matter only to the
  hard disk driver, which moves the file pointer by itself.
\<close>

datatype FRESULT =
    FR_OK | FR_DISK_ERR | FR_INT_ERR | FR_NOT_READY | FR_NO_FILE | FR_NO_PATH | FR_INVALID_NAME
  | FR_DENIED | FR_EXIST | FR_INVALID_OBJECT | FR_WRITE_PROTECTED | FR_INVALID_DRIVE
  | FR_NOT_ENABLED | FR_NO_FILESYSTEM | FR_MKFS_ABORTED | FR_TIMEOUT | FR_LOCKED
  | FR_NOT_ENOUGH_CORE | FR_TOO_MANY_OPEN_FILES | FR_INVALID_PARAMETER

definition mapError :: "FRESULT \<Rightarrow> u32" where
  "mapError err =
     (case err of
        FR_OK \<Rightarrow> 0x00000000
      | FR_DISK_ERR \<Rightarrow> 0x80000004
      | FR_INT_ERR \<Rightarrow> 0x0000000b
      | FR_NOT_READY \<Rightarrow> 0x0000000e
      | FR_NO_FILE \<Rightarrow> 0x0000001f
      | FR_NO_PATH \<Rightarrow> 0x0000001f
      | FR_INVALID_NAME \<Rightarrow> 0x00000022
      | FR_DENIED \<Rightarrow> 0x00000021
      | FR_EXIST \<Rightarrow> 0x00000026
      | FR_INVALID_OBJECT \<Rightarrow> 0x0000002a
      | FR_WRITE_PROTECTED \<Rightarrow> 0x00000021
      | FR_INVALID_DRIVE \<Rightarrow> 0x00000010
      | FR_NOT_ENABLED \<Rightarrow> 0x00000016
      | FR_NO_FILESYSTEM \<Rightarrow> 0x00000011
      | FR_MKFS_ABORTED \<Rightarrow> 0x0000000f
      | FR_TIMEOUT \<Rightarrow> 0x0000000a
      | FR_LOCKED \<Rightarrow> 0x0000001e
      | FR_NOT_ENOUGH_CORE \<Rightarrow> 0x00000003
      | FR_TOO_MANY_OPEN_FILES \<Rightarrow> 0x00000029
      | FR_INVALID_PARAMETER \<Rightarrow> 0x00000002)"

record FIL =
  content :: "u8 list"
  fptr :: nat
  fil_write :: bool
  fil_err :: FRESULT
  bad :: "nat \<Rightarrow> bool"
  space :: nat
  junk :: "nat \<Rightarrow> u8"
  csize :: nat
  chain :: "nat \<Rightarrow> u32"
  clust :: u32

subsection \<open>The contract of the FatFs calls\<close>

definition f_size :: "FIL \<Rightarrow> nat" where
  "f_size fp = length (content fp)"

definition f_tell :: "FIL \<Rightarrow> nat" where
  "f_tell fp = fptr fp"

definition f_eof :: "FIL \<Rightarrow> bool" where
  "f_eof fp \<longleftrightarrow> fptr fp = f_size fp"

text \<open>The bytes that can be transferred from an offset before a bad sector stops it.\<close>

definition good_run :: "(nat \<Rightarrow> bool) \<Rightarrow> nat \<Rightarrow> nat \<Rightarrow> nat" where
  "good_run bd pos n = length (takeWhile (\<lambda>ofs. \<not> bd (ofs div 512)) [pos..<pos + n])"

definition f_read :: "FIL \<Rightarrow> nat \<Rightarrow> FRESULT \<times> u8 list \<times> FIL" where
  "f_read fp btr =
     (if fil_err fp \<noteq> FR_OK then (fil_err fp, [], fp)
      else let n = min btr (f_size fp - fptr fp);
               k = good_run (bad fp) (fptr fp) n;
               dat = take k (drop (fptr fp) (content fp));
               fp = fp\<lparr>fptr := fptr fp + k\<rparr>
           in if k = n then (FR_OK, dat, fp)
              else (FR_DISK_ERR, dat, fp\<lparr>fil_err := FR_DISK_ERR\<rparr>))"

definition f_write :: "FIL \<Rightarrow> u8 list \<Rightarrow> FRESULT \<times> nat \<times> FIL" where
  "f_write fp buff =
     (if fil_err fp \<noteq> FR_OK then (fil_err fp, 0, fp)
      else if \<not> fil_write fp then (FR_DENIED, 0, fp)
      else let n = min (length buff) (max (f_size fp) (space fp) - fptr fp);
               k = good_run (bad fp) (fptr fp) n;
               fp = fp\<lparr>content := take (fptr fp) (content fp) @ take k buff
                                  @ drop (fptr fp + k) (content fp),
                       fptr := fptr fp + k\<rparr>
           in if k = n then (FR_OK, k, fp)
              else (FR_DISK_ERR, k, fp\<lparr>fil_err := FR_DISK_ERR\<rparr>))"

definition f_lseek :: "FIL \<Rightarrow> nat \<Rightarrow> FRESULT \<times> FIL" where
  "f_lseek fp ofs =
     (if fil_err fp \<noteq> FR_OK then (fil_err fp, fp)
      else let new = (if f_size fp < ofs
                      then (if fil_write fp then min ofs (max (f_size fp) (space fp)) else f_size fp)
                      else ofs);
               fp = fp\<lparr>content := content fp @ map (junk fp) [f_size fp..<new], fptr := new\<rparr>
           in if new mod 512 \<noteq> 0 \<and> bad fp (new div 512)
              then (FR_DISK_ERR, fp\<lparr>fil_err := FR_DISK_ERR\<rparr>) else (FR_OK, fp))"

subsection \<open>wrapper.c\<close>

text \<open>
  \<open>f_open\<close> is the volume: a function from a path and the FatFs mode bits to an error or an open
  file.  It is a parameter of the model.
\<close>

type_synonym volume = "string \<Rightarrow> u8 \<Rightarrow> FRESULT + FIL"

definition FF_Open :: "volume \<Rightarrow> string \<Rightarrow> u8 \<Rightarrow> FIL option \<times> u32" where
  "FF_Open f_open path Mode =
     (let mode = (if Mode AND 0x01 \<noteq> 0 then 0x01 else 0) OR (if Mode AND 0x02 \<noteq> 0 then 0x02 else 0)
                 OR (if Mode AND 0x04 \<noteq> 0 then 0x30 else 0) OR (if Mode AND 0x08 \<noteq> 0 then 0x08 else 0)
                 OR (if Mode AND 0x10 \<noteq> 0 then 0x08 else 0)
      in case f_open path mode of
           Inl result \<Rightarrow> (None, 0x83020000 OR mapError result)
         | Inr fp \<Rightarrow> (Some fp, 0x83020000 OR mapError FR_OK))"

definition FF_Close :: "FIL option \<Rightarrow> u32" where
  "FF_Close pFile = mapError (case pFile of None \<Rightarrow> FR_INVALID_OBJECT | Some _ \<Rightarrow> FR_OK)"

text \<open>When the read fails, \<open>FF_GetC\<close> returns an uninitialised variable: \<open>None\<close>.\<close>

definition FF_GetC :: "FIL \<Rightarrow> (int \<times> FIL) option" where
  "FF_GetC pFile =
     (if f_eof pFile then Some (-1, pFile)
      else case f_read pFile 1 of
          (_, [c], pFile) \<Rightarrow> Some (uint c, pFile)
        | _ \<Rightarrow> None)"

text \<open>Byte counts are the product of the two size arguments in 32-bit arithmetic.\<close>

definition FF_Read :: "FIL \<Rightarrow> u32 \<Rightarrow> u32 \<Rightarrow> u8 list \<times> FIL" where
  "FF_Read pFile ElementSize Count = snd (f_read pFile (unat (ElementSize * Count)))"

definition FF_Write :: "FIL \<Rightarrow> u32 \<Rightarrow> u32 \<Rightarrow> u8 list \<Rightarrow> nat \<times> FIL" where
  "FF_Write pFile ElementSize Count buffer = snd (f_write pFile (take (unat (ElementSize * Count)) buffer))"

definition FF_isEOF :: "FIL \<Rightarrow> bool" where
  "FF_isEOF pFile = f_eof pFile"

definition FF_BytesLeft :: "FIL \<Rightarrow> u32" where
  "FF_BytesLeft pFile = of_nat (f_size pFile) - of_nat (f_tell pFile)"

datatype seek_origin = FF_SEEK_SET | FF_SEEK_CUR | FF_SEEK_END

definition FF_Seek :: "FIL \<Rightarrow> int \<Rightarrow> seek_origin \<Rightarrow> u32 \<times> FIL" where
  "FF_Seek pFile Offset Origin =
     (let Offset = (case Origin of
                      FF_SEEK_CUR \<Rightarrow> Offset + int (f_tell pFile)
                    | FF_SEEK_END \<Rightarrow> Offset + int (f_size pFile)
                    | FF_SEEK_SET \<Rightarrow> Offset)
      in if Offset = int (f_tell pFile) then (mapError FR_OK, pFile)
         else let (res, pFile) = f_lseek pFile (nat (Offset mod 2 ^ 64)) in (mapError res, pFile))"

definition FF_Tell :: "FIL \<Rightarrow> u64" where
  "FF_Tell pFile = of_nat (f_tell pFile)"

definition FF_Size :: "FIL \<Rightarrow> u64" where
  "FF_Size pFile = of_nat (f_size pFile)"

text \<open>
  \<open>FF_ReadDirect\<close> reads with a null buffer: the card streams whole sectors straight to the FPGA.
  A partial sector would be copied to address 0, which is undefined; the assertions of the C code
  are meant to exclude it.
\<close>

definition FF_ReadDirect :: "FIL \<Rightarrow> u32 \<Rightarrow> u32 \<Rightarrow> world \<Rightarrow> (nat \<times> FIL \<times> world) option" where
  "FF_ReadDirect pFile ElementSize Count w =
     (let n = min (unat (ElementSize * Count)) (f_size pFile - fptr pFile) in
      if n = 0 \<or> fptr pFile mod 512 = 0 \<and> n mod 512 = 0
      then let (dat, pFile) = FF_Read pFile ElementSize Count
           in Some (length dat, pFile, emit (CardData dat) w)
      else None)"

subsection \<open>Facts\<close>

definition file_ok :: "FIL \<Rightarrow> bool" where
  "file_ok fp \<longleftrightarrow> fil_err fp = FR_OK \<and> fptr fp \<le> f_size fp"

text \<open>A medium with no bad sector and no error so far.\<close>

definition healthy :: "FIL \<Rightarrow> bool" where
  "healthy fp \<longleftrightarrow> file_ok fp \<and> (\<forall>s. \<not> bad fp s)"

lemma good_run_le: "good_run bd pos n \<le> n"
  by (metis good_run_def add_diff_cancel_left' length_takeWhile_le length_upt)

lemma good_run_min: "good_run bd pos (min n m) \<le> n"
  using good_run_le [of bd pos "min n m"] by simp

lemma good_run_all: "(\<And>s. \<not> bd s) \<Longrightarrow> good_run bd pos n = n"
  by (simp add: good_run_def takeWhile_eq_all_conv [THEN iffD2])

lemma f_read_healthy:
  "healthy fp \<Longrightarrow>
     f_read fp n = (FR_OK, take n (drop (fptr fp) (content fp)),
                    fp\<lparr>fptr := min (f_size fp) (fptr fp + n)\<rparr>)"
  by (auto simp: f_read_def healthy_def file_ok_def good_run_all Let_def f_size_def min_def)

lemma FF_Read_healthy:
  "healthy fp \<Longrightarrow>
     FF_Read fp es cnt = (take (unat (es * cnt)) (drop (fptr fp) (content fp)),
                          fp\<lparr>fptr := min (f_size fp) (fptr fp + unat (es * cnt))\<rparr>)"
  by (simp add: FF_Read_def f_read_healthy)

lemma healthy_fptr [simp]: "healthy fp \<Longrightarrow> p \<le> f_size fp \<Longrightarrow> healthy (fp\<lparr>fptr := p\<rparr>)"
  by (simp add: healthy_def file_ok_def f_size_def)

lemma f_size_fptr [simp]: "f_size (fp\<lparr>fptr := p\<rparr>) = f_size fp"
  by (simp add: f_size_def)

lemma FF_Seek_healthy:
  assumes "healthy fp" "0 \<le> ofs" "nat ofs \<le> f_size fp" "f_size fp < 2 ^ 64"
  shows "FF_Seek fp ofs FF_SEEK_SET = (0, fp\<lparr>fptr := nat ofs\<rparr>)"
proof (cases "ofs = int (fptr fp)")
  case True
  then show ?thesis by (simp add: FF_Seek_def f_tell_def mapError_def)
next
  case False
  have "ofs mod 2 ^ 64 = ofs" using assms by simp
  with False assms show ?thesis
    by (auto simp: FF_Seek_def f_tell_def f_lseek_def healthy_def file_ok_def mapError_def Let_def)
qed

lemma f_write_healthy:
  "healthy fp \<Longrightarrow> fil_write fp \<Longrightarrow> fptr fp + length buff \<le> max (f_size fp) (space fp) \<Longrightarrow>
     f_write fp buff =
       (FR_OK, length buff,
        fp\<lparr>content := take (fptr fp) (content fp) @ buff @ drop (fptr fp + length buff) (content fp),
           fptr := fptr fp + length buff\<rparr>)"
  by (auto simp: f_write_def healthy_def file_ok_def good_run_all Let_def)

lemma FF_GetC_healthy:
  assumes "healthy fp"
  shows "FF_GetC fp =
     (case drop (fptr fp) (content fp) of
        [] \<Rightarrow> Some (-1, fp)
      | c # _ \<Rightarrow> Some (uint c, fp\<lparr>fptr := fptr fp + 1\<rparr>))"
proof (cases "drop (fptr fp) (content fp)")
  case Nil
  with assms show ?thesis by (simp add: FF_GetC_def f_eof_def healthy_def file_ok_def f_size_def)
next
  case (Cons c cs)
  then have "fptr fp < f_size fp" by (metis drop_all f_size_def list.simps(3) not_le)
  with assms Cons show ?thesis
    by (simp add: FF_GetC_def f_eof_def f_read_healthy min_def)
qed

text \<open>A file system read returns the bytes at the file pointer and moves it past them.\<close>

lemma f_read_cases:
  assumes "f_read f n = (res, dat, f')" "fptr f \<le> f_size f"
  shows "dat = take (length dat) (drop (fptr f) (content f))" "length dat \<le> n"
    "content f' = content f" "fptr f' = fptr f + length dat" "fptr f' \<le> f_size f'"
proof -
  define g where "g = good_run (bad f) (fptr f) (min n (f_size f - fptr f))"
  have "g \<le> min n (f_size f - fptr f)" unfolding g_def by (rule good_run_le)
  then have g: "g \<le> n" "g \<le> f_size f - fptr f" "fptr f + g \<le> f_size f" using assms(2) by auto
  have "dat = [] \<and> f' = f \<or> dat = take g (drop (fptr f) (content f)) \<and>
      (f' = f\<lparr>fptr := fptr f + g\<rparr> \<or> f' = f\<lparr>fptr := fptr f + g, fil_err := FR_DISK_ERR\<rparr>)"
    using assms(1) by (auto simp: f_read_def Let_def g_def split: if_splits)
  then show "dat = take (length dat) (drop (fptr f) (content f))" "length dat \<le> n"
    "content f' = content f" "fptr f' = fptr f + length dat" "fptr f' \<le> f_size f'"
    using g assms(2) by (auto simp: f_size_def min_def)
qed

lemma FF_Read_cases:
  assumes "FF_Read f es cnt = (dat, f')" "fptr f \<le> f_size f"
  shows "dat = take (length dat) (drop (fptr f) (content f))" "length dat \<le> unat (es * cnt)"
    "content f' = content f" "fptr f' = fptr f + length dat" "fptr f' \<le> f_size f'"
  using f_read_cases [of f "unat (es * cnt)" "fst (f_read f (unat (es * cnt)))" dat f'] assms
  by (auto simp: FF_Read_def prod_eq_iff)

lemma FF_Seek_nat:
  assumes "n < 2 ^ 64"
  shows "FF_Seek f (int n) FF_SEEK_SET =
    (if n = fptr f then (0, f) else (mapError (fst (f_lseek f n)), snd (f_lseek f n)))"
proof -
  have "nat (int n mod 2 ^ 64) = n" using assms by simp
  then show ?thesis by (simp add: FF_Seek_def f_tell_def mapError_def case_prod_beta)
qed

lemma f_lseek_inside:
  assumes "file_ok f" "n \<le> f_size f"
  shows "content (snd (f_lseek f n)) = content f" "fptr (snd (f_lseek f n)) = n"
    "healthy f \<Longrightarrow> healthy (snd (f_lseek f n))"
  using assms by (auto simp: f_lseek_def file_ok_def healthy_def f_size_def Let_def)

lemma FF_Seek_set:
  fixes ofs :: u32
  assumes "file_ok f" "unat ofs \<le> f_size f" "f_size f < 2 ^ 64" "FF_Seek f (uint ofs) FF_SEEK_SET = (e, f')"
  shows "content f' = content f" "fptr f' = unat ofs" "healthy f \<Longrightarrow> healthy f'"
proof -
  have "FF_Seek f (int (unat ofs)) FF_SEEK_SET = (e, f')" using assms(4) by simp
  moreover have "unat ofs < 2 ^ 64" using assms(2,3) by simp
  ultimately have "f' = (if unat ofs = fptr f then f else snd (f_lseek f (unat ofs)))"
    by (simp only: FF_Seek_nat split: if_splits) auto
  then show "content f' = content f" "fptr f' = unat ofs" "healthy f \<Longrightarrow> healthy f'"
    using f_lseek_inside [OF assms(1,2)] by auto
qed

subsection \<open>Overwriting a part of a file\<close>

text \<open>Overwriting (and extending) a list from a position on.\<close>

definition splice :: "'a list \<Rightarrow> nat \<Rightarrow> 'a list \<Rightarrow> 'a list" where
  "splice c p bs = take p c @ bs @ drop (p + length bs) c"

lemma splice_Nil [simp]: "splice c p [] = c"
  by (simp add: splice_def)

lemma length_splice: "p \<le> length c \<Longrightarrow> length (splice c p bs) = max (length c) (p + length bs)"
  by (auto simp: splice_def)

lemma splice_splice: "p \<le> length c \<Longrightarrow> splice (splice c p a) (p + length a) b = splice c p (a @ b)"
  by (simp add: splice_def add.assoc add.commute [of "length b"])

lemma f_write_full:
  assumes "f_write f buf = (res, length buf, f')" "fptr f \<le> f_size f" "buf \<noteq> []"
  shows "content f' = splice (content f) (fptr f) buf" "fptr f' = fptr f + length buf"
    "fptr f' \<le> f_size f'"
proof -
  have *: "content f' = splice (content f) (fptr f) buf \<and> fptr f' = fptr f + length buf"
    using assms(1,3) by (auto simp: f_write_def Let_def splice_def split: if_splits)
  then show "content f' = splice (content f) (fptr f) buf" "fptr f' = fptr f + length buf" by simp_all
  show "fptr f' \<le> f_size f'" using * assms(2) by (simp add: f_size_def length_splice)
qed

text \<open>Whatever happens, a write changes a part of what it was given, at the file pointer.\<close>

lemma f_write_shape:
  assumes "f_write f buf = (res, n, f')"
  shows "n = 0 \<and> f' = f \<or>
    n \<le> length buf \<and> content f' = take (fptr f) (content f) @ take n buf @ drop (fptr f + n) (content f) \<and>
    fptr f' = fptr f + n"
proof (cases "fil_err f \<noteq> FR_OK \<or> \<not> fil_write f")
  case True
  with assms show ?thesis by (auto simp: f_write_def split: if_splits)
next
  case False
  define m where "m = min (length buf) (max (f_size f) (space f) - fptr f)"
  define g where "g = good_run (bad f) (fptr f) m"
  have g: "g \<le> length buf" unfolding g_def m_def by (rule good_run_min)
  have "n = g" "content f' = take (fptr f) (content f) @ take g buf @ drop (fptr f + g) (content f)"
    "fptr f' = fptr f + g"
    using assms False unfolding f_write_def Let_def m_def [symmetric] g_def [symmetric]
    by (auto split: if_splits)
  with g show ?thesis by blast
qed

lemma f_write_splice:
  assumes "f_write f buf = (res, n, f')"
  shows "n \<le> length buf" "content f' = splice (content f) (fptr f) (take n buf)" "fptr f' = fptr f + n"
  using f_write_shape [OF assms] by (auto simp: splice_def min_def)

text \<open>No operation shortens a file; only a write changes bytes that were there.\<close>

lemma f_lseek_keeps: "f_lseek f n = (res, f') \<Longrightarrow> take (f_size f) (content f') = content f"
  by (auto simp: f_lseek_def Let_def f_size_def split: if_splits)

lemma FF_Seek_keeps: "FF_Seek f ofs from = (e, f') \<Longrightarrow> take (f_size f) (content f') = content f"
  by (auto simp: FF_Seek_def Let_def f_size_def case_prod_beta prod_eq_iff f_lseek_keeps [unfolded f_size_def prod_eq_iff]
      split: if_splits seek_origin.splits)

lemma f_size_take: "take (f_size f) (content f') = content f \<Longrightarrow> f_size f \<le> f_size f'"
  by (metis f_size_def length_take min.cobounded1 min.commute)

lemma FF_Seek_size: "f_size f \<le> f_size (snd (FF_Seek f ofs from))"
  by (metis FF_Seek_keeps f_size_take prod.collapse)

lemma f_read_content: "content (snd (snd (f_read f n))) = content f"
  by (simp add: f_read_def Let_def)

lemma FF_Read_content [simp]: "content (snd (FF_Read f es cnt)) = content f"
  by (simp add: FF_Read_def f_read_content)

lemma FF_Read_size [simp]: "f_size (snd (FF_Read f es cnt)) = f_size f"
  by (simp add: f_size_def)

lemma f_write_size: "f_size f \<le> f_size (snd (snd (f_write f buf)))"
proof -
  obtain res n f' where w: "f_write f buf = (res, n, f')" by (rule prod_cases3)
  from f_write_shape [OF w] show ?thesis unfolding w by (auto simp: f_size_def min_def)
qed

lemma FF_Write_size: "f_size f \<le> f_size (snd (FF_Write f es cnt buf))"
  by (simp add: FF_Write_def f_write_size)

subsection \<open>A file to evaluate on\<close>

text \<open>A small file to evaluate on.\<close>

definition test_file :: "u8 list \<Rightarrow> FIL" where
  "test_file bs = \<lparr>content = bs, fptr = 0, fil_write = True, fil_err = FR_OK, bad = (\<lambda>_. False),
     space = length bs, junk = (\<lambda>_. 0), csize = 4096, chain = of_nat, clust = 0\<rparr>"

lemma test_file_ok: "healthy (test_file bs) \<and> file_ok (test_file bs)" "content (test_file bs) = bs" "fptr (test_file bs) = 0"
  by (simp_all add: test_file_def healthy_def file_ok_def f_size_def)

end
