(* ===== verification/MemChannel.thy ===== *)
theory MemChannel
  imports Files
begin

text \<open>
  The memory channel of \<open>fileio.c\<close> (\<open>FileIO_MCh_*\<close>): transfers between files or buffers and the
  FPGA's DRAM.  The status loops poll until the FPGA is ready or the deadline has passed, so
  they are partial functions; that they return is proved below from a clock that ticks.

  Sizes are natural numbers below \<open>2 ^ 32\<close>; the loops only subtract what they have compared.
  The contents of the uninitialised receive buffers, which are clocked out while reading, are
  written as zeros: the FPGA ignores them.
\<close>

abbreviation FILEBUF_SIZE :: nat where
  "FILEBUF_SIZE \<equiv> 2048"

abbreviation FILEBUF_SIZE32 :: u32 where
  "FILEBUF_SIZE32 \<equiv> 2048"

abbreviation FILEIO_MEMBUF_SIZE :: nat where
  "FILEIO_MEMBUF_SIZE \<equiv> 512"

subsection \<open>Status and buffers\<close>

definition MCh_WaitStat :: "u8 \<Rightarrow> u8 \<Rightarrow> world \<Rightarrow> (u8 \<times> world) option" where
  "MCh_WaitStat msk wanted w =
     WaitStat 0x87 ''MCh:Waitstat timeout.'' 100 msk wanted w"

definition MCh_SendBuffer :: "u8 list \<Rightarrow> world \<Rightarrow> (u8 \<times> world) option" where
  "MCh_SendBuffer buf w =
     do { (e, w) \<leftarrow> MCh_WaitStat 0x02 0 w;
          if e \<noteq> 0 then Some (1, w)
          else Some (0, SPI_DisableFileIO (SPI_WriteBufferSingle buf (snd (rSPI 0xB0 (SPI_EnableFileIO w))))) }"

definition MCh_ReadBuffer :: "nat \<Rightarrow> world \<Rightarrow> u8 list \<times> world" where
  "MCh_ReadBuffer n w =
     (let (bs, w) = SPI_ReadBufferSingle (replicate n 0) (snd (rSPI 0xA0 (SPI_EnableFileIO w)))
      in (bs, SPI_DisableFileIO w))"

definition mch_setup :: "u32 \<Rightarrow> u8 \<Rightarrow> world \<Rightarrow> world" where
  "mch_setup base direction w = fileio_cmd [0x81, direction] (fileio_cmd (0x80 # le32 base) w)"

definition mch_do_read :: "nat \<Rightarrow> world \<Rightarrow> world" where
  "mch_do_read n w = (let m = of_nat n - 1 :: u32 in fileio_cmd [0x84, byte_of 0 m, byte_of 1 m] w)"

subsection \<open>File to memory\<close>

text \<open>
  The inner loop sends one file buffer in chunks.  Its result is the early return code, if a wait
  timed out, or the collected \<open>rc\<close>.
\<close>

partial_function (option) mch_send_sector ::
  "u8 list \<Rightarrow> nat \<Rightarrow> u8 \<Rightarrow> world \<Rightarrow> ((u8 + u8) \<times> world) option" where
  "mch_send_sector wbuf fpgabuf_size rc w =
     (if wbuf = [] then Some (Inr rc, w)
      else do { (e, w) \<leftarrow> MCh_WaitStat 0x01 0 w;
                if e \<noteq> 0 then Some (Inl 1, w)
                else let fpgabuf_size = (if length wbuf < fpgabuf_size then length wbuf else fpgabuf_size)
                     in do { (e, w) \<leftarrow> MCh_SendBuffer (take fpgabuf_size wbuf) w;
                             mch_send_sector (drop fpgabuf_size wbuf) fpgabuf_size (rc OR e) w } })"

text \<open>The outer loop: the result is the early return code, or \<open>rc\<close> and what remains.\<close>

partial_function (option) FileToMem_loop ::
  "FIL \<Rightarrow> nat \<Rightarrow> u8 \<Rightarrow> world \<Rightarrow> ((u8 + u8 \<times> nat) \<times> FIL \<times> world) option" where
  "FileToMem_loop pFile remaining_size rc w =
     (if remaining_size = 0 then Some (Inr (rc, 0), pFile, w)
      else let (fBuf, pFile) = FF_Read pFile FILEBUF_SIZE32 1;
               bytes_read = length fBuf
           in if bytes_read = 0 then Some (Inr (rc, remaining_size), pFile, w)
              else let buf_tx_size = min (min FILEBUF_SIZE remaining_size) bytes_read
                   in do { (r, w) \<leftarrow> mch_send_sector (take buf_tx_size fBuf) FILEIO_MEMBUF_SIZE rc w;
                           case r of
                             Inl e \<Rightarrow> Some (Inl e, pFile, w)
                           | Inr rc \<Rightarrow> FileToMem_loop pFile (remaining_size - buf_tx_size) rc w })"

text \<open>After the loop: the final wait and the check that everything was sent.\<close>

definition FileToMem_finish :: "nat \<Rightarrow> u8 \<times> nat \<Rightarrow> FIL \<Rightarrow> world \<Rightarrow> (u8 \<times> FIL \<times> world) option" where
  "FileToMem_finish len r pFile w =
     (let (rc, remaining_size) = r
      in do { (e, w) \<leftarrow> MCh_WaitStat 0x01 0 w;
              if e \<noteq> 0 then Some (1, pFile, w)
              else let w = snd (Timer_Get 0 w)
                   in if remaining_size \<noteq> 0
                      then Some (2, pFile,
                             say (WARNING ''MCh: Sent file truncated. Requested :%8X Sent :%8X.''
                                    [MsgInt len, MsgInt (len - remaining_size)]) w)
                      else Some (rc, pFile, w) })"

definition FileToMem :: "FIL \<Rightarrow> u32 \<Rightarrow> nat \<Rightarrow> u32 \<Rightarrow> world \<Rightarrow> (u8 \<times> FIL \<times> world) option" where
  "FileToMem pFile base len offset w =
     (let w = snd (Timer_Get 0 w);
          pFile = snd (FF_Seek pFile (uint offset) FF_SEEK_SET);
          w = mch_setup base 0x00 w
      in do { (r, pFile, w) \<leftarrow> FileToMem_loop pFile len 0 w;
              case r of
                Inl e \<Rightarrow> Some (e, pFile, w)
              | Inr r \<Rightarrow> FileToMem_finish len r pFile w })"

subsection \<open>Memory to file\<close>

text \<open>
  \<open>mch_read_sector\<close> reads a file buffer's worth of memory in chunks; \<open>None\<close> in its first
  component is the early return.
\<close>

partial_function (option) mch_read_sector ::
  "nat \<Rightarrow> nat \<Rightarrow> u8 list \<Rightarrow> world \<Rightarrow> (u8 list option \<times> world) option" where
  "mch_read_sector fpga_read_left fpgabuf_size acc w =
     (if fpga_read_left = 0 then Some (Some acc, w)
      else let fpgabuf_size = (if fpga_read_left < fpgabuf_size then fpga_read_left else fpgabuf_size);
               w = mch_do_read fpgabuf_size w
           in do { (e, w) \<leftarrow> MCh_WaitStat 0x04 0 w;
                   if e \<noteq> 0 then Some (None, w)
                   else let (bs, w) = MCh_ReadBuffer fpgabuf_size w
                        in mch_read_sector (fpga_read_left - fpgabuf_size) fpgabuf_size (acc @ bs) w })"

partial_function (option) FileToMemVerify_loop ::
  "FIL \<Rightarrow> u32 \<Rightarrow> nat \<Rightarrow> world \<Rightarrow> ((u8 + u8) \<times> FIL \<times> world) option" where
  "FileToMemVerify_loop pFile base remaining_size w =
     (if remaining_size = 0 then Some (Inr 0, pFile, w)
      else let (fBuf, pFile) = FF_Read pFile FILEBUF_SIZE32 1;
               bytes_read = length fBuf
           in if bytes_read = 0 then Some (Inr 0, pFile, w)
              else let buf_tx_size = min (min FILEBUF_SIZE remaining_size) bytes_read
                   in do { (r, w) \<leftarrow> mch_read_sector buf_tx_size FILEIO_MEMBUF_SIZE [] w;
                           case r of
                             None \<Rightarrow> Some (Inl 1, pFile, w)
                           | Some tBuf \<Rightarrow>
                               if take buf_tx_size fBuf \<noteq> tBuf
                               then Some (Inr 1, pFile,
                                      say (WARNING ''!!Compare fail!! Block Addr:%8X'' [MsgInt (unat base)]) w)
                               else FileToMemVerify_loop pFile (base + of_nat buf_tx_size)
                                      (remaining_size - buf_tx_size) w })"

definition FileToMemVerify :: "FIL \<Rightarrow> u32 \<Rightarrow> nat \<Rightarrow> u32 \<Rightarrow> world \<Rightarrow> (u8 \<times> FIL \<times> world) option" where
  "FileToMemVerify pFile base len offset w =
     (let (_, w) = Timer_Get 0 w;
          (_, pFile) = FF_Seek pFile (uint offset) FF_SEEK_SET;
          w = mch_setup base 0x80 w
      in do { (r, pFile, w) \<leftarrow> FileToMemVerify_loop pFile base len w;
              case r of
                Inl e \<Rightarrow> Some (e, pFile, w)
              | Inr rc \<Rightarrow> Some (rc, pFile, snd (Timer_Get 0 w)) })"

partial_function (option) MemToFile_loop ::
  "FIL \<Rightarrow> nat \<Rightarrow> world \<Rightarrow> (u8 option \<times> FIL \<times> world) option" where
  "MemToFile_loop pFile remaining_size w =
     (if remaining_size = 0 then Some (None, pFile, w)
      else let buf_tx_size = min FILEBUF_SIZE remaining_size
           in do { (r, w) \<leftarrow> mch_read_sector buf_tx_size FILEIO_MEMBUF_SIZE [] w;
                   case r of
                     None \<Rightarrow> Some (Some 1, pFile, w)
                   | Some tBuf \<Rightarrow>
                       let (bytes_written, pFile) = FF_Write pFile (of_nat buf_tx_size) 1 tBuf
                       in if bytes_written = 0 then Some (None, pFile, w)
                          else MemToFile_loop pFile (remaining_size - buf_tx_size) w })"

definition MemToFile :: "FIL \<Rightarrow> u32 \<Rightarrow> nat \<Rightarrow> u32 \<Rightarrow> world \<Rightarrow> (u8 \<times> FIL \<times> world) option" where
  "MemToFile pFile base len offset w =
     (let (_, w) = Timer_Get 0 w;
          pFile = (if offset \<noteq> 0 then snd (FF_Seek pFile (uint offset) FF_SEEK_SET) else pFile);
          w = mch_setup base 0x80 w
      in do { (r, pFile, w) \<leftarrow> MemToFile_loop pFile len w;
              case r of
                Some e \<Rightarrow> Some (e, pFile, w)
              | None \<Rightarrow> Some (0, pFile, snd (Timer_Get 0 w)) })"

subsection \<open>Buffers and memory\<close>

text \<open>\<open>pBuf\<close> is at least as long as the transfer; its length is the transfer size \<open>size\<close>.\<close>

definition BufToMem :: "u8 list \<Rightarrow> u32 \<Rightarrow> world \<Rightarrow> (u8 \<times> world) option" where
  "BufToMem pBuf base w =
     (let w = mch_setup base 0x00 w;
          (buf_tx_size, w) =
            (if length pBuf > FILEIO_MEMBUF_SIZE
             then (FILEIO_MEMBUF_SIZE,
                   say (WARNING ''MCh:Max BufToMem size is %d bytes.'' [MsgInt FILEIO_MEMBUF_SIZE]) w)
             else (length pBuf, w))
      in do { (_, w) \<leftarrow> MCh_SendBuffer (take buf_tx_size pBuf) w;
              (e, w) \<leftarrow> MCh_WaitStat 0x01 0 w;
              Some (if e \<noteq> 0 then 1 else 0, w) })"

definition MemToBuf :: "u32 \<Rightarrow> nat \<Rightarrow> world \<Rightarrow> (u8 \<times> u8 list \<times> world) option" where
  "MemToBuf base len w =
     (let w = mch_setup base 0x80 w;
          (buf_tx_size, w) =
            (if len > FILEIO_MEMBUF_SIZE
             then (FILEIO_MEMBUF_SIZE,
                   say (WARNING ''MCh:Max MemToBuf size is %d bytes.'' [MsgInt FILEIO_MEMBUF_SIZE]) w)
             else (len, w));
          w = mch_do_read buf_tx_size w
      in do { (e, w) \<leftarrow> MCh_WaitStat 0x04 0 w;
              if e \<noteq> 0 then Some (1, [], w)
              else let (bs, w) = MCh_ReadBuffer buf_tx_size w in Some (0, bs, w) })"

definition Randomize :: "u32 \<Rightarrow> nat \<Rightarrow> world \<Rightarrow> (u8 \<times> world) option" where
  "Randomize base len w =
     (let w = mch_do_read len (mch_setup base 0x40 w)
      in do { (e, w) \<leftarrow> MCh_WaitStat 0x04 0 w; Some (if e \<noteq> 0 then 1 else 0, w) })"

subsection \<open>The status wait\<close>

lemma MCh_WaitStat_sends:
  assumes "MCh_WaitStat msk wanted w = Some (r, w')"
  shows "r = 0 \<or> r = 1" and "cmd \<noteq> 0x87 \<Longrightarrow> sends cmd w w' []"
  using WaitStat_sends assms unfolding MCh_WaitStat_def by blast+

lemma MCh_WaitStat_returns: "ticking (elapsed w) \<Longrightarrow> \<exists>r w'. MCh_WaitStat msk wanted w = Some (r, w')"
  unfolding MCh_WaitStat_def by (rule WaitStat_returns) simp_all

text \<open>
  A prompt device: it reports ready in every status poll, and the clock advances at most 100 ms
  between two consecutive readings.
\<close>

definition prompt :: "world \<Rightarrow> bool" where
  "prompt w \<longleftrightarrow>
     (\<forall>h. reply w (h @ [Enable PortFileIO, Xfer 0x87, Xfer 0]) AND 0x07 = 0) \<and>
     (\<forall>h es. Clock \<notin> set es \<longrightarrow> elapsed w (h @ Clock # es @ [Clock]) \<le> elapsed w (h @ [Clock]) + 100)"

lemma and_submask_0:
  fixes x :: "'a :: len word"
  assumes "x AND m = 0" "m' AND m = m'"
  shows "x AND m' = 0"
  using assms by (metis and.assoc and.commute and_zero_eq)

lemma MCh_WaitStat_prompt:
  assumes "ticking (elapsed w)" "prompt w" "msk AND 0x07 = msk"
  shows "\<exists>w'. MCh_WaitStat msk 0 w = Some (0, w')"
  unfolding MCh_WaitStat_def
proof (rule WaitStat_ready [OF assms(1)])
  fix h
  have "reply w (h @ [Enable PortFileIO, Xfer 0x87, Xfer 0]) AND 0x07 = 0"
    using assms(2) unfolding prompt_def by blast
  from and_submask_0 [OF this assms(3)]
  show "reply w (h @ [Enable PortFileIO, Xfer 0x87, Xfer 0]) AND msk = 0" .
next
  show "elapsed w (h @ Clock # es @ [Clock]) \<le> elapsed w (h @ [Clock]) + unat (100 :: u32)"
    if "Clock \<notin> set es" for h es
    using assms(2) that unfolding prompt_def by simp
qed simp

subsection \<open>File to memory: what arrives\<close>

lemma sends_burst:
  "sends cmd w (SPI_DisableFileIO (SPI_WriteBufferSingle buf (snd (rSPI cmd (SPI_EnableFileIO w))))) buf"
  using sends_fileio_cmd [of cmd w cmd buf]
  by (simp add: fileio_cmd_def SPI_WriteBufferSingle_def)

lemma MCh_SendBuffer_sends:
  assumes "MCh_SendBuffer buf w = Some (r, w')"
  shows "r = 0 \<Longrightarrow> sends 0xB0 w w' buf"
    and "cmd \<noteq> 0x87 \<Longrightarrow> cmd \<noteq> 0xB0 \<Longrightarrow> sends cmd w w' []"
proof -
  from assms obtain e w1 where wait: "MCh_WaitStat 0x02 0 w = Some (e, w1)"
    and rest: "(if e \<noteq> 0 then Some (1, w1)
          else Some (0, SPI_DisableFileIO (SPI_WriteBufferSingle buf (snd (rSPI 0xB0 (SPI_EnableFileIO w1))))))
        = Some (r, w')"
    by (auto simp: MCh_SendBuffer_def split: bind_splits)
  show "r = 0 \<Longrightarrow> sends 0xB0 w w' buf"
    using MCh_WaitStat_sends(2) [OF wait, of "0xB0"] rest sends_trans0 [OF _ sends_burst]
    by (auto split: if_splits)
  assume cmd: "cmd \<noteq> 0x87" "cmd \<noteq> 0xB0"
  have "sends cmd w1 (fileio_cmd (0xB0 # buf) w1) []"
    using sends_fileio_cmd [of cmd w1 "0xB0" buf] cmd by simp
  then show "sends cmd w w' []"
    using MCh_WaitStat_sends(2) [OF wait cmd(1)] rest sends_trans0
    by (fastforce simp: fileio_cmd_def SPI_WriteBufferSingle_def split: if_splits)
qed

lemma MCh_SendBuffer_returns:
  "ticking (elapsed w) \<Longrightarrow> \<exists>r w'. MCh_SendBuffer buf w = Some (r, w')"
  using MCh_WaitStat_returns [of w "0x02" 0] by (auto simp: MCh_SendBuffer_def)

lemma mch_send_sector_sends:
  "mch_send_sector wbuf fsz rc w = Some y \<Longrightarrow>
     (case y of (Inl e, w') \<Rightarrow> e = 1 | (Inr rc', w') \<Rightarrow> rc' = 0 \<longrightarrow> rc = 0 \<and> sends 0xB0 w w' wbuf)
     \<and> (cmd \<noteq> 0x87 \<and> cmd \<noteq> 0xB0 \<longrightarrow> sends cmd w (snd y) [])"
proof (induction wbuf fsz rc w y
    rule: mch_send_sector.raw_induct [rotated, consumes 1, case_names loop])
  case (loop sec wbuf fsz rc w y)
  show ?case
  proof (cases "wbuf = []")
    case False
    from loop(2) False obtain e1 w1 where w1: "MCh_WaitStat 0x01 0 w = Some (e1, w1)"
      by (auto split: bind_splits)
    define n where "n = (if length wbuf < fsz then length wbuf else fsz)"
    show ?thesis
    proof (cases "e1 = 0")
      case True
      from loop(2) False w1 True obtain e2 w2
        where w2: "MCh_SendBuffer (take n wbuf) w1 = Some (e2, w2)"
          and rec: "sec (drop n wbuf) n (rc OR e2) w2 = Some y"
        by (auto simp: n_def Let_def split: bind_splits)
      have step: "sends 0xB0 w w2 (take n wbuf)" if "e2 = 0"
        by (rule sends_trans0 [OF MCh_WaitStat_sends(2) [OF w1] MCh_SendBuffer_sends(1) [OF w2 that]]) simp
      have step': "sends cmd w w2 []" if "cmd \<noteq> 0x87" "cmd \<noteq> 0xB0"
        by (rule sends_trans0 [OF MCh_WaitStat_sends(2) [OF w1 that(1)] MCh_SendBuffer_sends(2) [OF w2 that]])
      obtain r w' where y: "y = (r, w')" by (cases y)
      have "rc = 0 \<and> sends 0xB0 w w' wbuf" if "r = Inr 0"
        using loop(1) [OF rec] that sends_trans [OF step, of w' "drop n wbuf"] by (simp add: y or_eq_0_iff)
      moreover have "sends cmd w w' []" if "cmd \<noteq> 0x87" "cmd \<noteq> 0xB0"
        using loop(1) [OF rec] sends_trans0 [OF step' [OF that], of w' "[]"] that by (simp add: y)
      moreover have "\<forall>e. r = Inl e \<longrightarrow> e = 1"
        using loop(1) [OF rec] by (auto simp: y)
      ultimately show ?thesis by (auto simp: y split: sum.splits)
    next
      case False
      with \<open>wbuf \<noteq> []\<close> loop(2) w1 MCh_WaitStat_sends(2) [OF w1] show ?thesis by auto
    qed
  qed (use loop(2) in auto)
qed

lemma mch_send_sector_returns:
  "ticking (elapsed w) \<Longrightarrow> 0 < fsz \<Longrightarrow> \<exists>y. mch_send_sector wbuf fsz rc w = Some y"
proof (induction "length wbuf" arbitrary: wbuf fsz rc w rule: less_induct)
  case less
  show ?case
  proof (cases "wbuf = []")
    case False
    define n where "n = (if length wbuf < fsz then length wbuf else fsz)"
    have n: "0 < n" using False less.prems(2) by (simp add: n_def)
    obtain e1 w1 where w1: "MCh_WaitStat 0x01 0 w = Some (e1, w1)"
      using MCh_WaitStat_returns [OF less.prems(1)] by blast
    have t1: "ticking (elapsed w1)"
      using MCh_WaitStat_sends(2) [OF w1, of 0] sends_env less.prems(1) by force
    obtain e2 w2 where w2: "MCh_SendBuffer (take n wbuf) w1 = Some (e2, w2)"
      using MCh_SendBuffer_returns [OF t1] by blast
    have "ticking (elapsed w2)"
      using MCh_SendBuffer_sends(2) [OF w2, of 0] sends_env t1 by force
    with n False have "\<exists>y. mch_send_sector (drop n wbuf) n (rc OR e2) w2 = Some y"
      by (intro less.hyps) auto
    then obtain y where "mch_send_sector (drop n wbuf) n (rc OR e2) w2 = Some y" by blast
    with False w1 w2 show ?thesis
      by (subst mch_send_sector.simps) (simp add: n_def Let_def)
  qed (simp add: mch_send_sector.simps)
qed

lemma FileToMem_loop_sends:
  "FileToMem_loop f n rc w = Some y \<Longrightarrow> fptr f \<le> f_size f \<Longrightarrow>
     (case y of (Inl e, f', w') \<Rightarrow> e = 1
       | (Inr (rc', m), f', w') \<Rightarrow> m \<le> n \<and>
           (rc' = 0 \<and> m = 0 \<longrightarrow> rc = 0 \<and> n \<le> f_size f - fptr f \<and>
              sends 0xB0 w w' (take n (drop (fptr f) (content f)))))
     \<and> (cmd \<noteq> 0x87 \<and> cmd \<noteq> 0xB0 \<longrightarrow> sends cmd w (snd (snd y)) [])"
proof (induction f n rc w y
    rule: FileToMem_loop.raw_induct [rotated, consumes 1, case_names loop])
  case (loop rec f n rc w y)
  obtain dat f1 where rd: "FF_Read f FILEBUF_SIZE32 1 = (dat, f1)"
    by (cases "FF_Read f FILEBUF_SIZE32 1")
  note rd' = FF_Read_cases [OF rd loop(3)]
  show ?case
  proof (cases "n = 0 \<or> dat = []")
    case True
    with loop(2) rd show ?thesis by (auto split: if_splits)
  next
    case False
    define k where "k = min (min FILEBUF_SIZE n) (length dat)"
    have km: "k = min n (length dat)" using rd'(2) by (simp add: k_def)
    have k: "k \<le> n" "k \<le> f_size f - fptr f" using rd'(3,4,5) by (auto simp: km f_size_def)
    have tk: "take k dat = take k (drop (fptr f) (content f))"
      using arg_cong [OF rd'(1), of "take k"] by (simp add: km)
    from loop(2) False rd obtain r w1
      where snd1: "mch_send_sector (take k dat) FILEIO_MEMBUF_SIZE rc w = Some (r, w1)"
      by (auto simp: k_def Let_def split: bind_splits)
    note sec = mch_send_sector_sends [OF snd1]
    show ?thesis
    proof (cases r)
      case (Inl e)
      with loop(2) False rd snd1 sec show ?thesis by (auto simp: k_def Let_def)
    next
      case (Inr rc1)
      with loop(2) False rd snd1 have r1: "rec f1 (n - k) rc1 w1 = Some y"
        by (auto simp: k_def Let_def)
      obtain r2 f2 w2 where y: "y = (r2, f2, w2)" by (cases y)
      note IH = loop(1) [OF r1 rd'(5)]
      have dk: "take (n - k) (drop (fptr f1) (content f1)) = drop k (take n (drop (fptr f) (content f)))"
        by (cases "n \<le> length dat") (auto simp: km rd'(3,4) drop_take add.commute)
      have "rc = 0 \<and> n \<le> f_size f - fptr f \<and> sends 0xB0 w w2 (take n (drop (fptr f) (content f)))"
        if "r2 = Inr (0, 0)"
      proof -
        from IH that have IH': "rc1 = 0" "n - k \<le> f_size f1 - fptr f1"
          "sends 0xB0 w1 w2 (take (n - k) (drop (fptr f1) (content f1)))" by (simp_all add: y)
        have "sends 0xB0 w w1 (take k (drop (fptr f) (content f)))" "rc = 0"
          using sec Inr IH'(1) by (simp_all add: tk)
        moreover have "take k (drop (fptr f) (content f)) @ drop k (take n (drop (fptr f) (content f)))
            = take n (drop (fptr f) (content f))"
          using k(1) by (metis append_take_drop_id min.absorb1 take_take)
        moreover have "n \<le> f_size f - fptr f"
          using IH'(2) rd'(3,4,5) k by (auto simp: f_size_def km min_def split: if_splits)
        ultimately show ?thesis using sends_trans [of _ w w1 _ w2] IH'(3) unfolding dk by metis
      qed
      moreover have "sends cmd w w2 []" if "cmd \<noteq> 0x87" "cmd \<noteq> 0xB0"
        using sec IH that sends_trans0 [of cmd w w1 w2 "[]"] by (simp add: y)
      moreover have "\<forall>e. r2 = Inl e \<longrightarrow> e = 1" "\<forall>rc' m. r2 = Inr (rc', m) \<longrightarrow> m \<le> n"
        using IH by (auto simp: y)
      ultimately show ?thesis by (auto simp: y split: sum.splits)
    qed
  qed
qed
lemma FileToMem_loop_returns:
  "ticking (elapsed w) \<Longrightarrow> fptr f \<le> f_size f \<Longrightarrow> \<exists>y. FileToMem_loop f n rc w = Some y"
proof (induction n arbitrary: f rc w rule: less_induct)
  case (less n)
  obtain dat f1 where rd: "FF_Read f FILEBUF_SIZE32 1 = (dat, f1)"
    by (cases "FF_Read f FILEBUF_SIZE32 1")
  show ?case
  proof (cases "n = 0 \<or> dat = []")
    case True
    with rd show ?thesis by (subst FileToMem_loop.simps) auto
  next
    case False
    define k where "k = min (min FILEBUF_SIZE n) (length dat)"
    have k: "n - k < n" using False by (auto simp: k_def)
    obtain r w1 where s: "mch_send_sector (take k dat) FILEIO_MEMBUF_SIZE rc w = Some (r, w1)"
      using mch_send_sector_returns [OF less.prems(1), of FILEIO_MEMBUF_SIZE] by fastforce
    have "ticking (elapsed w1)"
      using mch_send_sector_sends [OF s, of 0] sends_env [of 0 w w1 "[]"] less.prems(1) by simp
    then have "\<exists>y. FileToMem_loop f1 (n - k) rc1 w1 = Some y" for rc1
      using less.IH [OF k] FF_Read_cases(5) [OF rd less.prems(2)] by blast
    then show ?thesis using False rd s
      by (subst FileToMem_loop.simps) (auto simp: k_def Let_def split: sum.split)
  qed
qed

text \<open>With a prompt device every wait succeeds, and so do the transfers.\<close>

lemma prompt_sends: "sends cmd w w' bs \<Longrightarrow> prompt w' = prompt w \<and> ticking (elapsed w') = ticking (elapsed w)"
  using sends_env [of cmd w w' bs] by (simp add: prompt_def)

lemma MCh_SendBuffer_prompt:
  assumes "ticking (elapsed w)" "prompt w"
  shows "\<exists>w'. MCh_SendBuffer buf w = Some (0, w')"
proof -
  have "(0x02 :: u8) AND 0x07 = 0x02" by simp
  from MCh_WaitStat_prompt [OF assms this] show ?thesis by (auto simp: MCh_SendBuffer_def)
qed

lemma mch_send_sector_prompt:
  "ticking (elapsed w) \<Longrightarrow> prompt w \<Longrightarrow> 0 < fsz \<Longrightarrow>
     \<exists>w'. mch_send_sector wbuf fsz rc w = Some (Inr rc, w')"
proof (induction "length wbuf" arbitrary: wbuf fsz w rule: less_induct)
  case less
  show ?case
  proof (cases "wbuf = []")
    case False
    define n where "n = (if length wbuf < fsz then length wbuf else fsz)"
    have n: "0 < n" using False less.prems(3) by (simp add: n_def)
    have "(0x01 :: u8) AND 0x07 = 0x01" by simp
    from MCh_WaitStat_prompt [OF less.prems(1,2) this]
    obtain w1 where w1: "MCh_WaitStat 0x01 0 w = Some (0, w1)" by blast
    have p1: "prompt w1 \<and> ticking (elapsed w1)"
      using MCh_WaitStat_sends(2) [OF w1, of 0] prompt_sends less.prems(1,2) by force
    then obtain w2 where w2: "MCh_SendBuffer (take n wbuf) w1 = Some (0, w2)"
      using MCh_SendBuffer_prompt by blast
    have "prompt w2 \<and> ticking (elapsed w2)"
      using MCh_SendBuffer_sends(2) [OF w2, of 0] prompt_sends p1 by force
    with n False have "\<exists>w'. mch_send_sector (drop n wbuf) n rc w2 = Some (Inr rc, w')"
      by (intro less.hyps) auto
    with False w1 w2 show ?thesis
      by (subst mch_send_sector.simps) (auto simp: n_def Let_def)
  qed (simp add: mch_send_sector.simps)
qed

lemma FileToMem_loop_prompt:
  "ticking (elapsed w) \<Longrightarrow> prompt w \<Longrightarrow> healthy f \<Longrightarrow>
     \<exists>f' w'. FileToMem_loop f n rc w = Some (Inr (rc, n - (f_size f - fptr f)), f', w')"
proof (induction n arbitrary: f w rule: less_induct)
  case (less n)
  define dat where "dat = take 2048 (drop (fptr f) (content f))"
  define f1 where "f1 = f\<lparr>fptr := min (f_size f) (fptr f + 2048)\<rparr>"
  have rd: "FF_Read f FILEBUF_SIZE32 1 = (dat, f1)"
    using FF_Read_healthy [OF less.prems(3), of 2048 1] by (simp add: dat_def f1_def)
  have h1: "healthy f1" using less.prems(3) by (simp add: f1_def)
  have le: "fptr f \<le> f_size f" using less.prems(3) by (simp add: healthy_def file_ok_def)
  show ?case
  proof (cases "n = 0 \<or> dat = []")
    case True
    then have "n = 0 \<or> f_size f - fptr f = 0" by (auto simp: dat_def f_size_def)
    with True rd show ?thesis by (subst FileToMem_loop.simps) auto
  next
    case False
    define k where "k = min (min FILEBUF_SIZE n) (length dat)"
    have k: "n - k < n" using False by (auto simp: k_def)
    have rest: "n - k - (f_size f1 - fptr f1) = n - (f_size f - fptr f)"
      using le by (auto simp: k_def dat_def f1_def f_size_def)
    obtain w1 where s: "mch_send_sector (take k dat) FILEIO_MEMBUF_SIZE rc w = Some (Inr rc, w1)"
      using mch_send_sector_prompt [OF less.prems(1,2), of FILEIO_MEMBUF_SIZE] by fastforce
    have "prompt w1 \<and> ticking (elapsed w1)"
      using mch_send_sector_sends [OF s, of 0] prompt_sends [of 0 w w1 "[]"] less.prems(1,2) by simp
    with less.IH [OF k _ _ h1, unfolded rest] show ?thesis using False rd s
      by (subst FileToMem_loop.simps) (auto simp: k_def [symmetric] Let_def)
  qed
qed

lemma mch_setup_sends:
  "cmd \<noteq> 0x80 \<Longrightarrow> cmd \<noteq> 0x81 \<Longrightarrow> sends cmd w (mch_setup base d w) []"
  "sends 0x80 w (mch_setup base d w) (le32 base)"
  "sends 0x81 w (mch_setup base d w) [d]"
proof -
  let ?w1 = "fileio_cmd (0x80 # le32 base) w"
  note a = sends_fileio_cmd [of _ w "0x80" "le32 base"] and b = sends_fileio_cmd [of _ ?w1 "0x81" "[d]"]
  show "cmd \<noteq> 0x80 \<Longrightarrow> cmd \<noteq> 0x81 \<Longrightarrow> sends cmd w (mch_setup base d w) []"
    using sends_trans [OF a [of cmd] b [of cmd]] by (simp add: mch_setup_def)
  show "sends 0x80 w (mch_setup base d w) (le32 base)"
    using sends_trans [OF a [of "0x80"] b [of "0x80"]] by (simp add: mch_setup_def)
  show "sends 0x81 w (mch_setup base d w) [d]"
    using sends_trans [OF a [of "0x81"] b [of "0x81"]] by (simp add: mch_setup_def)
qed

text \<open>The last part of an upload sends nothing more and decides the result.\<close>

lemma FileToMem_finish_result:
  assumes "ticking (elapsed w)"
  shows "\<exists>rc' w'. FileToMem_finish n (rc, m) f w = Some (rc', f, w') \<and>
    (\<forall>cmd. cmd \<noteq> 0x87 \<longrightarrow> sends cmd w w' []) \<and> (rc' = 0 \<longrightarrow> m = 0 \<and> rc = 0) \<and>
    (prompt w \<longrightarrow> rc' = (if m \<noteq> 0 then 2 else rc))"
proof -
  obtain e w1 where w1: "MCh_WaitStat 0x01 0 w = Some (e, w1)"
    using MCh_WaitStat_returns [OF assms] by blast
  let ?msg = "WARNING ''MCh: Sent file truncated. Requested :%8X Sent :%8X.'' [MsgInt n, MsgInt (n - m)]"
  let ?w2 = "snd (Timer_Get 0 w1)"
  define w' where "w' = (if e \<noteq> 0 then w1 else if m \<noteq> 0 then say ?msg ?w2 else ?w2)"
  have "sends cmd w w' []" if "cmd \<noteq> 0x87" for cmd
  proof -
    have "sends cmd w w1 []" using MCh_WaitStat_sends(2) [OF w1 that] .
    moreover have "sends cmd w ?w2 []" by (rule sends_trans0 [OF calculation sends_Timer_Get])
    moreover have "sends cmd w (say ?msg ?w2) []" by (rule sends_trans0 [OF calculation(2) sends_say])
    ultimately show ?thesis by (simp add: w'_def)
  qed
  moreover have "prompt w \<Longrightarrow> e = 0"
    using MCh_WaitStat_prompt [OF assms, of 1] w1 by simp
  ultimately show ?thesis using w1
    by (intro exI [of _ "if e \<noteq> 0 then 1 else if m \<noteq> 0 then 2 else rc"] exI [of _ w'])
       (auto simp: FileToMem_finish_def w'_def Let_def)
qed

text \<open>The first part announces the address and the direction.\<close>

definition FileToMem_start :: "u32 \<Rightarrow> world \<Rightarrow> world" where
  "FileToMem_start base w = mch_setup base 0x00 (snd (Timer_Get 0 w))"

lemma FileToMem_start_sends:
  "cmd \<noteq> 0x80 \<Longrightarrow> cmd \<noteq> 0x81 \<Longrightarrow> sends cmd w (FileToMem_start base w) []"
  "sends 0x80 w (FileToMem_start base w) (le32 base)"
  "sends 0x81 w (FileToMem_start base w) [0]"
  unfolding FileToMem_start_def
  using sends_trans0 [OF sends_Timer_Get mch_setup_sends(1)]
    sends_trans0 [OF sends_Timer_Get mch_setup_sends(2)]
    sends_trans0 [OF sends_Timer_Get mch_setup_sends(3)] by blast+

definition test_world :: world where
  "test_world = \<lparr>trace = [], reply = (\<lambda>_. 0), elapsed = (\<lambda>h. length (filter (\<lambda>e. e = Clock) h)), msgs = []\<rparr>"

lemma test_world_ok: "ticking (elapsed test_world) \<and> prompt test_world"
proof -
  have "Clock \<notin> set es \<Longrightarrow> filter (\<lambda>e. e = Clock) es = []" for es
    by (auto simp: filter_empty_conv)
  then show ?thesis by (simp add: test_world_def ticking_def prompt_def)
qed



end
