(* ===== verification/IniParser.thy ===== *)
theory IniParser
  imports StringLight Files
begin

text \<open>
  The INI parser of \<open>iniparser.c\<close>: the symbol table, the string scanners, the line parser, the
  two file drivers and the list parser.

  A position in a string is the rest of the string; \<open>None\<close> is the null pointer.  Where the C code
  reads or writes through a null pointer, or indexes outside an array, the result is \<open>None\<close>.
  The handler called for every entry is a parameter; it may use the list parser, whose buffer is
  part of the parser's state, and it returns a status byte (0 is success).
\<close>

datatype ini_symbols =
    INI_START | INI_UNKNOWN | INI_SETUP | INI_INFO | INI_OSD_INIT | INI_OSD_TIMEOUT | INI_BIN
  | INI_CLOCK | INI_PHASE | INI_CODER | INI_VFILTER | INI_EN_TWI | INI_EN_SPI | INI_SPI_CLK
  | INI_BUTTON | INI_HOTKEY | INI_KEYB_MODE | INI_CLOCKMON | INI_VIDEO | INI_CONFIG | INI_CSTORE
  | INI_UPLOAD | INI_FILES | INI_VERIFY | INI_ROM | INI_CHA_MOUNT | INI_CHB_MOUNT | INI_CHA_CFG
  | INI_CHB_CFG | INI_LAUNCH | INI_MENU | INI_DATA | INI_TITLE | INI_ITEM | INI_OPTION
  | INI_TARGETS | INI_TARGET

record ini_symtab =
  keyword :: string
  token :: ini_symbols
  is_section :: bool

abbreviation sym :: "string \<Rightarrow> ini_symbols \<Rightarrow> bool \<Rightarrow> ini_symtab" where
  "sym k t s \<equiv> \<lparr>keyword = k, token = t, is_section = s\<rparr>"

definition symtab :: "ini_symtab list" where
  "symtab =
    [sym ''SETUP'' INI_SETUP True,
     sym ''INFO'' INI_INFO False,
     sym ''OSD_INIT'' INI_OSD_INIT False,
     sym ''OSD_TIMEOUT'' INI_OSD_TIMEOUT False,
     sym ''BIN'' INI_BIN False,
     sym ''CLOCK'' INI_CLOCK False,
     sym ''PHASE'' INI_PHASE False,
     sym ''CODER'' INI_CODER False,
     sym ''VFILTER'' INI_VFILTER False,
     sym ''EN_TWI'' INI_EN_TWI False,
     sym ''EN_SPI'' INI_EN_SPI False,
     sym ''SPI_CLK'' INI_SPI_CLK False,
     sym ''BUTTON'' INI_BUTTON False,
     sym ''HOTKEY'' INI_HOTKEY False,
     sym ''KEYBOARD'' INI_KEYB_MODE False,
     sym ''CLOCKMON'' INI_CLOCKMON False,
     sym ''VIDEO'' INI_VIDEO False,
     sym ''CONFIG'' INI_CONFIG False,
     sym ''CSTORE'' INI_CSTORE False,
     sym ''UPLOAD'' INI_UPLOAD True,
     sym ''FILES'' INI_FILES True,
     sym ''VERIFY'' INI_VERIFY False,
     sym ''ROM'' INI_ROM False,
     sym ''CHA_MOUNT'' INI_CHA_MOUNT False,
     sym ''CHB_MOUNT'' INI_CHB_MOUNT False,
     sym ''CHA_CFG'' INI_CHA_CFG False,
     sym ''CHB_CFG'' INI_CHB_CFG False,
     sym ''DATA'' INI_DATA False,
     sym ''LAUNCH'' INI_LAUNCH False,
     sym ''MENU'' INI_MENU True,
     sym ''TITLE'' INI_TITLE False,
     sym ''ITEM'' INI_ITEM False,
     sym ''OPTION'' INI_OPTION False,
     sym ''TARGETS'' INI_TARGETS True,
     sym ''TARGET'' INI_TARGET False,
     sym '''' INI_UNKNOWN False,
     sym '''' INI_START True]"

abbreviation MAX_LINE_LEN :: nat where
  "MAX_LINE_LEN \<equiv> 128"

text \<open>
  The parser's state: the value buffer of the list parser with its offset, the messages, and the
  handler's configuration.
\<close>

record 'c ini =
  s_ValueBuffer :: string
  s_CurrentValueOffset :: nat
  ini_msgs :: "msg list"
  config :: 'c

subsection \<open>String scanners\<close>

definition StripTrailingSpaces :: "string \<Rightarrow> string" where
  "StripTrailingSpaces s = rev (dropWhile isspace (rev s))"

definition FindFirstChar :: "string option \<Rightarrow> string option" where
  "FindFirstChar s =
     (case s of None \<Rightarrow> None | Some s \<Rightarrow> if s = [] then None else Some (dropWhile isspace s))"

text \<open>\<open>FindLastChar\<close> gives the offset of the last non-blank; it is never below the start.\<close>

fun last_nonspace :: "string \<Rightarrow> nat \<Rightarrow> nat" where
  "last_nonspace s 0 = 0"
| "last_nonspace s (Suc i) = (if isspace (s ! Suc i) then last_nonspace s i else Suc i)"

definition FindLastChar :: "string \<Rightarrow> nat \<Rightarrow> int" where
  "FindLastChar s n = (if n = 0 then -1 else int (last_nonspace s (n - 1)))"

definition FindChar :: "string \<Rightarrow> char \<Rightarrow> string" where
  "FindChar s c = dropWhile (\<lambda>x. x \<noteq> c \<and> x \<noteq> CHR '';'' \<and> x \<noteq> CHR ''#'') s"

text \<open>
  \<open>FindCharr\<close> searches down from offset \<open>e - 1\<close> to \<open>min\<close> in the string \<open>s\<close>.  (Its loop condition
  stops at a NUL, which is not inside a string.)
\<close>

fun find_down :: "string \<Rightarrow> nat \<Rightarrow> nat \<Rightarrow> char \<Rightarrow> nat" where
  "find_down s lo 0 c = 0"
| "find_down s lo (Suc p) c = (if lo < Suc p \<and> s ! Suc p \<noteq> c then find_down s lo p c else Suc p)"

definition FindCharr :: "string \<Rightarrow> nat \<Rightarrow> nat \<Rightarrow> char \<Rightarrow> nat option" where
  "FindCharr s e lo c =
     (let p = find_down s lo (e - 1) c in if p = lo \<and> s ! p \<noteq> c then None else Some p)"

subsection \<open>Lines\<close>

definition FreeList :: "'c ini \<Rightarrow> 'c ini" where
  "FreeList st = st\<lparr>s_CurrentValueOffset := 0\<rparr>"

text \<open>The table search stops at the first match or at the \<open>INI_UNKNOWN\<close> entry.\<close>

fun find_symbol :: "ini_symtab list \<Rightarrow> string \<Rightarrow> ini_symtab" where
  "find_symbol [] name = sym '''' INI_UNKNOWN False"
| "find_symbol (e # tab) name =
     (if strcasecmp (keyword e) name = 0 \<or> token e = INI_UNKNOWN then e else find_symbol tab name)"

type_synonym 'c handler =
  "ini_symbols \<Rightarrow> ini_symbols \<Rightarrow> string option \<Rightarrow> 'c ini \<Rightarrow> u8 \<times> 'c ini"

definition ini_error :: "string \<Rightarrow> u32 \<Rightarrow> 'c ini \<Rightarrow> 'c ini" where
  "ini_error txt lineNumber st = st\<lparr>ini_msgs := ini_msgs st @ [ERROR txt [MsgInt (unat lineNumber)]]\<rparr>"

text \<open>A section line \<open>[NAME]\<close>; \<open>start\<close> is the text after the bracket.\<close>

definition parse_section ::
  "'c handler \<Rightarrow> ini_symbols \<Rightarrow> u32 \<Rightarrow> string \<Rightarrow> 'c ini \<Rightarrow> u32 \<times> ini_symbols \<times> 'c ini" where
  "parse_section parseHandle section lineNumber start st =
     (let end = FindChar start CHR '']'' in
      if deref end = CHR '']''
      then let e = find_symbol symtab (takeWhile (\<lambda>x. x \<noteq> CHR '']'') start);
               section = token e
           in if section = INI_UNKNOWN
              then (lineNumber, section, ini_error ''Unknown keyword. Line %d'' lineNumber st)
              else if \<not> is_section e
              then (lineNumber, section, ini_error ''Keyword not valid here. Line %d'' lineNumber st)
              else let (r, st) = parseHandle section INI_UNKNOWN None st
                   in (if r \<noteq> 0 then lineNumber else 0, section, st)
      else (lineNumber, section, st))"

text \<open>
  An entry line \<open>NAME = VALUE\<close>.  With nothing after the \<open>=\<close>, \<open>FindFirstChar\<close> gives the null
  pointer and the code goes on with it.  The handler is called even after an error.
\<close>

definition parse_entry ::
  "'c handler \<Rightarrow> ini_symbols \<Rightarrow> u32 \<Rightarrow> string \<Rightarrow> 'c ini \<Rightarrow> (u32 \<times> ini_symbols \<times> 'c ini) option" where
  "parse_entry parseHandle section lineNumber start st =
     (let end = FindChar (advance start) CHR ''='' in
      if deref end = CHR ''=''
      then let name = StripTrailingSpaces (take (length start - length end) start)
           in case FindFirstChar (Some (advance end)) of
                None \<Rightarrow> None
              | Some value \<Rightarrow>
                  let value = take (nat (FindLastChar value (length value) + 1)) value;
                      e = find_symbol symtab name;
                      (lineError, st) =
                        (if token e = INI_UNKNOWN
                         then (lineNumber, ini_error ''Unknown keyword. Line %d'' lineNumber st)
                         else if is_section e
                         then (lineNumber, ini_error ''Keyword not valid here. Line %d'' lineNumber st)
                         else (0, st));
                      (r, st) = parseHandle section (token e) (Some value) st
                  in Some (if r \<noteq> 0 then lineNumber else lineError, section, st)
      else Some (0, section, st))"

definition ParseLine ::
  "'c handler \<Rightarrow> ini_symbols \<Rightarrow> u32 \<Rightarrow> string \<Rightarrow> 'c ini \<Rightarrow> (u32 \<times> ini_symbols \<times> 'c ini) option" where
  "ParseLine parseHandle section lineNumber lineBuffer st =
     (let st = FreeList st in
      case FindFirstChar (Some (StripTrailingSpaces lineBuffer)) of
        None \<Rightarrow> Some (0, section, st)
      | Some start \<Rightarrow>
          if deref start = CHR ''[''
          then Some (parse_section parseHandle section lineNumber (advance start) st)
          else if deref start \<noteq> NUL \<and> deref start \<noteq> CHR '';'' \<and> deref start \<noteq> CHR ''#''
          then parse_entry parseHandle section lineNumber start st
          else Some (0, section, st))"

subsection \<open>Files and strings\<close>

text \<open>
  Both drivers read characters until end of line, at most 127 of them, drop the rest of a longer
  line, and parse what they have.  \<open>getc\<close> is \<open>FF_GetC\<close> or the reading from memory.  The first
  loop returns the characters, the last character read (\<open>ch\<close>, initially the one of the line
  before) and the source.
\<close>

type_synonym 's getc = "'s \<Rightarrow> (int \<times> 's) option"

fun read_chars :: "'s getc \<Rightarrow> nat \<Rightarrow> string \<Rightarrow> int \<Rightarrow> 's \<Rightarrow> (string \<times> int \<times> 's) option" where
  "read_chars getc 0 buf ch src = Some (buf, ch, src)"
| "read_chars getc (Suc n) buf ch src =
     do { (ch, src) \<leftarrow> getc src;
          if ch \<ge> 0 \<and> ch \<noteq> 10 then read_chars getc n (buf @ [char_of ch]) ch src
          else Some (buf, ch, src) }"

partial_function (option) skip_line :: "'s getc \<Rightarrow> int \<Rightarrow> 's \<Rightarrow> (int \<times> 's) option" where
  "skip_line getc ch src =
     (if ch \<noteq> -1 \<and> ch \<noteq> 10 then do { (ch, src) \<leftarrow> getc src; skip_line getc ch src }
      else Some (ch, src))"

definition read_line :: "'s getc \<Rightarrow> int \<Rightarrow> 's \<Rightarrow> (string \<times> int \<times> 's) option" where
  "read_line getc ch src =
     do { (buf, ch, src) \<leftarrow> read_chars getc (MAX_LINE_LEN - 1) [] ch src;
          (ch, src) \<leftarrow> skip_line getc ch src;
          Some (cstr buf, ch, src) }"

partial_function (option) parse_lines ::
  "'s getc \<Rightarrow> 'c handler \<Rightarrow> ini_symbols \<Rightarrow> u32 \<Rightarrow> int \<Rightarrow> 's \<Rightarrow> 'c ini \<Rightarrow> (u32 \<times> 's \<times> 'c ini) option" where
  "parse_lines getc parseHandle section lineNumber ch src st =
     do { (lineBuffer, ch, src) \<leftarrow> read_line getc ch src;
          (lineError, section, st) \<leftarrow> ParseLine parseHandle section lineNumber lineBuffer st;
          if ch \<noteq> -1 \<and> lineError = 0
          then parse_lines getc parseHandle section (lineNumber + 1) ch src st
          else Some (lineError, src, st) }"

definition parse_ini :: "'s getc \<Rightarrow> 'c handler \<Rightarrow> 's \<Rightarrow> 'c ini \<Rightarrow> (u8 \<times> 's \<times> 'c ini) option" where
  "parse_ini getc parseHandle src st =
     do { (lineError, src, st) \<leftarrow> parse_lines getc parseHandle INI_UNKNOWN 1 0 src st;
          let st = (if lineError = 0 then snd (parseHandle INI_UNKNOWN INI_UNKNOWN None st) else st)
          in Some (ucast lineError, src, st) }"

definition ParseIni :: "FIL \<Rightarrow> 'c handler \<Rightarrow> 'c ini \<Rightarrow> (u8 \<times> FIL \<times> 'c ini) option" where
  "ParseIni pFile parseHandle st = parse_ini FF_GetC parseHandle pFile st"

definition str_getc :: "u8 list getc" where
  "str_getc str = (case str of [] \<Rightarrow> Some (-1, []) | c # str \<Rightarrow> Some (uint c, str))"

definition ParseIniFromString :: "u8 list \<Rightarrow> 'c handler \<Rightarrow> 'c ini \<Rightarrow> (u8 \<times> u8 list \<times> 'c ini) option" where
  "ParseIniFromString str parseHandle st = parse_ini str_getc parseHandle str st"

subsection \<open>Value lists\<close>

record ini_list =
  strval :: "nat option"
  intval :: u32

text \<open>
  Storing a string of \<open>len\<close> characters in the value buffer, as \<open>strncpy\<close> does (padding with NUL),
  with its terminator.  The size assertion of the C code guards it.
\<close>

definition store_value :: "string \<Rightarrow> nat \<Rightarrow> 'c ini \<Rightarrow> (nat \<times> 'c ini) option" where
  "store_value src len st =
     (let ofs = s_CurrentValueOffset st;
          txt = take len (src @ replicate len NUL) @ [NUL]
      in if MAX_LINE_LEN - ofs > len
         then Some (ofs, st\<lparr>s_ValueBuffer := take ofs (s_ValueBuffer st) @ txt @ drop (ofs + len + 1) (s_ValueBuffer st),
                           s_CurrentValueOffset := ofs + len + 1\<rparr>)
         else None)"

text \<open>
  The number of an entry: \<open>*\<close> introduces a binary number; after \<open>-\<close> the decimal digits are
  converted without the sign, as in the source.
\<close>

definition list_number :: "string \<Rightarrow> u32" where
  "list_number v =
     (if deref v = CHR ''*'' then fst (strtoul (advance v) 2)
      else if deref v = CHR ''-'' then word_of_int (fst (strtol (advance v) 10))
      else if code_of CHR ''0'' \<le> code_of (deref v) \<and> code_of (deref v) \<le> code_of CHR ''9''
      then fst (strtoul v 0)
      else 0)"

text \<open>
  A quoted entry: \<open>s\<close> starts with the quote and \<open>e\<close> is its length up to the separator.  The
  search for the closing quote yields the null pointer when there is none (then the length is a
  difference with it); when the closing quote follows immediately, the warning is printed and the
  length is not adjusted.  A lone quote gives a length of 65535.
\<close>

definition quoted_entry :: "string \<Rightarrow> nat \<Rightarrow> 'c ini \<Rightarrow> (nat \<times> string \<times> 'c ini) option" where
  "quoted_entry s e st =
     do { send \<leftarrow> (if s ! (e - 1) \<noteq> CHR 0x22 then FindCharr s e 1 CHR 0x22 else Some (e - 1));
          if send = 0 then None
          else let len = (if send \<noteq> 1 then send - 1 else e);
                   st = (if send \<noteq> 1 then st
                         else st\<lparr>ini_msgs := ini_msgs st @ [WARNING ''missing end quote: %s'' [MsgStr (advance s)]]\<rparr>)
               in do { (ofs, st) \<leftarrow> store_value (advance s) len st; Some (ofs, take len (advance s), st) } }"

definition plain_entry :: "string \<Rightarrow> nat \<Rightarrow> 'c ini \<Rightarrow> (nat \<times> string \<times> 'c ini) option" where
  "plain_entry s len st =
     (let v = StripTrailingSpaces (take len s)
      in do { (ofs, st) \<leftarrow> store_value v len st; Some (ofs, v, st) })"

definition list_entry :: "string \<Rightarrow> nat \<Rightarrow> 'c ini \<Rightarrow> (ini_list \<times> 'c ini) option" where
  "list_entry start len st =
     (if len \<noteq> 0
      then do { (ofs, v, st) \<leftarrow> (if deref start = CHR 0x22 then quoted_entry start len st else plain_entry start len st);
                Some (\<lparr>strval = Some ofs, intval = list_number v\<rparr>, st) }
      else Some (\<lparr>strval = None, intval = 0\<rparr>, st))"

lemma FindChar_shorter: "deref (FindChar s c) \<noteq> NUL \<Longrightarrow> length (FindChar s c) - Suc 0 < length s"
  using deref_not_NUL_length [of "FindChar s c"] length_dropWhile_le [of _ s]
  unfolding FindChar_def by (meson less_le_trans)

lemma FindFirstChar_length: "FindFirstChar (Some e) = Some s \<Longrightarrow> length s \<le> length e"
  by (auto simp: FindFirstChar_def length_dropWhile_le split: if_splits)

function ParseList_loop ::
  "string \<Rightarrow> nat \<Rightarrow> ini_list list \<Rightarrow> nat \<Rightarrow> 'c ini \<Rightarrow> (nat \<times> ini_list list \<times> 'c ini) option" where
  "ParseList_loop e idx valueList maxlen st =
     (case FindFirstChar (Some e) of
        None \<Rightarrow> None
      | Some start \<Rightarrow>
          let end = FindChar start CHR '','';
              len = (length start - length end) mod 2 ^ 16
          in if idx < length valueList
             then (case list_entry start len st of
                     None \<Rightarrow> None
                   | Some (entry, st) \<Rightarrow>
                       let valueList = valueList[idx := entry]; idx = idx + 1
                       in if idx = maxlen \<or> deref end = CHR '';'' \<or> deref end = CHR ''#'' \<or> deref end = NUL
                          then Some (idx, valueList, st)
                          else ParseList_loop (advance end) idx valueList maxlen st)
             else None)"
  by pat_completeness auto

termination
  by (relation "measure (\<lambda>(e, _). length e)")
     (auto dest!: FindFirstChar_length intro: less_le_trans FindChar_shorter)

declare ParseList_loop.simps [simp del]

definition ParseList :: "string \<Rightarrow> ini_list list \<Rightarrow> nat \<Rightarrow> 'c ini \<Rightarrow> (nat \<times> ini_list list \<times> 'c ini) option" where
  "ParseList value valueList maxlen st = ParseList_loop value 0 valueList maxlen st"

subsection \<open>The drivers against a specification by lines\<close>

text \<open>
  The specification: cut the bytes at the newlines, keep at most 127 characters of each line (and
  of those the ones before a NUL), and parse the lines in turn until one fails.
\<close>

fun split_lines :: "u8 list \<Rightarrow> u8 list list" where
  "split_lines [] = [[]]"
| "split_lines (b # bs) =
     (if b = 10 then [] # split_lines bs else (b # hd (split_lines bs)) # tl (split_lines bs))"

definition line_text :: "u8 list \<Rightarrow> string" where
  "line_text l = cstr (take (MAX_LINE_LEN - 1) (map (\<lambda>b. char_of (uint b)) l))"

fun run_lines ::
  "'c handler \<Rightarrow> ini_symbols \<Rightarrow> u32 \<Rightarrow> u8 list list \<Rightarrow> 'c ini \<Rightarrow> (u32 \<times> 'c ini) option" where
  "run_lines h section n [] st = Some (0, st)"
| "run_lines h section n (l # ls) st =
     (case ParseLine h section n (line_text l) st of
        None \<Rightarrow> None
      | Some (err, section, st) \<Rightarrow>
          if ls \<noteq> [] \<and> err = 0 then run_lines h section (n + 1) ls st else Some (err, st))"

definition run_ini :: "'c handler \<Rightarrow> u8 list \<Rightarrow> 'c ini \<Rightarrow> (u8 \<times> 'c ini) option" where
  "run_ini h bs st =
     (case run_lines h INI_UNKNOWN 1 (split_lines bs) st of
        None \<Rightarrow> None
      | Some (err, st) \<Rightarrow>
          Some (ucast err, if err = 0 then snd (h INI_UNKNOWN INI_UNKNOWN None st) else st))"

lemma split_lines_not_Nil [simp]: "split_lines bs \<noteq> []"
  by (cases bs) auto

text \<open>A source of bytes, as the drivers use one: it delivers its bytes in order and then -1.\<close>

locale byte_source =
  fixes getc :: "'s \<Rightarrow> (int \<times> 's) option"
    and remaining :: "'s \<Rightarrow> u8 list"
    and usable :: "'s \<Rightarrow> bool"
  assumes getc_end: "usable s \<Longrightarrow> remaining s = [] \<Longrightarrow> getc s = Some (-1, s)"
    and getc_byte: "usable s \<Longrightarrow> remaining s = b # bs \<Longrightarrow>
      \<exists>s'. getc s = Some (uint b, s') \<and> usable s' \<and> remaining s' = bs"
begin

text \<open>What is left after the current line, and how the line ended.\<close>

lemma skip_line_spec:
  "usable s \<Longrightarrow> 0 \<le> ch \<Longrightarrow> ch \<noteq> 10 \<Longrightarrow>
     \<exists>s'. skip_line getc ch s =
         Some (if tl (split_lines (remaining s)) = [] then -1 else 10, s') \<and> usable s' \<and>
       (tl (split_lines (remaining s)) \<noteq> [] \<longrightarrow> split_lines (remaining s') = tl (split_lines (remaining s)))"
proof (induction "remaining s" arbitrary: s ch)
  case Nil
  then show ?case using getc_end [OF Nil.prems(1)]
    by (subst skip_line.simps, simp, subst skip_line.simps, simp)
next
  case (Cons b bs)
  from getc_byte [OF Cons.prems(1) Cons.hyps(2) [symmetric]] obtain s' where
    s': "getc s = Some (uint b, s')" "usable s'" "remaining s' = bs" by blast
  have b: "uint b = 10 \<longleftrightarrow> b = 10" by (simp add: word_uint_eq_iff)
  show ?case
  proof (cases "b = 10")
    case True
    then show ?thesis using Cons.prems s' Cons.hyps(2) [symmetric]
      by (subst skip_line.simps, simp, subst skip_line.simps, simp)
  next
    case False
    with Cons.hyps(1) [of s' "uint b"] s' b show ?thesis using Cons.prems Cons.hyps(2) [symmetric]
      by (subst skip_line.simps) auto
  qed
qed

definition line_end :: "u8 list \<Rightarrow> int \<Rightarrow> 's \<Rightarrow> bool" where
  "line_end bs ch s \<longleftrightarrow> usable s \<and> ch = (if tl (split_lines bs) = [] then -1 else 10) \<and>
     (tl (split_lines bs) \<noteq> [] \<longrightarrow> split_lines (remaining s) = tl (split_lines bs))"

lemma read_chars_spec:
  "usable s \<Longrightarrow> 0 < n \<or> 0 \<le> ch \<and> ch \<noteq> 10 \<Longrightarrow> bs = remaining s \<Longrightarrow>
     \<exists>ch' s'. read_chars getc n buf ch s =
         Some (buf @ take n (map (\<lambda>b. char_of (uint b)) (hd (split_lines bs))), ch', s') \<and>
       (if length (hd (split_lines bs)) < n then line_end bs ch' s'
        else usable s' \<and> 0 \<le> ch' \<and> ch' \<noteq> 10 \<and>
             tl (split_lines (remaining s')) = tl (split_lines bs))"
proof (induction n arbitrary: s ch bs buf)
  case 0
  then show ?case by auto
next
  case (Suc n)
  show ?case
  proof (cases "bs")
    case Nil
    then show ?thesis using Suc.prems getc_end [OF Suc.prems(1)] by (simp add: line_end_def)
  next
    case (Cons b bs')
    from getc_byte [OF Suc.prems(1)] Cons Suc.prems(3) obtain s' where
      s': "getc s = Some (uint b, s')" "usable s'" "remaining s' = bs'" by metis
    have b: "uint b = 10 \<longleftrightarrow> b = 10" by (simp add: word_uint_eq_iff)
    show ?thesis
    proof (cases "b = 10")
      case True
      then show ?thesis using Cons s' by (simp add: line_end_def)
    next
      case False
      obtain l ls where l: "split_lines bs' = l # ls" by (cases "split_lines bs'") auto
      have b': "0 < n \<or> 0 \<le> uint b \<and> uint b \<noteq> 10" using False b by simp
      from Suc.IH [OF s'(2) b' s'(3) [symmetric], of "buf @ [char_of (uint b)]"] False b s' show ?thesis
        by (cases "length l < n") (auto simp: Cons l line_end_def)
    qed
  qed
qed

lemma read_line_spec:
  assumes "usable s"
  shows "\<exists>ch' s'. read_line getc ch s = Some (line_text (hd (split_lines (remaining s))), ch', s') \<and>
    line_end (remaining s) ch' s'"
proof -
  let ?bs = "remaining s"
  obtain ch1 s1 where rc: "read_chars getc (MAX_LINE_LEN - 1) [] ch s =
      Some (take (MAX_LINE_LEN - 1) (map (\<lambda>b. char_of (uint b)) (hd (split_lines ?bs))), ch1, s1)"
    and alt: "if length (hd (split_lines ?bs)) < MAX_LINE_LEN - 1 then line_end ?bs ch1 s1
        else usable s1 \<and> 0 \<le> ch1 \<and> ch1 \<noteq> 10 \<and> tl (split_lines (remaining s1)) = tl (split_lines ?bs)"
    using read_chars_spec [OF assms, of "MAX_LINE_LEN - 1" ch ?bs "[]"] by auto
  have "\<exists>ch' s'. skip_line getc ch1 s1 = Some (ch', s') \<and> line_end ?bs ch' s'"
  proof (cases "length (hd (split_lines ?bs)) < MAX_LINE_LEN - 1")
    case True
    with alt show ?thesis by (subst skip_line.simps) (auto simp: line_end_def)
  next
    case False
    with alt skip_line_spec [of s1 ch1] show ?thesis by (auto simp: line_end_def)
  qed
  then show ?thesis using rc by (auto simp: read_line_def line_text_def)
qed

lemma parse_lines_spec:
  "usable s \<Longrightarrow>
     map_option (\<lambda>(err, s, st). (err, st)) (parse_lines getc h sec0 n ch s st)
     = run_lines h sec0 n (split_lines (remaining s)) st"
proof (induction "length (split_lines (remaining s))" arbitrary: s sec0 n ch st rule: less_induct)
  case less
  obtain l ls where l: "split_lines (remaining s) = l # ls" by (cases "split_lines (remaining s)") auto
  from read_line_spec [OF less.prems, of ch] obtain ch' s' where
    r: "read_line getc ch s = Some (line_text l, ch', s')" "line_end (remaining s) ch' s'"
    by (auto simp: l)
  show ?case
  proof (cases "ParseLine h sec0 n (line_text l) st")
    case None
    with r show ?thesis by (subst parse_lines.simps) (simp add: l)
  next
    case (Some x)
    obtain err sec st' where x: "x = (err, sec, st')" by (cases x)
    show ?thesis
    proof (cases "ls \<noteq> [] \<and> err = 0")
      case True
      then have "split_lines (remaining s') = ls" "usable s'" "ch' = 10"
        using r(2) by (auto simp: line_end_def l)
      with less.hyps [of s' sec "n + 1" ch' st'] True Some x r show ?thesis
        by (subst parse_lines.simps) (simp add: l)
    next
      case False
      with Some x r show ?thesis
        by (subst parse_lines.simps) (auto simp: l line_end_def)
    qed
  qed
qed

lemma parse_ini_spec:
  assumes "usable s"
  shows "map_option (\<lambda>(err, s, st). (err, st)) (parse_ini getc h s st) = run_ini h (remaining s) st"
  using parse_lines_spec [OF assms, of h INI_UNKNOWN 1 0 st]
  by (cases "parse_lines getc h INI_UNKNOWN 1 0 s st")
     (auto simp: parse_ini_def run_ini_def split: option.splits)

end

text \<open>Both the file and the string are such sources.\<close>

interpretation file_source: byte_source FF_GetC "\<lambda>f. drop (fptr f) (content f)" healthy
proof
  fix f :: FIL assume h: "healthy f"
  show "drop (fptr f) (content f) = [] \<Longrightarrow> FF_GetC f = Some (-1, f)"
    using FF_GetC_healthy [OF h] by simp
  fix b bs assume d: "drop (fptr f) (content f) = b # bs"
  then have "fptr f < f_size f" by (metis drop_all f_size_def list.simps(3) not_le)
  then have "healthy (f\<lparr>fptr := fptr f + 1\<rparr>)" using h by simp
  moreover have "drop (fptr f + 1) (content f) = bs" using d by (metis Suc_eq_plus1 drop_Suc tl_drop list.sel(3))
  ultimately show "\<exists>f'. FF_GetC f = Some (uint b, f') \<and> healthy f' \<and> drop (fptr f') (content f') = bs"
    using FF_GetC_healthy [OF h] d by simp
qed

interpretation string_source: byte_source str_getc "\<lambda>str. str" "\<lambda>_. True"
  by unfold_locales (auto simp: str_getc_def)

text \<open>
  C20. Parsing an INI file and parsing the same bytes from memory give the same result: both
  driver loops end and do what the specification by lines says.
\<close>

theorem ParseIni_equivalence:
  assumes "healthy pFile"
  shows "map_option (\<lambda>(err, s, st). (err, st)) (ParseIni pFile h st)
           = run_ini h (drop (fptr pFile) (content pFile)) st
       \<and> map_option (\<lambda>(err, s, st). (err, st)) (ParseIniFromString str h st) = run_ini h str st"
  unfolding ParseIni_def ParseIniFromString_def
  using file_source.parse_ini_spec [OF assms] string_source.parse_ini_spec [OF TrueI] by blast

theorem ParseIni_equivalence_witness:
  "map_option (\<lambda>(err, s, st). (err, st))
     (ParseIni (test_file [91, 83, 69, 84, 85, 80, 93, 10, 59]) (\<lambda>sec t v st. (0, st\<lparr>config := config st @ [(sec, t)]\<rparr>))
       \<lparr>s_ValueBuffer = [], s_CurrentValueOffset = 5, ini_msgs = [], config = []\<rparr>)
   = Some (0, \<lparr>s_ValueBuffer = [], s_CurrentValueOffset = 0, ini_msgs = [],
              config = [(INI_SETUP, INI_UNKNOWN), (INI_UNKNOWN, INI_UNKNOWN)]\<rparr>)"
proof -
  have *: "run_ini (\<lambda>sec t v st. (0, st\<lparr>config := config st @ [(sec, t)]\<rparr>)) [91, 83, 69, 84, 85, 80, 93, 10, 59]
      \<lparr>s_ValueBuffer = [], s_CurrentValueOffset = 5, ini_msgs = [], config = []\<rparr>
    = Some (0, \<lparr>s_ValueBuffer = [], s_CurrentValueOffset = 0, ini_msgs = [],
              config = [(INI_SETUP, INI_UNKNOWN), (INI_UNKNOWN, INI_UNKNOWN)]\<rparr>)"
    by code_simp
  show ?thesis
    by (subst ParseIni_equivalence [THEN conjunct1]) (simp_all only: test_file_ok drop_0 simp_thms *)
qed

subsection \<open>Entry lines\<close>

lemma find_symbol_split:
  assumes "tab = pre @ e # post" "\<forall>x\<in>set pre. token x \<noteq> INI_UNKNOWN \<and> strcasecmp (keyword x) name \<noteq> 0"
    "strcasecmp (keyword e) name = 0"
  shows "find_symbol tab name = e"
  using assms by (induction pre arbitrary: tab) auto

definition ini_keys :: "ini_symtab list" where
  "ini_keys = take 35 symtab"

definition keyword_chars :: string where
  "keyword_chars = ''ABCDEFGHIJKLMNOPQRSTUVWXYZ_''"

lemma symtab_keywords: "symtab = ini_keys @ drop 35 symtab"
  by (simp add: ini_keys_def)

lemma keywords_table:
  "distinct (map keyword ini_keys)"
  "list_all (\<lambda>e. token e \<noteq> INI_UNKNOWN \<and> keyword e \<noteq> [] \<and> list_all (\<lambda>c. c \<in> set keyword_chars) (keyword e)) ini_keys"
  by (simp_all add: ini_keys_def symtab_def keyword_chars_def)

lemma ini_keys_entry:
  assumes "e \<in> set ini_keys"
  shows "token e \<noteq> INI_UNKNOWN" "keyword e \<noteq> []" "c \<in> set (keyword e) \<Longrightarrow> c \<in> set keyword_chars"
  using assms keywords_table(2) unfolding list_all_iff by blast+

definition plain_char :: "char \<Rightarrow> bool" where
  "plain_char c \<longleftrightarrow> \<not> isspace c \<and> c \<noteq> CHR ''='' \<and> c \<noteq> CHR '';'' \<and> c \<noteq> CHR ''#'' \<and> c \<noteq> CHR ''['' \<and> c \<noteq> NUL"

lemma keyword_chars_lower: "map tolower keyword_chars = ''abcdefghijklmnopqrstuvwxyz_''"
  by code_simp

lemma lower_chars_plain: "list_all plain_char ''abcdefghijklmnopqrstuvwxyz_''"
  by code_simp

lemma isupper_plain:
  assumes "isupper c"
  shows "plain_char c"
proof -
  have "\<not> isupper CHR 0x09" "\<not> isupper CHR 0x0A" "\<not> isupper CHR 0x0B" "\<not> isupper CHR 0x0C"
    "\<not> isupper CHR 0x0D" "\<not> isupper CHR '' ''" "\<not> isupper CHR ''=''" "\<not> isupper CHR '';''"
    "\<not> isupper CHR ''#''" "\<not> isupper CHR ''[''" "\<not> isupper NUL"
    by code_simp+
  with assms show ?thesis unfolding plain_char_def isspace_def by metis
qed

lemma tolower_not_plain: "\<not> plain_char c \<Longrightarrow> tolower c = c"
  using isupper_plain by (auto simp: tolower_def)

lemma keyword_char_cases:
  assumes "e \<in> set ini_keys" "map tolower name = map tolower (keyword e)" "c \<in> set name"
  shows "plain_char c"
proof -
  have "tolower c \<in> tolower ` set (keyword e)"
    using assms(2,3) by (metis image_eqI list.set_map)
  then obtain d where d: "d \<in> set (keyword e)" "tolower c = tolower d" by blast
  have "plain_char (tolower d)"
    using lower_chars_plain ini_keys_entry(3) [OF assms(1) d(1)]
    unfolding keyword_chars_lower [symmetric] list_all_iff by simp
  then show ?thesis using tolower_not_plain [of c] d(2) by metis
qed

lemma ini_keys_inj:
  assumes "x \<in> set ini_keys" "y \<in> set ini_keys" "map tolower (keyword x) = map tolower (keyword y)"
  shows "keyword x = keyword y"
proof (rule map_inj_on [OF assms(3)])
  have "distinct (map tolower keyword_chars)" unfolding keyword_chars_lower by simp
  then have "inj_on tolower (set keyword_chars)" by (simp add: distinct_map)
  moreover have "set (keyword x) \<union> set (keyword y) \<subseteq> set keyword_chars"
    using ini_keys_entry(3) assms(1,2) by blast
  ultimately show "inj_on tolower (set (keyword x) \<union> set (keyword y))" by (rule inj_on_subset)
qed

lemma find_symbol_keyword:
  assumes "e \<in> set ini_keys" "map tolower name = map tolower (keyword e)"
  shows "find_symbol symtab name = e"
proof -
  obtain pre post where split: "ini_keys = pre @ e # post" using assms(1) by (auto simp: in_set_conv_decomp)
  have cname: "is_cstr name" using keyword_char_cases [OF assms] unfolding is_cstr_def plain_char_def by blast
  have ckey: "is_cstr (keyword x)" if "x \<in> set ini_keys" for x
    using keyword_char_cases [OF that refl] unfolding is_cstr_def plain_char_def by blast
  show ?thesis
  proof (rule find_symbol_split)
    show "symtab = pre @ e # post @ drop 35 symtab"
      using symtab_keywords unfolding split by simp
    show "strcasecmp (keyword e) name = 0"
      using strcasecmp_eq_0 [OF ckey [OF assms(1)] cname] assms(2) by simp
    show "\<forall>x\<in>set pre. token x \<noteq> INI_UNKNOWN \<and> strcasecmp (keyword x) name \<noteq> 0"
    proof
      fix x assume x: "x \<in> set pre"
      then have k: "x \<in> set ini_keys" by (simp add: split)
      have "distinct (map keyword pre @ keyword e # map keyword post)"
        using keywords_table(1) unfolding split by simp
      then have "keyword e \<notin> keyword ` set pre"
        by (metis distinct_append distinct.simps(2) disjoint_iff list.set_intros(1) list.set_map)
      then have "keyword x \<noteq> keyword e" using x by (metis imageI)
      then have "map tolower (keyword x) \<noteq> map tolower (keyword e)"
        using ini_keys_inj k assms(1) by blast
      then have "strcasecmp (keyword x) name \<noteq> 0"
        unfolding strcasecmp_eq_0 [OF ckey [OF k] cname] assms(2) .
      with ini_keys_entry(1) [OF k] show "token x \<noteq> INI_UNKNOWN \<and> strcasecmp (keyword x) name \<noteq> 0"
        by blast
    qed
  qed
qed

definition blank :: "string \<Rightarrow> bool" where
  "blank ws \<longleftrightarrow> (\<forall>c\<in>set ws. isspace c)"

lemma dropWhile_blank: "blank ws \<Longrightarrow> \<not> isspace (deref s) \<Longrightarrow> dropWhile isspace (ws @ s) = s"
  by (induction ws) (auto simp: blank_def dropWhile_eq_self_iff deref_def split: list.splits)

lemma Strip_blank: "blank ws \<Longrightarrow> s \<noteq> [] \<Longrightarrow> \<not> isspace (last s) \<Longrightarrow> StripTrailingSpaces (s @ ws) = s"
proof -
  assume a: "blank ws" "s \<noteq> []" "\<not> isspace (last s)"
  then have "deref (rev s) = last s" by (cases s rule: rev_cases) auto
  with a have "dropWhile isspace (rev ws @ rev s) = rev s"
    by (intro dropWhile_blank) (auto simp: blank_def)
  then show ?thesis by (simp add: StripTrailingSpaces_def)
qed

lemma last_nonspace_last: "\<not> isspace (s ! i) \<Longrightarrow> last_nonspace s i = i"
  by (cases i) auto

lemma FindChar_skip:
  "(\<forall>x\<in>set s. x \<noteq> c \<and> x \<noteq> CHR '';'' \<and> x \<noteq> CHR ''#'') \<Longrightarrow> FindChar (s @ c # t) c = c # t"
  unfolding FindChar_def by (simp add: dropWhile_append2)

text \<open>
  C36. An entry line is parsed as its keyword and value whatever the blanks around the keyword,
  the equals sign and the value, and whatever the case of the keyword.  The handler gets the
  token and the value without the surrounding blanks (a comment in the value is kept), after the
  list buffer has been reset, and its status decides whether the line number is returned.
\<close>

theorem ParseLine_entry:
  assumes "e \<in> set ini_keys" and "\<not> is_section e" and "map tolower name = map tolower (keyword e)"
    and "blank ws1" and "blank ws2" and "blank ws3" and "blank ws4"
    and "v \<noteq> []" and "\<not> isspace (hd v)" and "\<not> isspace (last v)"
    and "parseHandle sect (token e) (Some v) (FreeList st) = (r, st')"
  shows "ParseLine parseHandle sect n (ws1 @ name @ ws2 @ CHR ''='' # ws3 @ v @ ws4) st
           = Some (if r \<noteq> 0 then n else 0, sect, st')"
proof -
  note chars = keyword_char_cases [OF assms(1,3)]
  obtain c cs where name: "name = c # cs"
    using assms(3) ini_keys_entry(2) [OF assms(1)] by (cases name) auto
  let ?line = "ws1 @ name @ ws2 @ CHR ''='' # ws3 @ v"
  have strip: "StripTrailingSpaces (?line @ ws4) = ?line"
    using assms(7,8,10) by (intro Strip_blank) auto
  have start: "FindFirstChar (Some ?line) = Some (name @ ws2 @ CHR ''='' # ws3 @ v)"
    using dropWhile_blank [OF assms(4), of "name @ ws2 @ CHR ''='' # ws3 @ v"] chars [of c]
    by (simp add: FindFirstChar_def name plain_char_def)
  have "\<forall>x\<in>set (cs @ ws2). x \<noteq> CHR ''='' \<and> x \<noteq> CHR '';'' \<and> x \<noteq> CHR ''#''"
  proof
    fix x assume "x \<in> set (cs @ ws2)"
    then consider "x \<in> set name" | "isspace x" using assms(5) by (auto simp: name blank_def)
    then show "x \<noteq> CHR ''='' \<and> x \<noteq> CHR '';'' \<and> x \<noteq> CHR ''#''"
      by cases (use chars in \<open>auto simp: plain_char_def isspace_def\<close>)
  qed
  then have fc: "FindChar (advance (name @ ws2 @ CHR ''='' # ws3 @ v)) CHR ''='' = CHR ''='' # ws3 @ v"
    using FindChar_skip [of "cs @ ws2" "CHR ''=''" "ws3 @ v"] by (simp add: name)
  have nm: "StripTrailingSpaces (name @ ws2) = name"
    using chars [of "last name"] assms(5) name by (intro Strip_blank) (simp_all add: plain_char_def)
  have val: "FindFirstChar (Some (ws3 @ v)) = Some v"
    using dropWhile_blank [OF assms(6), of v] assms(8,9) by (cases v) (auto simp: FindFirstChar_def)
  have lastc: "take (nat (FindLastChar v (length v) + 1)) v = v"
    using assms(8,10) last_nonspace_last [of v "length v - 1"]
    by (simp add: FindLastChar_def last_conv_nth)
  have tok: "find_symbol symtab name = e" "token e \<noteq> INI_UNKNOWN"
    using find_symbol_keyword [OF assms(1,3)] ini_keys_entry(1) [OF assms(1)] by simp_all
  have "parse_entry parseHandle sect n (name @ ws2 @ CHR ''='' # ws3 @ v) (FreeList st)
      = Some (if r \<noteq> 0 then n else 0, sect, st')"
    using fc nm val lastc tok assms(2,11) by (simp add: parse_entry_def Let_def)
  moreover have "c \<noteq> CHR ''['' \<and> c \<noteq> NUL \<and> c \<noteq> CHR '';'' \<and> c \<noteq> CHR ''#''"
    using chars [of c] by (simp add: name plain_char_def)
  ultimately show ?thesis using strip start by (simp add: ParseLine_def name)
qed

theorem ParseLine_entry_witness:
  "ParseLine (\<lambda>sec t v st. (if sec = INI_SETUP \<and> t = INI_CLOCK \<and> v = Some ''1 2;x'' then 0 else 1, st)) INI_SETUP 7
     ''  Clock =  1 2;x '' \<lparr>s_ValueBuffer = [], s_CurrentValueOffset = 0, ini_msgs = [], config = ()\<rparr>
   = Some (0, INI_SETUP, \<lparr>s_ValueBuffer = [], s_CurrentValueOffset = 0, ini_msgs = [], config = ()\<rparr>)"
proof -
  have e: "sym ''CLOCK'' INI_CLOCK False \<in> set ini_keys" by (simp add: ini_keys_def symtab_def)
  have n: "map tolower ''Clock'' = map tolower ''CLOCK''" by code_simp
  show ?thesis
    using ParseLine_entry [OF e, of "''Clock''" "''  ''" "'' ''" "''  ''" "'' ''" "''1 2;x''"
        "\<lambda>sec t v st. (if sec = INI_SETUP \<and> t = INI_CLOCK \<and> v = Some ''1 2;x'' then 0 else 1, st)" INI_SETUP
        "\<lparr>s_ValueBuffer = [], s_CurrentValueOffset = 0, ini_msgs = [], config = ()\<rparr>"] n
    by (simp add: blank_def isspace_def FreeList_def)
qed

text \<open>Empty lines are skipped and counted.\<close>

lemma run_lines_empty:
  "ls \<noteq> [] \<Longrightarrow> s_CurrentValueOffset st = 0 \<Longrightarrow>
     run_lines h sect n (replicate k [] @ ls) st = run_lines h sect (n + of_nat k) ls st"
proof (induction k arbitrary: n)
  case (Suc k)
  have "ParseLine h sect n (line_text []) st = Some (0, sect, st)"
    using Suc.prems(2)
    by (simp add: ParseLine_def line_text_def cstr_def StripTrailingSpaces_def FindFirstChar_def FreeList_def)
  with Suc show ?case by (simp add: add.assoc)
qed simp

lemma split_lines_empty: "split_lines (replicate k 10 @ bs) = replicate k [] @ split_lines bs"
  by (induction k) auto

text \<open>
  C37. The drivers return the failing line number in a byte: an error on line 256 is reported as
  success, and the handler is not told that the file has ended.  Here the line is a section
  header without its closing bracket.
\<close>

theorem ParseIni_line_256:
  assumes "s_CurrentValueOffset st = 0"
  shows "\<exists>s. ParseIniFromString (replicate 255 10 @ [91]) h st = Some (0, s, st)"
proof -
  have c: "char_of (91 :: int) = CHR ''[''" by code_simp
  have "run_lines h INI_UNKNOWN 1 (split_lines (replicate 255 10 @ [91])) st = Some (256, st)"
    using assms by (simp add: split_lines_empty run_lines_empty ParseLine_def line_text_def cstr_def
        StripTrailingSpaces_def FindFirstChar_def FreeList_def isspace_def parse_section_def FindChar_def c)
  then have "run_ini h (replicate 255 10 @ [91]) st = Some (0, st)" by (simp add: run_ini_def)
  with string_source.parse_ini_spec [where s = "replicate 255 10 @ [91]" and h = h and st = st]
  show ?thesis by (auto simp: ParseIniFromString_def)
qed

theorem ParseIni_line_256_witness:
  "\<exists>s. ParseIniFromString (replicate 255 10 @ [91]) (\<lambda>sec t v st. (0, st\<lparr>config := True\<rparr>))
     \<lparr>s_ValueBuffer = [], s_CurrentValueOffset = 0, ini_msgs = [], config = False\<rparr>
   = Some (0, s, \<lparr>s_ValueBuffer = [], s_CurrentValueOffset = 0, ini_msgs = [], config = False\<rparr>)"
  by (rule ParseIni_line_256) simp


end
