(* ===== verification/Drive.thy ===== *)
theory Drive
  imports StringLight Files
begin

text \<open>
  The file channel of \<open>fileio.c\<close> (\<open>FileIO_FCh_*\<close>): the drive records with the descriptors of the
  four drivers, the channel's status and data primitives, and the status operations of a drive.
  The operations that dispatch to a driver are in the theory of the whole channel.

  \<open>fch_handle\<close>, two channels with four drives each, is a list of lists.  The two halves of a C
  function that would dereference a null file or descriptor pointer are \<open>None\<close>.
\<close>

subsection \<open>Descriptors\<close>

record drv00_desc =
  file_size00 :: u32

datatype drv01_format = XXX01 | ADF | SCP

record scp_tlo =
  index_time :: u32
  track_length :: u32
  track_offset :: u32

record scp_track_header =
  trk_id :: "u8 list"
  track_number :: u8
  tlo :: "scp_tlo list"

record drv01_desc =
  format01 :: drv01_format
  file_size01 :: u32
  total_tracks :: u16
  cur_sector :: u8
  scp_start_track :: u8
  scp_end_track :: u8
  scp_revolutions :: u8
  scp_cur_track :: u8
  scp_cur_track_header_addr :: u32
  scp_cur_track_header :: scp_track_header
  scp_cur_track_rev :: u8
  scp_cur_track_offset :: u32

datatype drv02_format = XXX02 | RAW | UEF

record drv02_desc =
  format02 :: drv02_format
  file_size02 :: u32

datatype drv08_format = XXX08 | HDF | HDF_NAKED | MMC | ISO

text \<open>The rigid disk block area \<open>hdf_rdb\<close> is its three blocks of 512 bytes.\<close>

record drv08_desc =
  format08 :: drv08_format
  file_size08 :: u64
  cylinders :: u16
  heads :: u16
  sectors :: u16
  sectors_per_block :: u16
  index :: "u32 list"
  index_size :: u32
  mru_lba :: u32
  mru_cluster :: u32
  hdf_rdb :: "u8 list list"
  hdf_dostype :: u32
  lba_offset :: u32

datatype desc = Desc00 drv00_desc | Desc01 drv01_desc | Desc02 drv02_desc | Desc08 drv08_desc

record fch =
  status :: u8
  fSource :: "FIL option"
  pDesc :: "desc option"
  fch_name :: string

type_synonym handles = "fch list list"

abbreviation FCH_MAX_NUM :: nat where
  "FCH_MAX_NUM \<equiv> 4"

abbreviation FILEIO_STAT_INSERTED :: u8 where "FILEIO_STAT_INSERTED \<equiv> 0x01"
abbreviation FILEIO_STAT_READONLY :: u8 where "FILEIO_STAT_READONLY \<equiv> 0x02"
abbreviation FILEIO_STAT_PROTECTED :: u8 where "FILEIO_STAT_PROTECTED \<equiv> 0x04"
abbreviation FILEIO_STAT_READONLY_OR_PROTECTED :: u8 where "FILEIO_STAT_READONLY_OR_PROTECTED \<equiv> 0x06"

abbreviation FILEIO_REQ_ACT :: u8 where "FILEIO_REQ_ACT \<equiv> 0x08"
abbreviation FILEIO_REQ_OK_FM_ARM :: u8 where "FILEIO_REQ_OK_FM_ARM \<equiv> 0x02"
abbreviation FILEIO_REQ_OK_TO_ARM :: u8 where "FILEIO_REQ_OK_TO_ARM \<equiv> 0x01"

abbreviation FCH_CMD_STAT_R :: u8 where "FCH_CMD_STAT_R \<equiv> 0x00"
abbreviation FCH_CMD_STAT_W :: u8 where "FCH_CMD_STAT_W \<equiv> 0x08"
abbreviation FCH_CMD_CMD_W :: u8 where "FCH_CMD_CMD_W \<equiv> 0x10"
abbreviation FCH_CMD_CMD_R :: u8 where "FCH_CMD_CMD_R \<equiv> 0x18"
abbreviation FCH_CMD_FIFO_R :: u8 where "FCH_CMD_FIFO_R \<equiv> 0x20"
abbreviation FCH_CMD_FIFO_W :: u8 where "FCH_CMD_FIFO_W \<equiv> 0x30"

abbreviation FILEIO_PROCESS_LIMIT :: nat where "FILEIO_PROCESS_LIMIT \<equiv> 8"

subsection \<open>Channel primitives\<close>

definition FCH_CMD :: "nat \<Rightarrow> u8 \<Rightarrow> u8" where
  "FCH_CMD ch cmd = (if ch = 0 then cmd else cmd + 0x40)"

definition FCh_GetStat :: "nat \<Rightarrow> world \<Rightarrow> u8 \<times> world" where
  "FCh_GetStat ch w = fileio_query (FCH_CMD ch FCH_CMD_STAT_R) w"

definition FCh_WriteStat :: "nat \<Rightarrow> u8 \<Rightarrow> world \<Rightarrow> world" where
  "FCh_WriteStat ch stat w = fileio_cmd [FCH_CMD ch FCH_CMD_STAT_W, stat] w"

definition FCh_WaitStat :: "nat \<Rightarrow> u8 \<Rightarrow> u8 \<Rightarrow> world \<Rightarrow> (u8 \<times> world) option" where
  "FCh_WaitStat ch msk wanted w =
     WaitStat (FCH_CMD ch FCH_CMD_STAT_R) ''FCh:Waitstat timeout.'' 500 msk wanted w"

text \<open>Writing a buffer to the channel's FIFO, and reading one from it.\<close>

definition FCh_fifo_write :: "nat \<Rightarrow> u8 list \<Rightarrow> world \<Rightarrow> world" where
  "FCh_fifo_write ch buf w =
     SPI_DisableFileIO (SPI_WriteBufferSingle buf (snd (rSPI (FCH_CMD ch FCH_CMD_FIFO_W) (SPI_EnableFileIO w))))"

definition FCh_fifo_read :: "nat \<Rightarrow> u8 list \<Rightarrow> world \<Rightarrow> u8 list \<times> world" where
  "FCh_fifo_read ch buf w =
     (let (bs, w) = SPI_ReadBufferSingle buf (snd (rSPI (FCH_CMD ch FCH_CMD_FIFO_R) (SPI_EnableFileIO w)))
      in (bs, SPI_DisableFileIO w))"

text \<open>Reading the parameters of a request: one dummy byte and then \<open>n\<close> bytes.\<close>

definition FCh_cmd_read :: "nat \<Rightarrow> nat \<Rightarrow> world \<Rightarrow> u8 list \<times> world" where
  "FCh_cmd_read ch n w =
     (let (bs, w) = SPI_ReadBufferSingle (replicate n 0)
                      (snd (rSPI 0x00 (snd (rSPI (FCH_CMD ch FCH_CMD_CMD_R) (SPI_EnableFileIO w)))))
      in (bs, SPI_DisableFileIO w))"

text \<open>
  \<open>fifo_direct\<close>: the card streams a part of the file into the FIFO.  The result is the number of
  bytes read.
\<close>

definition fifo_direct :: "nat \<Rightarrow> FIL \<Rightarrow> u32 \<Rightarrow> world \<Rightarrow> (nat \<times> FIL \<times> world) option" where
  "fifo_direct ch pFile n w =
     (let w = SPI_EnableFileIO w;
          w = snd (rSPI (FCH_CMD ch FCH_CMD_FIFO_W) w);
          w = SPI_EnableDirect w;
          w = SPI_DisableFileIO w
      in do { (bytes_r, pFile, w) \<leftarrow> FF_ReadDirect pFile n 1 w;
              Some (bytes_r, pFile, SPI_DisableDirect w) })"

definition FileReadSendDirect :: "nat \<Rightarrow> fch \<Rightarrow> u32 \<Rightarrow> world \<Rightarrow> (fch \<times> world) option" where
  "FileReadSendDirect ch pDrive n w =
     (case fSource pDrive of
        None \<Rightarrow> None
      | Some pFile \<Rightarrow>
          do { (_, pFile, w) \<leftarrow> fifo_direct ch pFile n w; Some (pDrive\<lparr>fSource := Some pFile\<rparr>, w) })"

subsection \<open>The status of a drive\<close>

definition drive :: "handles \<Rightarrow> nat \<Rightarrow> nat \<Rightarrow> fch" where
  "drive h ch d = h ! ch ! d"

definition set_drive :: "handles \<Rightarrow> nat \<Rightarrow> nat \<Rightarrow> fch \<Rightarrow> handles" where
  "set_drive h ch d x = h[ch := (h ! ch)[d := x]]"

definition FCh_GetInserted :: "handles \<Rightarrow> nat \<Rightarrow> nat \<Rightarrow> u8" where
  "FCh_GetInserted h ch d = status (drive h ch d) AND FILEIO_STAT_INSERTED"

definition FCh_GetReadOnly :: "handles \<Rightarrow> nat \<Rightarrow> nat \<Rightarrow> bool" where
  "FCh_GetReadOnly h ch d =
     (if status (drive h ch d) AND FILEIO_STAT_INSERTED \<noteq> 0
      then (if status (drive h ch d) AND FILEIO_STAT_READONLY \<noteq> 0 then True else False)
      else False)"

definition FCh_GetProtect :: "handles \<Rightarrow> nat \<Rightarrow> nat \<Rightarrow> bool" where
  "FCh_GetProtect h ch d =
     (if status (drive h ch d) AND FILEIO_STAT_INSERTED \<noteq> 0
      then (if status (drive h ch d) AND FILEIO_STAT_READONLY \<noteq> 0 then True
            else if status (drive h ch d) AND FILEIO_STAT_PROTECTED \<noteq> 0 then True else False)
      else False)"

definition FCh_GetName :: "handles \<Rightarrow> nat \<Rightarrow> nat \<Rightarrow> string" where
  "FCh_GetName h ch d = fch_name (drive h ch d)"

text \<open>Two channels with four drives each.\<close>

definition handles_ok :: "handles \<Rightarrow> bool" where
  "handles_ok h \<longleftrightarrow> length h = 2 \<and> (\<forall>c\<in>set h. length c = FCH_MAX_NUM)"

lemma drive_set_drive:
  "handles_ok h \<Longrightarrow> ch < 2 \<Longrightarrow> d < 4 \<Longrightarrow>
     drive (set_drive h ch d x) ch' d' = (if ch' = ch \<and> d' = d then x else drive h ch' d')"
  by (auto simp: drive_def set_drive_def handles_ok_def nth_list_update)

lemma handles_ok_set_drive: "handles_ok h \<Longrightarrow> handles_ok (set_drive h ch d x)"
proof (cases "ch < length h")
  case True
  assume ok: "handles_ok h"
  with True have "length (h ! ch) = 4" by (auto simp: handles_ok_def)
  with ok show ?thesis by (auto simp: handles_ok_def set_drive_def dest: set_update_subset_insert [THEN subsetD])
qed (simp add: set_drive_def list_update_beyond)

subsection \<open>What the primitives send\<close>

lemma FCH_CMD_simps [simp]: "FCH_CMD ch a = FCH_CMD ch b \<longleftrightarrow> a = b"
  by (simp add: FCH_CMD_def)

lemma FCh_GetStat_sends: "cmd \<noteq> FCH_CMD ch 0 \<Longrightarrow> sends cmd w (snd (FCh_GetStat ch w)) []"
  using sends_fileio_query [of cmd w "FCH_CMD ch 0"] by (simp add: FCh_GetStat_def)

lemma FCh_WriteStat_sends:
  "sends cmd w (FCh_WriteStat ch s w) (if FCH_CMD ch 0x08 = cmd then [s] else [])"
  using sends_fileio_cmd [of cmd w "FCH_CMD ch 0x08" "[s]"] by (simp add: FCh_WriteStat_def)

lemma sends_WriteStat:
  "sends (FCH_CMD ch c) w w1 bs \<Longrightarrow> sends (FCH_CMD ch c) w (FCh_WriteStat ch s w1) (bs @ (if c = 0x08 then [s] else []))"
  using sends_trans [OF _ FCh_WriteStat_sends [of "FCH_CMD ch c" w1 ch s]] by simp

lemma FCh_WaitStat_sends:
  "FCh_WaitStat ch msk wanted w = Some (r, w') \<Longrightarrow> cmd \<noteq> FCH_CMD ch 0 \<Longrightarrow> sends cmd w w' []"
  unfolding FCh_WaitStat_def by (rule WaitStat_sends(2))

lemma FCh_WaitStat_returns: "ticking (elapsed w) \<Longrightarrow> \<exists>r w'. FCh_WaitStat ch msk wanted w = Some (r, w')"
  unfolding FCh_WaitStat_def by (rule WaitStat_returns) simp_all

lemma FCh_fifo_write_sends:
  "sends cmd w (FCh_fifo_write ch buf w) (if FCH_CMD ch 0x30 = cmd then buf else [])"
  using sends_fileio_cmd [of cmd w "FCH_CMD ch 0x30" buf]
  by (simp add: FCh_fifo_write_def fileio_cmd_def SPI_WriteBufferSingle_def)

lemma FCh_cmd_read_sends: "cmd \<noteq> FCH_CMD ch 0x18 \<Longrightarrow> sends cmd w (snd (FCh_cmd_read ch n w)) []"
proof -
  assume c: "cmd \<noteq> FCH_CMD ch 0x18"
  let ?es = "[Enable PortFileIO] @ map Xfer (FCH_CMD ch 0x18 # 0 # replicate n 0) @ [Disable PortFileIO]"
  have "runs w (snd (FCh_cmd_read ch n w)) ?es"
    by (simp add: FCh_cmd_read_def case_prod_beta runs_def extends_def SPI_EnableFileIO_def SPI_DisableFileIO_def
        foldl_map [symmetric] del: map_replicate)
  then show ?thesis unfolding sends_def using received_fileio_cmd c by metis
qed

lemma length_FCh_cmd_read [simp]: "length (fst (FCh_cmd_read ch n w)) = n"
  by (simp add: FCh_cmd_read_def case_prod_beta)

lemma SPI_ReadBufferSingle_replies:
  "fst (SPI_ReadBufferSingle bs w) =
     map (\<lambda>i. reply w (trace w @ map Xfer (take (Suc i) bs))) [0..<length bs]"
proof (induction bs arbitrary: w)
  case (Cons b bs)
  have "[0..<length (b # bs)] = 0 # map Suc [0..<length bs]"
    by (simp add: map_Suc_upt upt_conv_Cons del: upt_Suc)
  with Cons show ?case by (simp add: Let_def case_prod_beta)
qed simp

lemma FCh_fifo_read_sends:
  "sends cmd w (snd (FCh_fifo_read ch buf w)) (if FCH_CMD ch 0x20 = cmd then buf else [])"
proof -
  let ?es = "[Enable PortFileIO] @ map Xfer (FCH_CMD ch 0x20 # buf) @ [Disable PortFileIO]"
  have "runs w (snd (FCh_fifo_read ch buf w)) ?es"
    by (simp add: FCh_fifo_read_def case_prod_beta runs_def extends_def SPI_EnableFileIO_def SPI_DisableFileIO_def)
  then show ?thesis unfolding sends_def using received_fileio_cmd by blast
qed

lemma FCh_fifo_read_gets:
  "gets (FCH_CMD ch 0x20) w (snd (FCh_fifo_read ch buf w)) (fst (FCh_fifo_read ch buf w))"
proof -
  let ?es = "[Enable PortFileIO] @ map Xfer (FCH_CMD ch 0x20 # buf) @ [Disable PortFileIO]"
  have "runs w (snd (FCh_fifo_read ch buf w)) ?es"
    by (simp add: FCh_fifo_read_def case_prod_beta runs_def extends_def SPI_EnableFileIO_def SPI_DisableFileIO_def)
  moreover have "fetched (reply w) (FCH_CMD ch 0x20) Idle (trace w) ?es = fst (FCh_fifo_read ch buf w)"
    by (simp add: FCh_fifo_read_def case_prod_beta SPI_ReadBufferSingle_replies fetched_append SPI_EnableFileIO_def)
  ultimately show ?thesis unfolding gets_def by blast
qed

lemma length_FCh_fifo_read [simp]: "length (fst (FCh_fifo_read ch buf w)) = length buf"
  by (simp add: FCh_fifo_read_def case_prod_beta)

text \<open>A direct transfer delivers the bytes of the file at its pointer.\<close>

lemma fifo_direct_sends:
  assumes "fifo_direct ch f n w = Some (k, f', w')" "fptr f \<le> f_size f"
  shows "sends cmd w w' (if FCH_CMD ch 0x30 = cmd then take k (drop (fptr f) (content f)) else [])"
    and "content f' = content f" "fptr f' = fptr f + k" "k \<le> unat n" "fptr f' \<le> f_size f'"
proof -
  obtain dat f1 where rd: "FF_Read f n 1 = (dat, f1)" by (cases "FF_Read f n 1")
  note r = f_read_cases [of f "unat n" "fst (f_read f (unat n))" dat f1]
  have r': "dat = take (length dat) (drop (fptr f) (content f))" "length dat \<le> unat n"
    "content f1 = content f" "fptr f1 = fptr f + length dat" "fptr f1 \<le> f_size f1"
    using r rd assms(2) by (auto simp: FF_Read_def prod_eq_iff)
  from assms(1) rd have eq: "k = length dat" "f' = f1"
    by (auto simp: fifo_direct_def FF_ReadDirect_def Let_def split: if_splits)
  let ?es = "[Enable PortFileIO, Xfer (FCH_CMD ch 0x30), Enable PortDirect, Disable PortFileIO,
    CardData dat, Disable PortDirect]"
  have "runs w w' ?es"
    using assms(1) rd
    by (auto simp: fifo_direct_def FF_ReadDirect_def Let_def runs_def extends_def SPI_EnableFileIO_def
        SPI_DisableFileIO_def SPI_EnableDirect_def SPI_DisableDirect_def split: if_splits)
  moreover have "received cmd Idle ?es = (if FCH_CMD ch 0x30 = cmd then dat else [])" by simp
  ultimately show "sends cmd w w' (if FCH_CMD ch 0x30 = cmd then take k (drop (fptr f) (content f)) else [])"
    unfolding sends_def eq using r'(1) by metis
  show "content f' = content f" "fptr f' = fptr f + k" "k \<le> unat n" "fptr f' \<le> f_size f'"
    using r' eq by auto
qed

text \<open>
  A channel that is ready: every status poll shows both request bits, and the clock advances at
  most half a second between two readings.
\<close>

definition ch_ready :: "nat \<Rightarrow> world \<Rightarrow> bool" where
  "ch_ready ch w \<longleftrightarrow>
     (\<forall>h. reply w (h @ [Enable PortFileIO, Xfer (FCH_CMD ch 0), Xfer 0]) AND 0x03 = 0x03) \<and>
     (\<forall>h es. Clock \<notin> set es \<longrightarrow> elapsed w (h @ Clock # es @ [Clock]) \<le> elapsed w (h @ [Clock]) + 500)"

lemma and_submask:
  fixes x :: "'a :: len word"
  assumes "x AND m = m" "m' AND m = m'"
  shows "x AND m' = m'"
  using assms by (metis and.assoc and.commute)

lemma FCh_WaitStat_ready:
  assumes "ticking (elapsed w)" "ch_ready ch w" "msk AND 0x03 = msk"
  shows "\<exists>w'. FCh_WaitStat ch msk msk w = Some (0, w')"
  unfolding FCh_WaitStat_def
proof (rule WaitStat_ready [OF assms(1)])
  fix h
  have "reply w (h @ [Enable PortFileIO, Xfer (FCH_CMD ch 0), Xfer 0]) AND 0x03 = 0x03"
    using assms(2) unfolding ch_ready_def by blast
  from and_submask [OF this assms(3)]
  show "reply w (h @ [Enable PortFileIO, Xfer (FCH_CMD ch 0), Xfer 0]) AND msk = msk" .
next
  show "elapsed w (h @ Clock # es @ [Clock]) \<le> elapsed w (h @ [Clock]) + unat (500 :: u32)"
    if "Clock \<notin> set es" for h es
    using assms(2) that unfolding ch_ready_def by simp
qed simp

lemma ready_sends:
  "sends cmd w w' bs \<Longrightarrow> ch_ready ch w' = ch_ready ch w \<and> ticking (elapsed w') = ticking (elapsed w)"
  using sends_env [of cmd w w' bs] by (simp add: ch_ready_def)

text \<open>A channel to evaluate on: always ready, with a clock that advances by one at every reading.\<close>

definition test_channel :: world where
  "test_channel =
     \<lparr>trace = [], reply = (\<lambda>_. 0xFF), elapsed = (\<lambda>h. length (filter (\<lambda>e. e = Clock) h)), msgs = []\<rparr>"

lemma test_channel_ok: "ticking (elapsed test_channel)" "ch_ready ch test_channel"
proof -
  have "Clock \<notin> set es \<Longrightarrow> filter (\<lambda>e. e = Clock) es = []" for es
    by (auto simp: filter_empty_conv)
  then show "ticking (elapsed test_channel)" "ch_ready ch test_channel"
    by (simp_all add: test_channel_def ticking_def ch_ready_def)
qed

subsection \<open>The interface of a driver\<close>

fun desc_kind :: "desc \<Rightarrow> u8" where
  "desc_kind (Desc00 _) = 0x0"
| "desc_kind (Desc01 _) = 0x1"
| "desc_kind (Desc02 _) = 0x2"
| "desc_kind (Desc08 _) = 0x8"

definition inserted :: "fch \<Rightarrow> bool" where
  "inserted d \<longleftrightarrow> status d AND FILEIO_STAT_INSERTED \<noteq> 0"

text \<open>
  What a request may do to a drive: it leaves the status and the name, the file stays open, the
  descriptor stays one of the same driver, and a drive that is not inserted is not touched.
\<close>

definition slot_kept :: "fch \<Rightarrow> fch \<Rightarrow> bool" where
  "slot_kept d d' \<longleftrightarrow> status d' = status d \<and> fch_name d' = fch_name d \<and>
     (fSource d' = None \<longleftrightarrow> fSource d = None) \<and> map_option desc_kind (pDesc d') = map_option desc_kind (pDesc d)"

definition slots_kept :: "nat \<Rightarrow> handles \<Rightarrow> handles \<Rightarrow> bool" where
  "slots_kept ch h h' \<longleftrightarrow> (handles_ok h \<longrightarrow> handles_ok h') \<and>
     (\<forall>c u. slot_kept (drive h c u) (drive h' c u)) \<and>
     (\<forall>c u. c \<noteq> ch \<or> \<not> inserted (drive h c u) \<longrightarrow> drive h' c u = drive h c u)"

lemma slot_kept_refl [simp]: "slot_kept d d"
  by (simp add: slot_kept_def)

lemma slot_kept_trans: "slot_kept d d1 \<Longrightarrow> slot_kept d1 d2 \<Longrightarrow> slot_kept d d2"
  by (simp add: slot_kept_def)

lemma slot_kept_inserted: "slot_kept d d' \<Longrightarrow> inserted d' = inserted d"
  by (simp add: slot_kept_def inserted_def)

lemma slot_kept_file: "fSource d \<noteq> None \<Longrightarrow> slot_kept d (d\<lparr>fSource := Some f\<rparr>)"
  by (simp add: slot_kept_def)

lemma slot_kept_desc:
  "pDesc d = Some dsc \<Longrightarrow> desc_kind dsc' = desc_kind dsc \<Longrightarrow> fSource d \<noteq> None \<Longrightarrow>
     slot_kept d (d\<lparr>pDesc := Some dsc', fSource := Some f\<rparr>)"
  by (simp add: slot_kept_def)

lemma slots_kept_refl [simp]: "slots_kept ch h h"
  by (simp add: slots_kept_def)

lemma slots_kept_trans: "slots_kept ch h h1 \<Longrightarrow> slots_kept ch h1 h2 \<Longrightarrow> slots_kept ch h h2"
  unfolding slots_kept_def using slot_kept_trans slot_kept_inserted by metis

lemma slots_kept_set:
  assumes "handles_ok h" "ch < 2" "d < 4" "FCh_GetInserted h ch d \<noteq> 0" "slot_kept (drive h ch d) x"
  shows "slots_kept ch h (set_drive h ch d x)"
  using assms by (auto simp: slots_kept_def drive_set_drive handles_ok_set_drive inserted_def FCh_GetInserted_def)

lemma drive_of_status: "unat (drop_bit 4 (stat :: u8) AND 0x03) < 4"
  using word_and_le1 [of "drop_bit 4 stat" 3] by (simp add: word_le_nat_alt)

text \<open>
  The channel relies on this of a driver: the request handler keeps the drives, and a successful
  insertion leaves a descriptor of this driver, the name and whether there is a file (only the hard
  disk driver works without one), and sets nothing in the status but the read-only mark.  \<open>'s\<close> is what the driver keeps between requests.
\<close>

locale request_handler =
  fixes process :: "nat \<Rightarrow> handles \<Rightarrow> u8 \<Rightarrow> 's \<Rightarrow> world \<Rightarrow> (handles \<times> 's \<times> world) option"
  assumes process_kept: "handles_ok h \<Longrightarrow> ch < 2 \<Longrightarrow> process ch h stat s w = Some (h', s', w') \<Longrightarrow> slots_kept ch h h'"
begin

lemma process_status:
  assumes "handles_ok h" "ch < 2" "process ch h stat s w = Some (h', s', w')"
  shows "FCh_GetInserted h' c u = FCh_GetInserted h c u" "FCh_GetReadOnly h' c u = FCh_GetReadOnly h c u"
    "FCh_GetProtect h' c u = FCh_GetProtect h c u" "FCh_GetName h' c u = FCh_GetName h c u"
  using process_kept [OF assms]
  by (simp_all add: slots_kept_def slot_kept_def FCh_GetInserted_def FCh_GetReadOnly_def FCh_GetProtect_def FCh_GetName_def)

end

locale channel_driver = request_handler process
  for process :: "nat \<Rightarrow> handles \<Rightarrow> u8 \<Rightarrow> 's \<Rightarrow> world \<Rightarrow> (handles \<times> 's \<times> world) option" +
  fixes insert :: "bool \<Rightarrow> u8 list \<Rightarrow> nat \<Rightarrow> nat \<Rightarrow> fch \<Rightarrow> string \<Rightarrow> 's \<Rightarrow> world \<Rightarrow> (u8 \<times> fch \<times> 's \<times> world) option"
    and kind :: u8
  assumes insert_kind: "insert al stk ch n d ext s w = Some (e, d', s', w') \<Longrightarrow> pDesc d = None \<Longrightarrow>
      (pDesc d' = None \<or> map_option desc_kind (pDesc d') = Some kind) \<and> (e = 0 \<longrightarrow> pDesc d' \<noteq> None \<and> (fSource d = None \<longrightarrow> kind = 0x8)) \<and>
      (fSource d' = None \<longleftrightarrow> fSource d = None) \<and> fch_name d' = fch_name d \<and>
      (status d' = status d \<or> status d' = status d OR FILEIO_STAT_READONLY)"
begin

lemma insert_slot:
  assumes "insert al stk ch n d ext s w = Some (0, d', s', w')" "pDesc d = None"
  obtains dsc where "pDesc d' = Some dsc" "desc_kind dsc = kind" "fSource d' = None \<longleftrightarrow> fSource d = None"
    "fSource d = None \<Longrightarrow> kind = 0x8"
    "fch_name d' = fch_name d" "status d' = status d \<or> status d' = status d OR FILEIO_STAT_READONLY"
  using insert_kind [OF assms] by auto

end

end
