(* ===== verification/Drv00.thy ===== *)
theory Drv00
  imports Drive
begin

text \<open>
  The generic driver (\<open>fileio_drv00_generic.c\<close>): raw block access to a file.  A request is a
  direction, a drive, an address and a size; the transfer goes in pieces of at most 512 bytes
  aligned to 512-byte boundaries, except that aligned reads are streamed from the card directly.

  Sizes are natural numbers (16 bits in the C code, only reduced by what they were compared
  with); addresses are 32-bit words.  The static \<open>error_shown\<close> only limits debug output.
\<close>

abbreviation DRV00_STAT_REQ_ACK :: u8 where "DRV00_STAT_REQ_ACK \<equiv> 0x01"
abbreviation DRV00_STAT_TRANS_ACK_OK :: u8 where "DRV00_STAT_TRANS_ACK_OK \<equiv> 0x02"
abbreviation DRV00_STAT_TRANS_ACK_SEEK_ERR :: u8 where "DRV00_STAT_TRANS_ACK_SEEK_ERR \<equiv> 0x12"
abbreviation DRV00_STAT_TRANS_ACK_TRUNC_ERR :: u8 where "DRV00_STAT_TRANS_ACK_TRUNC_ERR \<equiv> 0x22"
abbreviation DRV00_STAT_TRANS_ACK_ABORT_ERR :: u8 where "DRV00_STAT_TRANS_ACK_ABORT_ERR \<equiv> 0x42"

abbreviation DRV00_BUF_SIZE :: nat where "DRV00_BUF_SIZE \<equiv> 512"
abbreviation DRV00_BLK_SIZE :: nat where "DRV00_BLK_SIZE \<equiv> 512"

text \<open>
  The tape driver has a copy of this code that never streams, for its raw images, so the block
  transfer has a parameter: the name in its messages, and whether it can stream.
\<close>

record block_driver =
  tag :: string
  direct :: bool

definition generic_driver :: block_driver where
  "generic_driver = \<lparr>tag = ''Drv00'', direct = True\<rparr>"

definition raw_tape_driver :: block_driver where
  "raw_tape_driver = \<lparr>tag = ''Drv02'', direct = False\<rparr>"

subsection \<open>One piece\<close>

text \<open>The size of the next piece, and whether it is streamed.\<close>

definition drv00_piece :: "u32 \<Rightarrow> nat \<Rightarrow> nat" where
  "drv00_piece addr sz =
     (let cur_size = (if sz > DRV00_BUF_SIZE then DRV00_BUF_SIZE else sz);
          addr_offset = unat (addr AND 0x1FF)
      in if addr_offset \<noteq> 0
         then (let addr_offset = 0x200 - addr_offset
               in if cur_size > addr_offset then addr_offset else cur_size)
         else cur_size)"

definition drv00_burstable :: "bool \<Rightarrow> u32 \<Rightarrow> nat \<Rightarrow> u64 \<Rightarrow> bool" where
  "drv00_burstable wr addr cur_size fsize \<longleftrightarrow>
     \<not> wr \<and> addr AND 0x1FF = 0 \<and> cur_size \<ge> DRV00_BLK_SIZE \<and> fsize - ucast addr \<ge> 512"

text \<open>
  A piece of a write: fetch from the FIFO and write to the file.  The result is whether to go on.
\<close>

definition drv00_write :: "block_driver \<Rightarrow> nat \<Rightarrow> u8 \<Rightarrow> FIL \<Rightarrow> nat \<Rightarrow> world \<Rightarrow> bool \<times> FIL \<times> world" where
  "drv00_write v ch stat pFile cur_size w =
     (if stat AND FILEIO_STAT_READONLY_OR_PROTECTED \<noteq> 0
      then (False, pFile, FCh_WriteStat ch DRV00_STAT_TRANS_ACK_TRUNC_ERR
                            (say (WARNING (tag v @ '':W Read only disk!'') []) w))
      else let (fbuf, w) = FCh_fifo_read ch (replicate cur_size 0) w;
               (act_size, pFile) = FF_Write pFile (of_nat cur_size) 1 fbuf
           in if act_size \<noteq> cur_size
              then (False, pFile, FCh_WriteStat ch DRV00_STAT_TRANS_ACK_TRUNC_ERR
                                    (say (WARNING (tag v @ '':!! Write Fail!!'') []) w))
              else (True, pFile, w))"

text \<open>A streamed piece takes all whole blocks of the rest of the request.\<close>

definition drv00_burst :: "nat \<Rightarrow> FIL \<Rightarrow> nat \<Rightarrow> world \<Rightarrow> (bool \<times> FIL \<times> world) option" where
  "drv00_burst ch pFile cur_size w =
     do { (act_size, pFile, w) \<leftarrow> fifo_direct ch pFile (of_nat cur_size) w;
          if act_size \<noteq> cur_size
          then Some (False, pFile, FCh_WriteStat ch DRV00_STAT_TRANS_ACK_TRUNC_ERR w)
          else Some (True, pFile, w) }"

definition drv00_read :: "nat \<Rightarrow> FIL \<Rightarrow> nat \<Rightarrow> world \<Rightarrow> bool \<times> FIL \<times> world" where
  "drv00_read ch pFile cur_size w =
     (let (fbuf, pFile) = FF_Read pFile (of_nat cur_size) 1;
          w = FCh_fifo_write ch fbuf w
      in if length fbuf \<noteq> cur_size
         then (False, pFile, FCh_WriteStat ch DRV00_STAT_TRANS_ACK_TRUNC_ERR w)
         else (True, pFile, w))"

definition drv00_step ::
  "block_driver \<Rightarrow> nat \<Rightarrow> bool \<Rightarrow> u8 \<Rightarrow> u64 \<Rightarrow> u32 \<Rightarrow> nat \<Rightarrow> FIL \<Rightarrow> world \<Rightarrow> (nat \<times> bool \<times> FIL \<times> world) option" where
  "drv00_step v ch wr stat fsize addr sz pFile w =
     (let cur_size = drv00_piece addr sz in
      if wr then Some (cur_size, drv00_write v ch stat pFile cur_size w)
      else if direct v \<and> drv00_burstable wr addr cur_size fsize
      then let cur_size = sz div DRV00_BLK_SIZE * DRV00_BLK_SIZE
           in do { r \<leftarrow> drv00_burst ch pFile cur_size w; Some (cur_size, r) }
      else Some (cur_size, drv00_read ch pFile cur_size w))"

text \<open>The transfer loop: whether the whole request was transferred.\<close>

partial_function (option) drv00_transfer ::
  "block_driver \<Rightarrow> nat \<Rightarrow> bool \<Rightarrow> u8 \<Rightarrow> u64 \<Rightarrow> u32 \<Rightarrow> nat \<Rightarrow> FIL \<Rightarrow> world \<Rightarrow> (bool \<times> FIL \<times> world) option" where
  "drv00_transfer v ch wr stat fsize addr sz pFile w =
     (if sz = 0 then Some (True, pFile, w)
      else do { (cur_size, ok, pFile, w) \<leftarrow> drv00_step v ch wr stat fsize addr sz pFile w;
                if \<not> ok then Some (False, pFile, w)
                else if sz - cur_size \<noteq> 0
                then do { (e, w) \<leftarrow> (if wr then FCh_WaitStat ch FILEIO_REQ_OK_TO_ARM FILEIO_REQ_OK_TO_ARM w
                                     else FCh_WaitStat ch FILEIO_REQ_OK_FM_ARM FILEIO_REQ_OK_FM_ARM w);
                          if e \<noteq> 0 then Some (False, pFile, FCh_WriteStat ch DRV00_STAT_TRANS_ACK_ABORT_ERR w)
                          else drv00_transfer v ch wr stat fsize (addr + of_nat cur_size) (sz - cur_size) pFile w }
                else Some (True, pFile, w) })"

subsection \<open>Requests\<close>

definition drv00_get_request :: "nat \<Rightarrow> world \<Rightarrow> nat \<times> u32 \<times> world" where
  "drv00_get_request ch w =
     (let (bs, w) = FCh_cmd_read ch 6 w
      in (unat (of_le16 (bs ! 0) (bs ! 1)), of_le32 (bs ! 2) (bs ! 3) (bs ! 4) (bs ! 5), w))"

text \<open>One request for a file that is open: seek, transfer, final status; acknowledged before.\<close>

definition block_process ::
  "block_driver \<Rightarrow> nat \<Rightarrow> bool \<Rightarrow> u8 \<Rightarrow> u32 \<Rightarrow> nat \<Rightarrow> FIL \<Rightarrow> world \<Rightarrow> (bool \<times> FIL \<times> world) option" where
  "block_process v ch wr stat addr sz pFile w =
     (let (e, pFile) = FF_Seek pFile (uint addr) FF_SEEK_SET
      in if e \<noteq> 0
         then Some (False, pFile, FCh_WriteStat ch DRV00_STAT_TRANS_ACK_SEEK_ERR
                                    (say (WARNING (tag v @ '':Seek error'') []) w))
         else do { (ok, pFile, w) \<leftarrow> drv00_transfer v ch wr stat (FF_Size pFile) addr sz pFile w;
                   Some (ok, pFile, if ok then FCh_WriteStat ch DRV00_STAT_TRANS_ACK_OK w else w) })"

definition drv00_request ::
  "block_driver \<Rightarrow> nat \<Rightarrow> bool \<Rightarrow> u8 \<Rightarrow> u32 \<Rightarrow> nat \<Rightarrow> FIL \<Rightarrow> world \<Rightarrow> (bool \<times> FIL \<times> world) option" where
  "drv00_request v ch wr stat addr sz pFile w =
     block_process v ch wr stat addr sz pFile (FCh_WriteStat ch DRV00_STAT_REQ_ACK w)"

text \<open>At most eight requests are served in a row.\<close>

fun Drv00_Process_loop :: "nat \<Rightarrow> nat \<Rightarrow> handles \<Rightarrow> u8 \<Rightarrow> world \<Rightarrow> (handles \<times> world) option" where
  "Drv00_Process_loop 0 ch handle stat w = Some (handle, w)"
| "Drv00_Process_loop (Suc goes) ch handle stat w =
     (let wr = (bit stat 2);
          drive_number = unat (drop_bit 4 stat AND 0x03)
      in if FCh_GetInserted handle ch drive_number = 0
         then Some (handle, FCh_WriteStat ch DRV00_STAT_TRANS_ACK_ABORT_ERR (FCh_WriteStat ch DRV00_STAT_REQ_ACK w))
         else let pDrive = drive handle ch drive_number;
                  (sz, addr, w) = drv00_get_request ch w
              in case fSource pDrive of
                   None \<Rightarrow> None
                 | Some pFile \<Rightarrow>
                     do { (ok, pFile, w) \<leftarrow> drv00_request generic_driver ch wr (status pDrive) addr sz pFile w;
                          let handle = set_drive handle ch drive_number (pDrive\<lparr>fSource := Some pFile\<rparr>)
                          in if \<not> ok then Some (handle, w)
                             else let (stat, w) = FCh_GetStat ch w
                                  in if stat AND FILEIO_REQ_ACT \<noteq> 0
                                     then Drv00_Process_loop goes ch handle stat w
                                     else Some (handle, w) })"

definition Drv00_Process :: "nat \<Rightarrow> handles \<Rightarrow> u8 \<Rightarrow> world \<Rightarrow> (handles \<times> world) option" where
  "Drv00_Process ch handle stat w = Drv00_Process_loop FILEIO_PROCESS_LIMIT ch handle stat w"

text \<open>
  The memory allocation of the descriptor is an argument: whether it succeeds.
\<close>

definition Drv00_InsertInit :: "bool \<Rightarrow> nat \<Rightarrow> nat \<Rightarrow> fch \<Rightarrow> world \<Rightarrow> (u8 \<times> fch \<times> world) option" where
  "Drv00_InsertInit alloc ch drive_number pDrive w =
     (if \<not> alloc
      then Some (1, pDrive\<lparr>pDesc := None\<rparr>, say (WARNING ''Drv00:Failed to allocate memory.'' []) w)
      else case fSource pDrive of
             None \<Rightarrow> None
           | Some f \<Rightarrow>
               let fsize = ucast (FF_Size f);
                   pDrive = pDrive\<lparr>pDesc := Some (Desc00 \<lparr>file_size00 = fsize\<rparr>)\<rparr>;
                   w = fileio_cmd [FCH_CMD ch FCH_CMD_CMD_W, of_nat drive_number] w;
                   w = fileio_cmd (FCH_CMD ch (FCH_CMD_CMD_W OR 0x4) # le32 fsize) w
               in Some (0, pDrive, w))"

subsection \<open>Reading\<close>

lemma drv00_piece_bounds: "0 < sz \<Longrightarrow> 0 < drv00_piece addr sz \<and> drv00_piece addr sz \<le> min sz 512"
  using mod_less_divisor [of 512 "unat addr"] by (auto simp: drv00_piece_def Let_def unat_and_511)

lemma unat_of_nat_small: "n < 2 ^ 16 \<Longrightarrow> unat (of_nat n * 1 :: u32) = n"
  by (simp add: unat_of_nat take_bit_eq_mod)

lemma drv00_step_read:
  assumes "drv00_step v ch False stat fs addr sz f w = Some (n, True, f', w')"
    and "fptr f = unat addr" "fptr f \<le> f_size f" "0 < sz" "sz < 2 ^ 16"
  shows "sends (FCH_CMD ch 0x30) w w' (take n (drop (unat addr) (content f)))"
    and "0 < n" "n \<le> sz" "content f' = content f" "fptr f' = unat addr + n" "fptr f' \<le> f_size f'"
proof -
  note pb = drv00_piece_bounds [OF assms(4), of addr]
  let ?P = "sends (FCH_CMD ch 0x30) w w' (take n (drop (unat addr) (content f))) \<and> 0 < n \<and> n \<le> sz \<and>
    content f' = content f \<and> fptr f' = unat addr + n \<and> fptr f' \<le> f_size f'"
  have "?P"
  proof (cases "direct v \<and> drv00_burstable False addr (drv00_piece addr sz) fs")
    case True
    then have "512 \<le> sz" using pb by (auto simp: drv00_burstable_def)
    have n: "n = sz div 512 * 512" and "drv00_burst ch f n w = Some (True, f', w')"
      using assms(1) True by (auto simp: drv00_step_def Let_def split: bind_splits)
    then have d: "fifo_direct ch f (of_nat n) w = Some (n, f', w')"
      by (auto simp: drv00_burst_def split: bind_splits if_splits)
    have "0 < n" "n \<le> sz" using n \<open>512 \<le> sz\<close> by (simp_all add: div_greater_zero_iff)
    with fifo_direct_sends(1) [OF d assms(3), of "FCH_CMD ch 0x30"] fifo_direct_sends(2-) [OF d assms(3)] show ?thesis
      using assms(2) by simp
  next
    case False
    then have n: "n = drv00_piece addr sz" and rd: "drv00_read ch f n w = (True, f', w')"
      using assms(1) by (auto simp: drv00_step_def Let_def)
    obtain dat f1 where fr: "FF_Read f (of_nat n) 1 = (dat, f1)" by (cases "FF_Read f (of_nat n) 1")
    with rd have eq: "f' = f1" "length dat = n" "w' = FCh_fifo_write ch dat w"
      by (auto simp: drv00_read_def Let_def split: if_splits)
    have "sends (FCH_CMD ch 0x30) w w' dat"
      using FCh_fifo_write_sends [of "FCH_CMD ch 0x30" w ch dat] eq by simp
    moreover have "dat = take n (drop (unat addr) (content f))"
      using FF_Read_cases(1) [OF fr assms(3)] assms(2) eq by metis
    ultimately show ?thesis
      using FF_Read_cases(3-5) [OF fr assms(3)] eq n pb assms(2) by auto
  qed
  then show "sends (FCH_CMD ch 0x30) w w' (take n (drop (unat addr) (content f)))"
    and "0 < n" "n \<le> sz" "content f' = content f" "fptr f' = unat addr + n" "fptr f' \<le> f_size f'"
    by simp_all
qed

lemma unat_addr_step:
  "unat (addr :: u32) + n < 2 ^ 32 \<Longrightarrow> unat (addr + of_nat n) = unat addr + n"
  by (simp add: unat_word_ariths unat_of_nat take_bit_eq_mod)

lemma drv00_transfer_read:
  "drv00_transfer v ch wr stat fs addr sz f w = Some y \<Longrightarrow> \<not> wr \<Longrightarrow> fst y \<Longrightarrow>
     fptr f = unat addr \<Longrightarrow> fptr f \<le> f_size f \<Longrightarrow> f_size f < 2 ^ 32 \<Longrightarrow> sz < 2 ^ 16 \<Longrightarrow>
     sends (FCH_CMD ch 0x30) w (snd (snd y)) (take sz (drop (unat addr) (content f))) \<and>
     unat addr + sz \<le> f_size f \<and> content (fst (snd y)) = content f"
proof (induction v ch wr stat fs addr sz f w y
    rule: drv00_transfer.raw_induct [rotated, consumes 1, case_names loop])
  case (loop rec v ch wr stat fs addr sz f w y)
  show ?case
  proof (cases "sz = 0")
    case False
    with loop(2,3,4) obtain n f1 w1 where
      st: "drv00_step v ch False stat fs addr sz f w = Some (n, True, f1, w1)"
      by (auto split: bind_splits if_splits)
    note s = drv00_step_read [OF st loop(5,6) _ loop(8)]
    have sz: "0 < sz" using False by simp
    note s = s [OF sz]
    obtain ok f' w' where y: "y = (ok, f', w')" by (cases y)
    show ?thesis
    proof (cases "sz - n = 0")
      case True
      then have "n = sz" using s(3) by simp
      with loop(2,3) st False True s show ?thesis by (auto simp: y f_size_def)
    next
      case more: False
      with loop(2,3,4) st False obtain w2 where
        w2: "FCh_WaitStat ch FILEIO_REQ_OK_FM_ARM FILEIO_REQ_OK_FM_ARM w1 = Some (0, w2)"
        and r: "rec v ch False stat fs (addr + of_nat n) (sz - n) f1 w2 = Some y"
        by (auto split: bind_splits if_splits)
      have a: "unat (addr + of_nat n) = unat addr + n"
        using s(4-6) loop(7) by (intro unat_addr_step) (simp add: f_size_def)
      have "sends (FCH_CMD ch 0x30) w2 w' (take (sz - n) (drop (unat addr + n) (content f))) \<and>
          unat addr + n + (sz - n) \<le> f_size f \<and> content f' = content f"
        using loop(1) [OF r] loop(4,7,8) s(4-6) a by (simp add: y f_size_def)
      moreover have "sends (FCH_CMD ch 0x30) w w2 (take n (drop (unat addr) (content f)))"
        by (rule sends_trans1 [OF s(1) FCh_WaitStat_sends [OF w2]]) simp
      moreover have "take n (drop (unat addr) (content f)) @ take (sz - n) (drop (unat addr + n) (content f))
          = take sz (drop (unat addr) (content f))"
        using s(3) by (metis add.commute drop_drop le_add_diff_inverse take_add)
      ultimately show ?thesis
        using sends_trans [of _ w w2 _ w'] s(3) by (fastforce simp: y)
    qed
  qed (use loop in auto)
qed

subsection \<open>Writing\<close>

lemma drv00_write_ok:
  assumes "drv00_write v ch stat f n w = (True, f', w')" "fptr f \<le> f_size f" "0 < n" "n < 2 ^ 16"
  shows "\<exists>bs. gets (FCH_CMD ch 0x20) w w' bs \<and> length bs = n \<and>
    content f' = splice (content f) (fptr f) bs \<and> fptr f' = fptr f + n \<and> fptr f' \<le> f_size f' \<and>
    stat AND 0x06 = 0"
proof -
  let ?bs = "fst (FCh_fifo_read ch (replicate n 0) w)"
  have len: "length ?bs = n" by simp
  have "take (unat (of_nat n * 1 :: u32)) ?bs = ?bs" using unat_of_nat_small [OF assms(4)] len by simp
  then have wr: "f_write f ?bs = (fst (f_write f ?bs), length ?bs, f')" "w' = snd (FCh_fifo_read ch (replicate n 0) w)"
    "stat AND 0x06 = 0"
    using assms(1) len by (auto simp: drv00_write_def FF_Write_def Let_def case_prod_beta prod_eq_iff split: if_splits)
  have ne: "?bs \<noteq> []" using len assms(3) by (metis less_irrefl list.size(3))
  from f_write_full [OF wr(1) assms(2) ne] FCh_fifo_read_gets [of ch w "replicate n 0"] show ?thesis
    using wr len by (intro exI [of _ ?bs]) simp
qed

lemma drv00_transfer_write:
  "drv00_transfer v ch wr stat fs addr sz f w = Some y \<Longrightarrow> wr \<Longrightarrow> fst y \<Longrightarrow>
     fptr f = unat addr \<Longrightarrow> fptr f \<le> f_size f \<Longrightarrow> unat addr + sz < 2 ^ 32 \<Longrightarrow> sz < 2 ^ 16 \<Longrightarrow>
     \<exists>bs. gets (FCH_CMD ch 0x20) w (snd (snd y)) bs \<and> length bs = sz \<and>
       content (fst (snd y)) = splice (content f) (unat addr) bs \<and> (0 < sz \<longrightarrow> stat AND 0x06 = 0)"
proof (induction v ch wr stat fs addr sz f w y
    rule: drv00_transfer.raw_induct [rotated, consumes 1, case_names loop])
  case (loop rec v ch wr stat fs addr sz f w y)
  show ?case
  proof (cases "sz = 0")
    case False
    define n where "n = drv00_piece addr sz"
    have n: "0 < n" "n \<le> sz" "n < 2 ^ 16"
      using drv00_piece_bounds [of sz addr] False loop(8) by (auto simp: n_def)
    obtain ok1 f1 w1 where st: "drv00_write v ch stat f n w = (ok1, f1, w1)" by (rule prod_cases3)
    have "ok1"
    proof (rule ccontr)
      assume "\<not> ok1"
      with loop(2,3) False st have "y = (False, f1, w1)"
        by (simp add: drv00_step_def n_def [symmetric] Let_def)
      with loop(4) show False by simp
    qed
    with st have st: "drv00_write v ch stat f n w = (True, f1, w1)" by simp
    from drv00_write_ok [OF st loop(6) n(1,3)] obtain bs where
      bs: "gets (FCH_CMD ch 0x20) w w1 bs" "length bs = n" "content f1 = splice (content f) (fptr f) bs"
        "fptr f1 = fptr f + n" "fptr f1 \<le> f_size f1" "stat AND 0x06 = 0" by blast
    obtain ok f' w' where y: "y = (ok, f', w')" by (cases y)
    show ?thesis
    proof (cases "sz - n = 0")
      case True
      then have "n = sz" using n by simp
      then have "y = (True, f1, w1)"
        using loop(2,3) st False by (simp add: drv00_step_def n_def [symmetric] Let_def)
      then show ?thesis using bs \<open>n = sz\<close> loop(5) by (intro exI [of _ bs]) simp
    next
      case more: False
      with loop(2,3,4) st False obtain w2 where
        w2: "FCh_WaitStat ch FILEIO_REQ_OK_TO_ARM FILEIO_REQ_OK_TO_ARM w1 = Some (0, w2)"
        and r: "rec v ch True stat fs (addr + of_nat n) (sz - n) f1 w2 = Some y"
        by (auto simp: drv00_step_def n_def [symmetric] Let_def split: bind_splits if_splits)
      have a: "unat (addr + of_nat n) = unat addr + n"
        using n(2) loop(7) by (intro unat_addr_step) simp
      have q: "gets (FCH_CMD ch 0x20) w1 w2 []" by (rule sends_gets [OF FCh_WaitStat_sends [OF w2]]) simp
      have "\<exists>bs'. gets (FCH_CMD ch 0x20) w2 w' bs' \<and> length bs' = sz - n \<and>
          content f' = splice (content f1) (unat addr + n) bs' \<and> (0 < sz - n \<longrightarrow> stat AND 0x06 = 0)"
        using loop(1) [OF r] loop(4,5,7,8) bs(4,5) n a by (simp add: y)
      then obtain bs' where bs': "gets (FCH_CMD ch 0x20) w2 w' bs'" "length bs' = sz - n"
        "content f' = splice (content f1) (unat addr + n) bs'" by blast
      have "gets (FCH_CMD ch 0x20) w w' (bs @ bs')"
        by (rule gets_trans [OF gets_trans1 [OF bs(1) q] bs'(1)])
      moreover have "content f' = splice (content f) (unat addr) (bs @ bs')"
        using bs'(3) bs(2,3) loop(5,6) splice_splice [of "unat addr" "content f" bs bs'] by (simp add: f_size_def)
      ultimately show ?thesis using bs(2,6) bs'(2) n(2) by (intro exI [of _ "bs @ bs'"]) (simp add: y)
    qed
  qed (use loop in auto)
qed

subsection \<open>Requests on a healthy medium\<close>

lemma fifo_direct_healthy:
  assumes "healthy f" "fptr f mod 512 = 0" "unat n mod 512 = 0" "fptr f + unat n \<le> f_size f"
  shows "\<exists>f' w'. fifo_direct ch f n w = Some (unat n, f', w') \<and> healthy f'"
proof -
  have "min (unat n) (f_size f - fptr f) = unat n" using assms(4) by simp
  then show ?thesis using assms FF_Read_healthy [OF assms(1), of n 1]
    by (auto simp: fifo_direct_def FF_ReadDirect_def Let_def f_size_def)
qed

lemma drv00_step_healthy:
  assumes "healthy f" "fptr f = unat addr" "unat addr + sz \<le> f_size f" "0 < sz" "sz < 2 ^ 16"
  shows "\<exists>n f' w'. drv00_step v ch False stat fs addr sz f w = Some (n, True, f', w') \<and> healthy f' \<and>
    sends (FCH_CMD ch 0x08) w w' []"
proof (cases "direct v \<and> drv00_burstable False addr (drv00_piece addr sz) fs")
  case True
  define n where "n = sz div 512 * 512"
  have "n \<le> sz" by (simp add: n_def)
  then have u: "unat (of_nat n :: u32) = n" using assms(5) by (simp add: unat_of_nat take_bit_eq_mod)
  have "unat (addr AND 0x1FF) = 0" using True by (simp add: drv00_burstable_def)
  then have "fptr f mod 512 = 0" using assms(2) by (simp add: unat_and_511)
  moreover have "n mod 512 = 0" by (simp add: n_def)
  moreover have "fptr f + n \<le> f_size f" using \<open>n \<le> sz\<close> assms(2,3) by simp
  ultimately have "\<exists>f' w'. fifo_direct ch f (of_nat n) w = Some (unat (of_nat n :: u32), f', w') \<and> healthy f'"
    by (intro fifo_direct_healthy [OF assms(1)]) (simp_all add: u)
  then obtain f' w' where d: "fifo_direct ch f (of_nat n) w = Some (n, f', w')" "healthy f'"
    unfolding u by fast
  moreover have "sends (FCH_CMD ch 0x08) w w' []"
    using fifo_direct_sends(1) [OF d(1), of "FCH_CMD ch 0x08"] assms(2,3) by simp
  ultimately show ?thesis using True by (auto simp: drv00_step_def drv00_burst_def n_def [symmetric] Let_def)
next
  case False
  define n where "n = drv00_piece addr sz"
  have n: "n \<le> sz" "n < 2 ^ 16" using drv00_piece_bounds [OF assms(4), of addr] assms(5) by (auto simp: n_def)
  have u: "unat (of_nat n :: u32) = n" using n by (simp add: unat_of_nat take_bit_eq_mod)
  define dat where "dat = take n (drop (fptr f) (content f))"
  have "length dat = n" using n assms(2,3) by (simp add: dat_def f_size_def)
  moreover have "FF_Read f (of_nat n) 1 = (dat, f\<lparr>fptr := min (f_size f) (fptr f + n)\<rparr>)"
    using FF_Read_healthy [OF assms(1), of "of_nat n" 1] u by (simp add: dat_def)
  moreover have "sends (FCH_CMD ch 0x08) w (FCh_fifo_write ch dat w) []"
    using FCh_fifo_write_sends [of "FCH_CMD ch 0x08" w ch dat] by simp
  ultimately show ?thesis using False assms(1)
    by (auto simp: drv00_step_def drv00_read_def n_def [symmetric] Let_def)
qed

lemma drv00_transfer_healthy:
  "ticking (elapsed w) \<Longrightarrow> healthy f \<Longrightarrow> fptr f = unat addr \<Longrightarrow> unat addr + sz \<le> f_size f \<Longrightarrow>
     f_size f < 2 ^ 32 \<Longrightarrow> sz < 2 ^ 16 \<Longrightarrow>
     \<exists>ok f' w'. drv00_transfer v ch False stat fs addr sz f w = Some (ok, f', w') \<and>
       content f' = content f \<and> sends (FCH_CMD ch 0x08) w w' (if ok then [] else [0x42]) \<and>
       (ch_ready ch w \<longrightarrow> ok)"
proof (induction sz arbitrary: f addr w rule: less_induct)
  case (less sz)
  show ?case
  proof (cases "sz = 0")
    case True
    then show ?thesis by (subst drv00_transfer.simps) (auto intro: exI [of _ True])
  next
    case False
    then have sz: "0 < sz" by simp
    from drv00_step_healthy [OF less.prems(2-4) sz less.prems(6)] obtain n f1 w1 where
      st: "drv00_step v ch False stat fs addr sz f w = Some (n, True, f1, w1)"
      and h1: "healthy f1" and q1: "sends (FCH_CMD ch 0x08) w w1 []" by blast
    have le: "fptr f \<le> f_size f" using less.prems(3,4) by simp
    note s = drv00_step_read [OF st less.prems(3) le sz less.prems(6)]
    have r1: "ticking (elapsed w1)" "ch_ready ch w1 = ch_ready ch w"
      using ready_sends [OF q1] less.prems(1) by auto
    show ?thesis
    proof (cases "sz - n = 0")
      case True
      then show ?thesis using st q1 s(4) False by (subst drv00_transfer.simps) auto
    next
      case more: False
      obtain e w2 where w2: "FCh_WaitStat ch FILEIO_REQ_OK_FM_ARM FILEIO_REQ_OK_FM_ARM w1 = Some (e, w2)"
        using FCh_WaitStat_returns [OF r1(1)] by blast
      have q2: "sends (FCH_CMD ch 0x08) w w2 []"
        by (rule sends_trans0 [OF q1 FCh_WaitStat_sends [OF w2]]) simp
      show ?thesis
      proof (cases "e = 0")
        case True
        have a: "unat (addr + of_nat n) = unat addr + n"
          using s(3) less.prems(4,5) by (intro unat_addr_step) simp
        have "\<exists>ok f' w'. drv00_transfer v ch False stat fs (addr + of_nat n) (sz - n) f1 w2 = Some (ok, f', w') \<and>
            content f' = content f1 \<and> sends (FCH_CMD ch 0x08) w2 w' (if ok then [] else [0x42]) \<and>
            (ch_ready ch w2 \<longrightarrow> ok)"
          using less.prems(4-6) ready_sends [OF q2] less.prems(1) h1 s(2-5) a
          by (intro less.IH) (auto simp: f_size_def)
        then obtain ok f' w' where
          "drv00_transfer v ch False stat fs (addr + of_nat n) (sz - n) f1 w2 = Some (ok, f', w')"
          "content f' = content f1" "sends (FCH_CMD ch 0x08) w2 w' (if ok then [] else [0x42])"
          "ch_ready ch w2 \<longrightarrow> ok" by blast
        moreover note sends_trans0 [OF q2 this(3)]
        ultimately show ?thesis using st w2 True more False s(4) ready_sends [OF q2]
          by (subst drv00_transfer.simps) auto
      next
        case False
        have "\<not> ch_ready ch w"
        proof
          assume "ch_ready ch w"
          then have "\<exists>w'. FCh_WaitStat ch 0x02 0x02 w1 = Some (0, w')"
            using r1 by (intro FCh_WaitStat_ready) auto
          with w2 False show False by simp
        qed
        moreover have "sends (FCH_CMD ch 0x08) w (FCh_WriteStat ch 0x42 w2) [0x42]"
          using sends_trans0 [OF q2 FCh_WriteStat_sends [of "FCH_CMD ch 0x08" w2 ch "0x42"]] by simp
        ultimately show ?thesis using st w2 False more \<open>sz \<noteq> 0\<close> s(4)
          by (subst drv00_transfer.simps) auto
      qed
    qed
  qed
qed



subsection \<open>Write requests\<close>

lemma drv00_write_bits:
  "drv00_write v ch stat f n w = (ok, f', w') \<Longrightarrow>
     sends (FCH_CMD ch 0x08) w w' (if ok then [] else [0x22]) \<and>
     (stat AND 0x06 \<noteq> 0 \<longrightarrow> \<not> ok \<and> f' = f)"
  using FCh_fifo_read_sends [of "FCH_CMD ch 0x08" w ch "replicate n 0"]
    sends_WriteStat [of ch "0x08" w _ "[]" "0x22"]
  by (auto simp: drv00_write_def Let_def case_prod_beta split: if_splits)

lemma drv00_transfer_write_returns:
  "ticking (elapsed w) \<Longrightarrow>
     \<exists>ok f' w' e. drv00_transfer v ch True stat fs addr sz f w = Some (ok, f', w') \<and>
       sends (FCH_CMD ch 0x08) w w' (if ok then [] else [e]) \<and> e \<in> {0x22, 0x42} \<and>
       (stat AND 0x06 \<noteq> 0 \<longrightarrow> f' = f)"
proof (induction sz arbitrary: f addr w rule: less_induct)
  case (less sz)
  show ?case
  proof (cases "sz = 0")
    case True
    then show ?thesis by (subst drv00_transfer.simps) (auto intro: exI [of _ True])
  next
    case False
    define n where "n = drv00_piece addr sz"
    have n: "0 < n" "n \<le> sz" using drv00_piece_bounds [of sz addr] False by (auto simp: n_def)
    obtain ok1 f1 w1 where st: "drv00_write v ch stat f n w = (ok1, f1, w1)" by (rule prod_cases3)
    note b = drv00_write_bits [OF st]
    show ?thesis
    proof (cases "ok1 \<and> sz - n \<noteq> 0")
      case stop: False
      then show ?thesis using b st \<open>sz \<noteq> 0\<close>
        by (subst drv00_transfer.simps)
          (cases ok1; auto simp: drv00_step_def n_def [symmetric] Let_def intro: exI [of _ "0x22 :: u8"])
    next
      case more: True
      have q1: "sends (FCH_CMD ch 0x08) w w1 []" using b more by simp
      obtain e w2 where w2: "FCh_WaitStat ch FILEIO_REQ_OK_TO_ARM FILEIO_REQ_OK_TO_ARM w1 = Some (e, w2)"
        using FCh_WaitStat_returns ready_sends [OF q1] less.prems by metis
      have q2: "sends (FCH_CMD ch 0x08) w w2 []"
        by (rule sends_trans0 [OF q1 FCh_WaitStat_sends [OF w2]]) simp
      have prot: "stat AND 0x06 = 0" using b more by auto
      show ?thesis
      proof (cases "e = 0")
        case True
        have "ticking (elapsed w2)" using ready_sends [OF q2] less.prems by simp
        then obtain ok f' w' e' where
          r: "drv00_transfer v ch True stat fs (addr + of_nat n) (sz - n) f1 w2 = Some (ok, f', w')"
          and "sends (FCH_CMD ch 0x08) w2 w' (if ok then [] else [e'])" "e' \<in> {0x22, 0x42}"
          using less.IH [of "sz - n" w2 "addr + of_nat n" f1] n by auto
        with sends_trans0 [OF q2 this(2)] st w2 True more False prot show ?thesis
          by (subst drv00_transfer.simps) (auto simp: drv00_step_def n_def [symmetric] Let_def)
      next
        case bad: False
        have "sends (FCH_CMD ch 0x08) w (FCh_WriteStat ch 0x42 w2) [0x42]"
          using sends_trans0 [OF q2 FCh_WriteStat_sends [of "FCH_CMD ch 0x08" w2 ch "0x42"]] by simp
        then show ?thesis using st w2 bad more False prot
          by (subst drv00_transfer.simps)
            (auto simp: drv00_step_def n_def [symmetric] Let_def intro: exI [of _ "0x42 :: u8"])
      qed
    qed
  qed
qed



subsection \<open>Requests beyond the end of the file\<close>

lemma f_lseek_grow:
  assumes "healthy f" "fil_write f" "f_size f < n" "n \<le> space f"
  shows "\<exists>f'. f_lseek f n = (FR_OK, f') \<and> healthy f' \<and> fptr f' = n \<and>
    content f' = content f @ map (junk f) [f_size f..<n]"
  using assms by (auto simp: f_lseek_def healthy_def file_ok_def Let_def f_size_def)

text \<open>
  C38. A read request that starts beyond the end of a medium opened for writing is answered by
  "truncated", as it should be; but the seek that precedes the check has by then extended the file
  to the requested address with whatever was on the card, protected or not.
\<close>

theorem drv00_read_grows:
  assumes "healthy f" and "fil_write f" and "f_size f < unat addr" and "unat addr \<le> space f"
    and "0 < sz" and "sz < 2 ^ 16"
  shows "\<exists>f' w'. drv00_request v ch False stat addr sz f w = Some (False, f', w') \<and>
    sends (FCH_CMD ch FCH_CMD_STAT_W) w w' [DRV00_STAT_REQ_ACK, DRV00_STAT_TRANS_ACK_TRUNC_ERR] \<and>
    content f' = content f @ map (junk f) [f_size f..<unat addr]"
proof -
  let ?w0 = "FCh_WriteStat ch DRV00_STAT_REQ_ACK w" and ?c = "FCH_CMD ch 0x08"
  obtain f0 where f0: "f_lseek f (unat addr) = (FR_OK, f0)" "healthy f0" "fptr f0 = unat addr"
    "content f0 = content f @ map (junk f) [f_size f..<unat addr]"
    using f_lseek_grow [OF assms(1-4)] by blast
  have "fptr f \<le> f_size f" using assms(1) by (simp add: healthy_def file_ok_def)
  then have "unat addr \<noteq> fptr f" using assms(3) by simp
  moreover have "unat addr < 2 ^ LENGTH(32)" by (rule unsigned_less)
  ultimately have "FF_Seek f (int (unat addr)) FF_SEEK_SET = (0, f0)"
    using FF_Seek_nat [of "unat addr" f] f0(1) by (simp add: mapError_def)
  then have sk: "FF_Seek f (uint addr) FF_SEEK_SET = (0, f0)" by simp
  have size: "f_size f0 = unat addr" using f0(4) assms(3) by (simp add: f_size_def)
  then have nb: "\<not> drv00_burstable False addr k (FF_Size f0)" for k
    by (simp add: drv00_burstable_def FF_Size_def unsigned_ucast_eq)
  have piece: "0 < drv00_piece addr sz" using drv00_piece_bounds [OF assms(5)] by simp
  define w1 where "w1 = FCh_WriteStat ch 0x22 (FCh_fifo_write ch [] ?w0)"
  have "drv00_read ch f0 (drv00_piece addr sz) ?w0 = (False, f0, w1)"
    using FF_Read_healthy [OF f0(2)] f0(3) size piece
    by (simp add: drv00_read_def w1_def f_size_def min_def Let_def)
  then have "drv00_request v ch False stat addr sz f w = Some (False, f0, w1)"
    using sk nb assms(5) by (simp add: drv00_request_def block_process_def drv00_transfer.simps drv00_step_def Let_def)
  moreover have "sends ?c w (FCh_fifo_write ch [] ?w0) ([] @ [0x01])"
    using sends_trans1 [OF FCh_WriteStat_sends [of ?c w ch 1] FCh_fifo_write_sends [of ?c ?w0 ch "[]", simplified]]
    by simp
  then have "sends ?c w w1 [0x01, 0x22]" using sends_WriteStat [of ch "0x08" w _ "[0x01]" "0x22"] by (simp add: w1_def)
  ultimately show ?thesis using f0(4) by blast
qed

theorem drv00_read_grows_witness:
  "\<exists>f' w'. drv00_request generic_driver 0 False 5 3 1 ((test_file [10])\<lparr>space := 8\<rparr>) test_channel = Some (False, f', w') \<and>
     content f' = [10, 0, 0]"
  using drv00_read_grows [of "(test_file [10])\<lparr>space := 8\<rparr>" 3 1 generic_driver 0 5 test_channel]
  by (auto simp: f_size_def test_file_def healthy_def file_ok_def upt_rec)

subsection \<open>The generic driver as a driver of the channel\<close>

lemma Drv00_loop_kept:
  "Drv00_Process_loop n ch h stat w = Some (h', w') \<Longrightarrow> handles_ok h \<Longrightarrow> ch < 2 \<Longrightarrow> slots_kept ch h h'"
proof (induction n arbitrary: h stat w)
  case (Suc n)
  let ?d = "unat (drop_bit 4 stat AND 0x03)"
  show ?case
  proof (cases "FCh_GetInserted h ch ?d = 0")
    case False
    with Suc.prems obtain f f1 w1 w2 st where
      f: "fSource (drive h ch ?d) = Some f"
        "h' = set_drive h ch ?d ((drive h ch ?d)\<lparr>fSource := Some f1\<rparr>) \<or>
         Drv00_Process_loop n ch (set_drive h ch ?d ((drive h ch ?d)\<lparr>fSource := Some f1\<rparr>)) st w2 = Some (h', w')"
      by (auto simp: Let_def case_prod_beta split: option.splits bind_splits if_splits)
    have k: "slots_kept ch h (set_drive h ch ?d ((drive h ch ?d)\<lparr>fSource := Some f1\<rparr>))"
      using slots_kept_set [OF Suc.prems(2,3) drive_of_status False slot_kept_file] f(1) by simp
    from f(2) show ?thesis
      by (elim disjE)
        (use k in simp, rule slots_kept_trans [OF k], rule Suc.IH [OF _ handles_ok_set_drive [OF Suc.prems(2)] Suc.prems(3)])
  qed (use Suc.prems in \<open>simp add: Let_def\<close>)
qed simp

interpretation drv00: channel_driver
  "\<lambda>ch h stat (s :: unit) w. map_option (\<lambda>(h, w). (h, s, w)) (Drv00_Process ch h stat w)"
  "\<lambda>al stk ch n d ext (s :: unit) w. map_option (\<lambda>(e, d, w). (e, d, s, w)) (Drv00_InsertInit al ch n d w)" "0x0"
  by unfold_locales
    (auto simp: Drv00_Process_def Drv00_InsertInit_def Let_def split: if_splits option.splits dest: Drv00_loop_kept)

end
