(* ===== verification/Drv01.thy ===== *)
theory Drv01
  imports Drive
begin

text \<open>
  The floppy driver (\<open>fileio_drv01_floppy.c\<close>): Amiga disk images as plain sectors (ADF), which
  the driver encodes to and decodes from MFM, and flux images (SCP), which it streams.

  The statics \<open>write_state\<close> and \<open>write_drive\<close> of the process function are a state record.  The
  512-byte stack buffer of the process function is an argument: its initial content is unknown.
  Bytes which the firmware clocks out only to receive are zeros (the FPGA ignores them).
\<close>

abbreviation DRV01_STAT_REQ_ACK :: u8 where "DRV01_STAT_REQ_ACK \<equiv> 0x01"
abbreviation DRV01_STAT_TRANS_ACK_OK :: u8 where "DRV01_STAT_TRANS_ACK_OK \<equiv> 0x02"
abbreviation DRV01_STAT_TRANS_ACK_SEEK_ERR :: u8 where "DRV01_STAT_TRANS_ACK_SEEK_ERR \<equiv> 0x12"
abbreviation DRV01_STAT_TRANS_ACK_ABORT_ERR :: u8 where "DRV01_STAT_TRANS_ACK_ABORT_ERR \<equiv> 0x42"

abbreviation ADF_MAX_TRACKS :: u16 where "ADF_MAX_TRACKS \<equiv> 166"
abbreviation LAST_SECTOR :: u8 where "LAST_SECTOR \<equiv> 10"
abbreviation GAP_SIZE :: nat where "GAP_SIZE \<equiv> 12668 - 11 * (0x40 + 0x400)"
abbreviation DRV01_ADF_WRITE_LEN :: nat where "DRV01_ADF_WRITE_LEN \<equiv> 540"

record scp_header =
  scp_id :: "u8 list"
  scp_version :: u8
  disk_type :: u8
  number_of_revolutions :: u8
  start_track :: u8
  end_track :: u8
  scp_flags :: u8
  cell_encoding :: u8
  resv_0 :: u8
  resv_1 :: u8
  scp_checksum :: u32

record drv01_static =
  write_state :: u8
  write_drive :: nat

subsection \<open>MFM\<close>

definition MFMDecode :: "u8 \<Rightarrow> u8 \<Rightarrow> u8" where
  "MFMDecode odd_b even_b = push_bit 1 (odd_b AND 0x55) OR (even_b AND 0x55)"

definition MFMEncode :: "u8 \<Rightarrow> u8 \<Rightarrow> u8" where
  "MFMEncode d l =
     (let r = d AND 0x55;
          r = (if \<not> (r AND 0x01 \<noteq> 0 \<or> r AND 0x04 \<noteq> 0) then r OR 0x02 else r);
          r = (if \<not> (r AND 0x04 \<noteq> 0 \<or> r AND 0x10 \<noteq> 0) then r OR 0x08 else r);
          r = (if \<not> (r AND 0x10 \<noteq> 0 \<or> r AND 0x40 \<noteq> 0) then r OR 0x20 else r);
          r = (if \<not> (r AND 0x40 \<noteq> 0 \<or> l AND 0x01 \<noteq> 0) then r OR 0x80 else r)
      in r)"

text \<open>The checksum of the data: the exclusive or of its four-byte groups, odd and even bits together.\<close>

fun data_checksum :: "nat \<Rightarrow> u8 list \<Rightarrow> u8 \<times> u8 \<times> u8 \<times> u8 \<Rightarrow> u8 \<times> u8 \<times> u8 \<times> u8" where
  "data_checksum 0 p c = c"
| "data_checksum (Suc i) p (c0, c1, c2, c3) =
     data_checksum i (drop 4 p)
       (c0 XOR (p ! 0 XOR drop_bit 1 (p ! 0)), c1 XOR (p ! 1 XOR drop_bit 1 (p ! 1)),
        c2 XOR (p ! 2 XOR drop_bit 1 (p ! 2)), c3 XOR (p ! 3 XOR drop_bit 1 (p ! 3)))"

text \<open>The 64 bytes that \<open>Amiga_SendHeader\<close> sends.\<close>

definition amiga_header :: "u8 list \<Rightarrow> u8 \<Rightarrow> u8 \<Rightarrow> u8 \<Rightarrow> u8 \<Rightarrow> u8 list" where
  "amiga_header pBuffer sector track dsksynch dsksyncl =
     (let o0 = MFMEncode 0xFF dsksyncl;
          o1 = MFMEncode (drop_bit 1 track) o0;
          o2 = MFMEncode (drop_bit 1 sector) o1;
          o3 = MFMEncode (drop_bit 1 (11 - sector)) o2;
          e0 = MFMEncode 0xFF o3;
          e1 = MFMEncode track e0;
          e2 = MFMEncode sector e1;
          e3 = MFMEncode (11 - sector) e2;
          (d0, d1, d2, d3) = data_checksum (0x400 div 2 div 4) pBuffer (0, 0, 0, 0)
      in [0xAA, 0xAA, 0xAA, 0xAA, dsksynch, dsksyncl, dsksynch, dsksyncl]
         @ [o0, o1, o2, o3] @ [e0, e1, e2, e3] @ replicate 0x20 0xAA
         @ [0xAA, 0xAA, 0xAA, 0xAA]
         @ [(o0 XOR e0) OR 0xAA, (o1 XOR e1) OR 0xAA, (o2 XOR e2) OR 0xAA, (o3 XOR e3) OR 0xAA]
         @ [0xAA, 0xAA, 0xAA, 0xAA] @ [d0 OR 0xAA, d1 OR 0xAA, d2 OR 0xAA, d3 OR 0xAA])"

definition Amiga_SendHeader :: "u8 list \<Rightarrow> u8 \<Rightarrow> u8 \<Rightarrow> u8 \<Rightarrow> u8 \<Rightarrow> world \<Rightarrow> world" where
  "Amiga_SendHeader pBuffer sector track dsksynch dsksyncl w =
     tx (amiga_header pBuffer sector track dsksynch dsksyncl) w"

subsection \<open>Writing to an ADF image\<close>

text \<open>
  The received sector starts after the second sync word: four odd and four even bytes of the
  parameters, 32 bytes of label, the header checksum, the data checksum and the data.
\<close>

definition mfm_param :: "u8 list \<Rightarrow> nat \<Rightarrow> nat \<Rightarrow> u8 list" where
  "mfm_param rxbuf o_pos e_pos = map (\<lambda>i. MFMDecode (rxbuf ! (i + o_pos)) (rxbuf ! (i + e_pos))) [0..<4]"

definition mfm_checksum :: "u8 list \<Rightarrow> nat \<Rightarrow> nat \<Rightarrow> u8 list" where
  "mfm_checksum rxbuf start longs =
     map (\<lambda>i. foldl (\<lambda>c j. c XOR rxbuf ! (start + i + j * 4)) 0 [0..<longs] AND 0x55) [0..<4]"

text \<open>The checks, in order: the first that fails gives its warning.\<close>

definition adf_check :: "u16 \<Rightarrow> u8 \<Rightarrow> u8 \<Rightarrow> u8 list \<Rightarrow> msg + u8" where
  "adf_check tracks track stat rxbuf =
     (let p = mfm_param rxbuf 0 4 in
      if p ! 0 \<noteq> 0xFF \<or> ucast (p ! 1) \<ge> tracks \<or> p ! 2 > 10 \<or> p ! 3 > 11 \<or> p ! 3 = 0
      then Inl (WARNING ''Drv01:W Param err %u.%u.%u.%u'' (map (\<lambda>b. MsgInt (unat b)) p))
      else if p ! 1 \<noteq> track then Inl (WARNING ''Drv01:W Track param mismatch'' [])
      else if mfm_param rxbuf 0x28 0x2C \<noteq> mfm_checksum rxbuf 0 10
      then Inl (WARNING ''Drv01:W Header checksum error'' [])
      else if mfm_param rxbuf 0x30 0x34 \<noteq> mfm_checksum rxbuf 0x38 0x100
      then Inl (WARNING ''Drv01:W Data checksum error'' [])
      else if stat AND FILEIO_STAT_READONLY_OR_PROTECTED \<noteq> 0
      then Inl (WARNING ''Drv01:W Read only disk!'' [])
      else Inr (p ! 2))"

text \<open>The byte offset of a sector, in 32-bit arithmetic.\<close>

definition adf_offset :: "u8 \<Rightarrow> u8 \<Rightarrow> u32" where
  "adf_offset track sector = 512 * 11 * ucast track + push_bit 9 (ucast sector)"

definition adf_decode :: "u8 list \<Rightarrow> u8 list" where
  "adf_decode rxbuf = map (\<lambda>i. MFMDecode (rxbuf ! (i + 0x38)) (rxbuf ! (i + 0x238))) [0..<0x200]"

lemma unat_pred_less: "r \<noteq> 1 \<Longrightarrow> unat (r - 2) < unat (r - 1 :: u16)"
proof -
  assume "r \<noteq> 1"
  then have r: "r - 1 \<noteq> 0" by simp
  then have "unat (r - 1) \<noteq> 0" by (simp only: unat_eq_0) simp
  with r show ?thesis using unat_minus_one [of "r - 1"] by (simp add: diff_diff_eq)
qed

text \<open>Looking for the sync word \<open>0x4489\<close>; the counter wraps.\<close>

function find_sync :: "u16 \<Rightarrow> world \<Rightarrow> bool \<times> world" where
  "find_sync reqsize w =
     (let (hi, w) = rSPI 0 w; (lo, w) = rSPI 0 w; rx = push_bit 8 (ucast hi) OR ucast lo :: u16;
          reqsize = reqsize - 1
      in if rx = 0x4489 then (True, w)
         else if reqsize \<noteq> 0 then find_sync reqsize w
         else (False, w))"
  by pat_completeness auto
termination
  by (relation "measure (\<lambda>(reqsize, w). unat (reqsize - 1))") (auto simp: unat_pred_less)

declare find_sync.simps [simp del]

definition adf_store :: "u32 \<Rightarrow> u8 list \<Rightarrow> FIL \<Rightarrow> world \<Rightarrow> FIL \<times> world" where
  "adf_store offset dat pFile w =
     (let (e, pFile) = FF_Seek pFile (uint offset) FF_SEEK_SET in
      if e \<noteq> 0 then (pFile, say (WARNING ''Drv01:Seek error'' []) w)
      else let (n, pFile) = FF_Write pFile 0x200 1 dat
           in (pFile, if n \<noteq> 0x200 then say (WARNING ''Drv01:!! Write Fail!!'' []) w else w))"

text \<open>
  The handler of a write request: the new write state, the file and the world.
\<close>

definition adf_write_sector :: "nat \<Rightarrow> drv01_desc \<Rightarrow> u8 \<Rightarrow> u8 \<Rightarrow> u16 \<Rightarrow> FIL \<Rightarrow> world \<Rightarrow> FIL \<times> world" where
  "adf_write_sector ch dsc stat track reqsize pFile w =
     (if reqsize < of_nat DRV01_ADF_WRITE_LEN then (pFile, w)
      else let (rx, w) = FCh_fifo_read ch [0, 0] w in
           if push_bit 8 (ucast (rx ! 0)) OR ucast (rx ! 1) \<noteq> (0x4489 :: u16)
           then (pFile, say (WARNING ''Drv01:W 2nd sync word missing'' []) w)
           else let (rxbuf, w) = FCh_fifo_read ch (replicate (DRV01_ADF_WRITE_LEN * 2) 0) w
                in case adf_check (total_tracks dsc) track stat rxbuf of
                     Inl m \<Rightarrow> (pFile, say m w)
                   | Inr sector \<Rightarrow> adf_store (adf_offset track sector) (adf_decode rxbuf) pFile w)"

definition ADF_Write :: "nat \<Rightarrow> drv01_desc \<Rightarrow> u8 \<Rightarrow> FIL \<Rightarrow> u8 \<Rightarrow> world \<Rightarrow> u8 \<times> FIL \<times> world" where
  "ADF_Write ch dsc stat pFile wstate w =
     (let (bs, w) = FCh_cmd_read ch 6 w;
          track = bs ! 1;
          reqsize = (push_bit 8 (ucast (bs ! 4)) OR ucast (bs ! 5)) + 1 :: u16;
          w = FCh_WriteStat ch DRV01_STAT_REQ_ACK w;
          (wstate, pFile, w) =
            (if wstate = 0
             then let (sync, w) = find_sync reqsize (snd (rSPI (FCH_CMD ch FCH_CMD_FIFO_R) (SPI_EnableFileIO w)))
                  in (if sync then 1 else 0, pFile, SPI_DisableFileIO w)
             else if wstate = 1
             then (0, adf_write_sector ch dsc stat track reqsize pFile w)
             else (0, pFile, w))
      in (wstate, pFile, FCh_WriteStat ch DRV01_STAT_TRANS_ACK_OK w))"

subsection \<open>Reading an ADF image\<close>

text \<open>
  The handler of a read request sends the next sector of the track, whichever that is.  The FPGA
  encodes the data itself: commands \<open>2\<close> and \<open>3\<close> of the FIFO receive the same bytes for their odd
  and even bits.
\<close>

definition adf_send_sector :: "nat \<Rightarrow> u8 list \<Rightarrow> u8 \<Rightarrow> u8 \<Rightarrow> u16 \<Rightarrow> world \<Rightarrow> world" where
  "adf_send_sector ch pBuffer sector track dsksync w =
     (let w = SPI_EnableFileIO w;
          w = snd (rSPI (FCH_CMD ch FCH_CMD_FIFO_W) w);
          w = Amiga_SendHeader pBuffer sector track (ucast (drop_bit 8 dsksync)) (ucast dsksync) w;
          w = SPI_DisableFileIO w;
          w = fileio_cmd (FCH_CMD ch (FCH_CMD_FIFO_W OR 0x2) # take 0x200 pBuffer) w;
          w = fileio_cmd (FCH_CMD ch (FCH_CMD_FIFO_W OR 0x3) # take 0x200 pBuffer) w;
          w = SPI_DisableFileIO w
      in if sector = LAST_SECTOR
         then (let w = fileio_cmd [FCH_CMD ch (FCH_CMD_FIFO_W OR 0x1), 0xAA, 0xAA] w
               in fileio_cmd (FCH_CMD ch FCH_CMD_FIFO_W # replicate (GAP_SIZE div 2 - 1) 0xAA @ [0xAA]) w)
         else w)"

text \<open>Sync words of some copy protections are replaced by the standard one.\<close>

definition adf_dsksync :: "u16 \<Rightarrow> u16" where
  "adf_dsksync dsksync =
     (if dsksync = 0x0000 \<or> dsksync = 0x8914 \<or> dsksync = 0xA144 then 0x4489 else dsksync)"

definition adf_track :: "u16 \<Rightarrow> u8 \<Rightarrow> u8" where
  "adf_track tracks track = (if ucast track \<ge> tracks then ucast (tracks - 1) else track)"

definition ADF_Read :: "nat \<Rightarrow> drv01_desc \<Rightarrow> FIL \<Rightarrow> u8 list \<Rightarrow> world \<Rightarrow> drv01_desc \<times> FIL \<times> u8 list \<times> world" where
  "ADF_Read ch dsc pFile pBuffer w =
     (let (bs, w) = FCh_cmd_read ch 4 w;
          w = FCh_WriteStat ch DRV01_STAT_REQ_ACK w;
          track = adf_track (total_tracks dsc) (bs ! 1);
          sector = cur_sector dsc;
          dsc = dsc\<lparr>cur_sector := if cur_sector dsc = LAST_SECTOR then 0 else cur_sector dsc + 1\<rparr>;
          dsksync = adf_dsksync (push_bit 8 (ucast (bs ! 2)) OR ucast (bs ! 3));
          (e, pFile) = FF_Seek pFile (uint (adf_offset track sector)) FF_SEEK_SET
      in if e \<noteq> 0 then (dsc, pFile, pBuffer, FCh_WriteStat ch DRV01_STAT_TRANS_ACK_SEEK_ERR w)
         else let (dat, pFile) = FF_Read pFile 512 1;
                  pBuffer = fill pBuffer dat;
                  w = adf_send_sector ch pBuffer sector track dsksync w
              in (dsc, pFile, pBuffer, FCh_WriteStat ch DRV01_STAT_TRANS_ACK_OK w))"

subsection \<open>Reading an SCP image\<close>

text \<open>The track header as it lies in memory: 64 bytes, little-endian.\<close>

definition tlo_at :: "u8 list \<Rightarrow> nat \<Rightarrow> scp_tlo" where
  "tlo_at bs i = \<lparr>index_time = le32_at bs i, track_length = le32_at bs (i + 4), track_offset = le32_at bs (i + 8)\<rparr>"

definition trk_of_bytes :: "u8 list \<Rightarrow> scp_track_header" where
  "trk_of_bytes bs =
     \<lparr>trk_id = take 3 bs, track_number = bs ! 3, tlo = map (\<lambda>i. tlo_at bs (4 + 12 * i)) [0..<5]\<rparr>"

definition tlo_bytes :: "scp_tlo \<Rightarrow> u8 list" where
  "tlo_bytes t = le32 (index_time t) @ le32 (track_length t) @ le32 (track_offset t)"

definition trk_bytes :: "scp_track_header \<Rightarrow> u8 list" where
  "trk_bytes h = trk_id h @ [track_number h] @ concat (map tlo_bytes (tlo h))"

definition zero_tlo :: scp_tlo where
  "zero_tlo = \<lparr>index_time = 0, track_length = 0, track_offset = 0\<rparr>"

definition zero_trk :: scp_track_header where
  "zero_trk = \<lparr>trk_id = [0, 0, 0], track_number = 0, tlo = replicate 5 zero_tlo\<rparr>"

text \<open>A step to another track reads its header.\<close>

definition scp_load_track :: "u8 \<Rightarrow> drv01_desc \<Rightarrow> FIL \<Rightarrow> world \<Rightarrow> drv01_desc \<times> FIL \<times> world" where
  "scp_load_track track dsc pFile w =
     (let pFile = snd (FF_Seek pFile (0x0010 + (uint track - uint (scp_start_track dsc)) * 4) FF_SEEK_SET);
          (dat, pFile) = FF_Read pFile 4 1;
          offset = le32_at (fill [0, 0, 0, 0] dat) 0
      in if offset = 0 then (dsc\<lparr>scp_cur_track_header_addr := 0\<rparr>, pFile, w)
         else let pFile = snd (FF_Seek pFile (uint offset) FF_SEEK_SET);
                  (dat, pFile) = FF_Read pFile 64 1;
                  hdr = trk_of_bytes (fill (trk_bytes (scp_cur_track_header dsc)) dat);
                  (addr, w) = (if strncmp (chars (trk_id hdr)) ''TRK'' 3 \<noteq> 0
                               then (0, say (WARNING ''Bad TRK header'' []) w) else (offset, w));
                  (addr, w) = (if track_number hdr \<noteq> track
                               then (0, say (WARNING ''TRK header does not match current track'' []) w)
                               else (addr, w));
                  ofs = (if scp_cur_track_offset dsc > track_length (tlo hdr ! 0) then 0
                         else scp_cur_track_offset dsc)
              in (dsc\<lparr>scp_cur_track_header_addr := addr, scp_cur_track_header := hdr, scp_cur_track_rev := 0,
                      scp_cur_track_offset := ofs\<rparr>, pFile, w))"

definition scp_step_track :: "u8 \<Rightarrow> drv01_desc \<Rightarrow> FIL \<Rightarrow> world \<Rightarrow> drv01_desc \<times> FIL \<times> world" where
  "scp_step_track track dsc pFile w =
     (if track = scp_cur_track dsc then (dsc, pFile, w)
      else let dsc = dsc\<lparr>scp_cur_track := track\<rparr>
           in if track > scp_end_track dsc then (dsc\<lparr>scp_cur_track_header_addr := 0\<rparr>, pFile, w)
              else if track < scp_start_track dsc then (dsc\<lparr>scp_cur_track_header_addr := 0\<rparr>, pFile, w)
              else scp_load_track track dsc pFile w)"

text \<open>
  How many bytes the next transfer of a track has, from its position in the file and the number of
  bytes left: at most 2048, and up to the next 512-byte boundary if one end is not aligned.
\<close>

definition scp_unaligned :: "u32 \<Rightarrow> u32 \<Rightarrow> bool" where
  "scp_unaligned offset trans_len \<longleftrightarrow> offset AND 0x1FF \<noteq> 0 \<or> trans_len AND 0x1FF \<noteq> 0"

definition scp_trans_len :: "u32 \<Rightarrow> u32 \<Rightarrow> u32" where
  "scp_trans_len offset trans_len =
     (if scp_unaligned offset trans_len
      then (let offset_sub = 0x200 - (offset AND 0x1FF);
                trans_len = (if trans_len > offset_sub then offset_sub else trans_len)
            in trans_len AND 0xFFFE)
      else trans_len)"

text \<open>After a transfer: the next position, and at the end of the track the next revolution.\<close>

definition scp_advance :: "u32 \<Rightarrow> u32 \<Rightarrow> drv01_desc \<Rightarrow> drv01_desc" where
  "scp_advance trans_len cur_track_len dsc =
     (let dsc = dsc\<lparr>scp_cur_track_offset := scp_cur_track_offset dsc + drop_bit 1 trans_len\<rparr>
      in if scp_cur_track_offset dsc \<ge> cur_track_len
         then (let rev = scp_cur_track_rev dsc + 1
               in dsc\<lparr>scp_cur_track_offset := 0,
                        scp_cur_track_rev := if rev = scp_revolutions dsc then 0 else rev\<rparr>)
         else dsc)"

text \<open>A revolution number outside the header's table is an access outside the array: \<open>None\<close>.\<close>

definition scp_send ::
  "nat \<Rightarrow> drv01_desc \<Rightarrow> FIL \<Rightarrow> u8 list \<Rightarrow> world \<Rightarrow> (drv01_desc \<times> FIL \<times> u8 list \<times> world) option" where
  "scp_send ch dsc pFile pBuffer w =
     (if unat (scp_cur_track_rev dsc) \<ge> length (tlo (scp_cur_track_header dsc)) then None
      else let t = tlo (scp_cur_track_header dsc) ! unat (scp_cur_track_rev dsc);
               w = (if scp_cur_track_offset dsc = 0
                    then fileio_cmd [FCH_CMD ch (FCH_CMD_FIFO_W OR 0x1), 0x00, 0x04] w else w);
               cur_track_len = track_length t;
               trans_len = cur_track_len - scp_cur_track_offset dsc;
               trans_len = (if trans_len > 1024 then 1024 else trans_len);
               trans_len = push_bit 1 trans_len;
               offset = scp_cur_track_header_addr dsc + track_offset t + push_bit 1 (scp_cur_track_offset dsc);
               pFile = snd (FF_Seek pFile (uint offset) FF_SEEK_SET);
               len = scp_trans_len offset trans_len
           in do { (pFile, pBuffer, w) \<leftarrow>
                     (if scp_unaligned offset trans_len
                      then let (dat, pFile) = FF_Read pFile len 1;
                               pBuffer = fill pBuffer dat
                           in Some (pFile, pBuffer, FCh_fifo_write ch (take (unat len) pBuffer) w)
                      else do { (_, pFile, w) \<leftarrow> fifo_direct ch pFile len w; Some (pFile, pBuffer, w) });
                   Some (scp_advance len cur_track_len dsc, pFile, pBuffer, w) })"

definition SCP_Read ::
  "nat \<Rightarrow> drv01_desc \<Rightarrow> FIL \<Rightarrow> u8 list \<Rightarrow> world \<Rightarrow> (drv01_desc \<times> FIL \<times> u8 list \<times> world) option" where
  "SCP_Read ch dsc pFile pBuffer w =
     (let (bs, w) = FCh_cmd_read ch 2 w;
          w = FCh_WriteStat ch DRV01_STAT_REQ_ACK w;
          (dsc, pFile, w) = scp_step_track (bs ! 1) dsc pFile w
      in do { (dsc, pFile, pBuffer, w) \<leftarrow>
                (if scp_cur_track_header_addr dsc = 0 then Some (dsc, pFile, pBuffer, w)
                 else scp_send ch dsc pFile pBuffer w);
              Some (dsc, pFile, pBuffer, FCh_WriteStat ch DRV01_STAT_TRANS_ACK_OK w) })"

subsection \<open>The process function\<close>

text \<open>One request for a drive whose descriptor and file are there.\<close>

definition drv01_request ::
  "nat \<Rightarrow> bool \<Rightarrow> nat \<Rightarrow> u8 \<Rightarrow> drv01_desc \<Rightarrow> FIL \<Rightarrow> u8 list \<Rightarrow> drv01_static \<Rightarrow> world
     \<Rightarrow> (drv01_desc \<times> FIL \<times> u8 list \<times> drv01_static \<times> world) option" where
  "drv01_request ch wr d stat dsc pFile fbuf s w =
     (if wr
      then let s = (if d \<noteq> write_drive s then s\<lparr>write_state := 0\<rparr> else s);
               (ws, pFile, w) = (if format01 dsc = ADF then ADF_Write ch dsc stat pFile (write_state s) w
                                 else (write_state s, pFile, w))
           in Some (dsc, pFile, fbuf, s\<lparr>write_state := ws, write_drive := d\<rparr>, w)
      else do { (dsc, pFile, fbuf, w) \<leftarrow>
                  (case format01 dsc of
                     ADF \<Rightarrow> Some (ADF_Read ch dsc pFile fbuf w)
                   | SCP \<Rightarrow> SCP_Read ch dsc pFile fbuf w
                   | XXX01 \<Rightarrow> Some (dsc, pFile, fbuf, w));
                Some (dsc, pFile, fbuf, s\<lparr>write_state := 0\<rparr>, w) })"

fun Drv01_Process_loop ::
  "nat \<Rightarrow> nat \<Rightarrow> handles \<Rightarrow> u8 \<Rightarrow> u8 list \<Rightarrow> drv01_static \<Rightarrow> world \<Rightarrow> (handles \<times> drv01_static \<times> world) option" where
  "Drv01_Process_loop 0 ch handle stat fbuf s w = Some (handle, s, w)"
| "Drv01_Process_loop (Suc goes) ch handle stat fbuf s w =
     (let wr = bit stat 2;
          d = unat (drop_bit 4 stat AND 0x03);
          pDrive = drive handle ch d
      in if FCh_GetInserted handle ch d = 0
         then Some (handle, s, FCh_WriteStat ch DRV01_STAT_TRANS_ACK_ABORT_ERR (FCh_WriteStat ch DRV01_STAT_REQ_ACK w))
         else case (pDesc pDrive, fSource pDrive) of
                (Some (Desc01 desc), Some pFile) \<Rightarrow>
                  do { (desc, pFile, fbuf, s, w) \<leftarrow> drv01_request ch wr d (status pDrive) desc pFile fbuf s w;
                       let handle = set_drive handle ch d (pDrive\<lparr>pDesc := Some (Desc01 desc), fSource := Some pFile\<rparr>);
                           (stat, w) = FCh_GetStat ch w
                       in if stat AND FILEIO_REQ_ACT \<noteq> 0
                          then Drv01_Process_loop goes ch handle stat fbuf s w
                          else Some (handle, s, w) }
              | _ \<Rightarrow> None)"

definition Drv01_Process ::
  "nat \<Rightarrow> handles \<Rightarrow> u8 \<Rightarrow> u8 list \<Rightarrow> drv01_static \<Rightarrow> world \<Rightarrow> (handles \<times> drv01_static \<times> world) option" where
  "Drv01_Process ch handle stat fbuf s w = Drv01_Process_loop FILEIO_PROCESS_LIMIT ch handle stat fbuf s w"

subsection \<open>Inserting a disk\<close>

definition zero_drv01_desc :: drv01_desc where
  "zero_drv01_desc =
     \<lparr>format01 = XXX01, file_size01 = 0, total_tracks = 0, cur_sector = 0, scp_start_track = 0, scp_end_track = 0,
      scp_revolutions = 0, scp_cur_track = 0, scp_cur_track_header_addr = 0, scp_cur_track_header = zero_trk,
      scp_cur_track_rev = 0, scp_cur_track_offset = 0\<rparr>"

definition scp_header_of_bytes :: "u8 list \<Rightarrow> scp_header" where
  "scp_header_of_bytes bs =
     \<lparr>scp_id = take 3 bs, scp_version = bs ! 3, disk_type = bs ! 4, number_of_revolutions = bs ! 5,
      start_track = bs ! 6, end_track = bs ! 7, scp_flags = bs ! 8, cell_encoding = bs ! 9,
      resv_0 = bs ! 10, resv_1 = bs ! 11, scp_checksum = le32_at bs 12\<rparr>"

text \<open>The descriptor of an ADF image: as many whole tracks as the file has, at most 166.\<close>

definition adf_insert :: "drv01_desc \<Rightarrow> world \<Rightarrow> drv01_desc \<times> world" where
  "adf_insert dsc w =
     (let tracks = ucast (file_size01 dsc div (512 * 11));
          (tracks, w) = (if tracks > ADF_MAX_TRACKS
                         then (ADF_MAX_TRACKS, say (WARNING ''Too many tracks: %u'' [MsgInt (unat tracks)])
                                                 (say (WARNING ''Bad ADF size!!!'' []) w))
                         else (tracks, w))
      in (dsc\<lparr>format01 := ADF, total_tracks := tracks\<rparr>, w))"

text \<open>
  The descriptor of an SCP image, from its header; \<open>stack\<close> is the old content of the header
  variable.  The result is whether the header is usable.
\<close>

definition scp_insert :: "u8 list \<Rightarrow> drv01_desc \<Rightarrow> FIL \<Rightarrow> world \<Rightarrow> bool \<times> drv01_desc \<times> FIL \<times> world" where
  "scp_insert stack dsc pFile w =
     (let dsc = dsc\<lparr>format01 := SCP\<rparr>;
          pFile = snd (FF_Seek pFile 0 FF_SEEK_SET);
          (dat, pFile) = FF_Read pFile 16 1;
          hdr = scp_header_of_bytes (fill stack dat)
      in if strncmp (chars (scp_id hdr)) ''SCP'' 3 \<noteq> 0
         then (False, dsc, pFile, say (WARNING ''Bad SCP header'' []) w)
         else if cell_encoding hdr \<noteq> 0 \<or> number_of_revolutions hdr < 1 \<or> number_of_revolutions hdr > 5
                 \<or> end_track hdr < start_track hdr
         then (False, dsc, pFile, say (WARNING ''Unsupported SCP file'' []) w)
         else (True, dsc\<lparr>total_tracks := 1 + ucast (end_track hdr) - ucast (start_track hdr),
                         scp_start_track := start_track hdr, scp_end_track := end_track hdr,
                         scp_revolutions := number_of_revolutions hdr, scp_cur_track := 255,
                         scp_cur_track_header_addr := 0, scp_cur_track_rev := 0, scp_cur_track_offset := 0\<rparr>,
               pFile, w))"

text \<open>The image goes by the first three characters of the extension; the FPGA is told the mode.\<close>

definition Drv01_InsertInit ::
  "bool \<Rightarrow> u8 list \<Rightarrow> nat \<Rightarrow> nat \<Rightarrow> fch \<Rightarrow> string \<Rightarrow> world \<Rightarrow> (u8 \<times> fch \<times> world) option" where
  "Drv01_InsertInit alloc stack ch drive_number pDrive ext w =
     (if \<not> alloc
      then Some (1, pDrive\<lparr>pDesc := None\<rparr>, say (WARNING ''Drv01:Failed to allocate memory.'' []) w)
      else case fSource pDrive of
             None \<Rightarrow> None
           | Some pFile \<Rightarrow>
               let dsc = zero_drv01_desc\<lparr>file_size01 := ucast (FF_Size pFile)\<rparr>;
                   (ok, dsc, pFile, stat, w) =
                     (if strncasecmp ext ''ADF'' 3 = 0
                      then (let (dsc, w) = adf_insert dsc w in (True, dsc, pFile, status pDrive, w))
                      else if strncasecmp ext ''SCP'' 3 = 0
                      then (let (ok, dsc, pFile, w) = scp_insert stack dsc pFile w
                            in (ok, dsc, pFile, if ok then status pDrive OR FILEIO_STAT_READONLY else status pDrive, w))
                      else (False, dsc, pFile, status pDrive, say (WARNING ''Drv01:Unsupported format.'' []) w));
                   pDrive = pDrive\<lparr>pDesc := Some (Desc01 dsc), fSource := Some pFile, status := stat\<rparr>
               in if \<not> ok then Some (1, pDrive, w)
                  else Some (0, pDrive,
                         fileio_cmd [FCH_CMD ch FCH_CMD_CMD_W, of_nat drive_number,
                                     case format01 dsc of ADF \<Rightarrow> 0x00 | SCP \<Rightarrow> 0x01 | XXX01 \<Rightarrow> 0x00] w))"

subsection \<open>MFM\<close>

lemma u8_bits:
  "bit (0x02 :: u8) n \<longleftrightarrow> n = 1" "bit (0x08 :: u8) n \<longleftrightarrow> n = 3" "bit (0x20 :: u8) n \<longleftrightarrow> n = 5"
  "bit (0x80 :: u8) n \<longleftrightarrow> n = 7" "bit (0x55 :: u8) n \<longleftrightarrow> n \<in> {0, 2, 4, 6}"
proof -
  have "\<forall>n \<in> set [0..<8]. (bit (0x02 :: u8) n \<longleftrightarrow> n = 1) \<and> (bit (0x08 :: u8) n \<longleftrightarrow> n = 3) \<and>
      (bit (0x20 :: u8) n \<longleftrightarrow> n = 5) \<and> (bit (0x80 :: u8) n \<longleftrightarrow> n = 7) \<and> (bit (0x55 :: u8) n \<longleftrightarrow> n \<in> {0, 2, 4, 6})"
    by code_simp
  moreover have "n \<notin> set [0..<8] \<Longrightarrow> \<not> bit (x :: u8) n \<and> n \<notin> {0, 1, 2, 3, 4, 5, 6, 7}" for x
    by (auto dest: bit_imp_le_length)
  ultimately show "bit (0x02 :: u8) n \<longleftrightarrow> n = 1" "bit (0x08 :: u8) n \<longleftrightarrow> n = 3" "bit (0x20 :: u8) n \<longleftrightarrow> n = 5"
    "bit (0x80 :: u8) n \<longleftrightarrow> n = 7" "bit (0x55 :: u8) n \<longleftrightarrow> n \<in> {0, 2, 4, 6}"
    by blast+
qed

text \<open>A byte of the encoding: data bits in the even positions, clock bits between zeros in the odd ones.\<close>

lemma u8_bit_tests:
  fixes x :: u8
  shows "x AND 0x01 = 0 \<longleftrightarrow> \<not> bit x 0" "x AND 0x04 = 0 \<longleftrightarrow> \<not> bit x 2"
    "x AND 0x10 = 0 \<longleftrightarrow> \<not> bit x 4" "x AND 0x40 = 0 \<longleftrightarrow> \<not> bit x 6"
  using and_exp_eq_0_iff_not_bit [of x 0] and_exp_eq_0_iff_not_bit [of x 2]
    and_exp_eq_0_iff_not_bit [of x 4] and_exp_eq_0_iff_not_bit [of x 6] by simp_all

lemma bit_if_or: "bit (if c then r OR m else r) n \<longleftrightarrow> bit r n \<or> c \<and> bit m n" for r :: u8
  by (simp add: bit_or_iff)

lemma bits_MFMEncode:
  "bit (MFMEncode d l) 0 \<longleftrightarrow> bit d 0" "bit (MFMEncode d l) 2 \<longleftrightarrow> bit d 2"
  "bit (MFMEncode d l) 4 \<longleftrightarrow> bit d 4" "bit (MFMEncode d l) 6 \<longleftrightarrow> bit d 6"
  "bit (MFMEncode d l) 1 \<longleftrightarrow> \<not> (bit d 0 \<or> bit d 2)" "bit (MFMEncode d l) 3 \<longleftrightarrow> \<not> (bit d 2 \<or> bit d 4)"
  "bit (MFMEncode d l) 5 \<longleftrightarrow> \<not> (bit d 4 \<or> bit d 6)" "bit (MFMEncode d l) 7 \<longleftrightarrow> \<not> (bit d 6 \<or> bit l 0)"
proof -
  define r0 r1 r2 r3 where "r0 = d AND 0x55"
    and "r1 = (if \<not> (r0 AND 0x01 \<noteq> 0 \<or> r0 AND 0x04 \<noteq> 0) then r0 OR 0x02 else r0)"
    and "r2 = (if \<not> (r1 AND 0x04 \<noteq> 0 \<or> r1 AND 0x10 \<noteq> 0) then r1 OR 0x08 else r1)"
    and "r3 = (if \<not> (r2 AND 0x10 \<noteq> 0 \<or> r2 AND 0x40 \<noteq> 0) then r2 OR 0x20 else r2)"
  have r0: "bit r0 k \<longleftrightarrow> bit d k \<and> k \<in> {0, 2, 4, 6}" for k
    unfolding r0_def by (simp only: bit_and_iff u8_bits)
  have r1: "bit r1 k \<longleftrightarrow> bit r0 k \<or> \<not> (bit d 0 \<or> bit d 2) \<and> k = 1" for k
    unfolding r1_def bit_if_or u8_bit_tests u8_bits by (simp add: r0)
  have r2: "bit r2 k \<longleftrightarrow> bit r1 k \<or> \<not> (bit d 2 \<or> bit d 4) \<and> k = 3" for k
    unfolding r2_def bit_if_or u8_bit_tests u8_bits by (simp add: r1 r0)
  have r3: "bit r3 k \<longleftrightarrow> bit r2 k \<or> \<not> (bit d 4 \<or> bit d 6) \<and> k = 5" for k
    unfolding r3_def bit_if_or u8_bit_tests u8_bits by (simp add: r2 r1 r0)
  have e: "bit (MFMEncode d l) k \<longleftrightarrow> bit r3 k \<or> \<not> (bit d 6 \<or> bit l 0) \<and> k = 7" for k
    unfolding MFMEncode_def Let_def r0_def [symmetric] r1_def [symmetric] r2_def [symmetric]
      r3_def [symmetric] bit_if_or u8_bit_tests u8_bits by (simp add: r3 r2 r1 r0)
  show "bit (MFMEncode d l) 0 \<longleftrightarrow> bit d 0" "bit (MFMEncode d l) 2 \<longleftrightarrow> bit d 2"
    "bit (MFMEncode d l) 4 \<longleftrightarrow> bit d 4" "bit (MFMEncode d l) 6 \<longleftrightarrow> bit d 6"
    "bit (MFMEncode d l) 1 \<longleftrightarrow> \<not> (bit d 0 \<or> bit d 2)" "bit (MFMEncode d l) 3 \<longleftrightarrow> \<not> (bit d 2 \<or> bit d 4)"
    "bit (MFMEncode d l) 5 \<longleftrightarrow> \<not> (bit d 4 \<or> bit d 6)" "bit (MFMEncode d l) 7 \<longleftrightarrow> \<not> (bit d 6 \<or> bit l 0)"
    by (simp_all add: e r3 r2 r1 r0)
qed

lemma MFMEncode_data: "MFMEncode d l AND 0x55 = d AND 0x55"
  by (rule u8_eqI; unfold bit_and_iff u8_bits) (simp_all add: bits_MFMEncode)

lemma MFMDecode_param: "MFMDecode a b = MFMDecode (a AND 0x55) (b AND 0x55)"
  by (simp add: MFMDecode_def and.assoc)

lemma u8_high: "8 \<le> n \<Longrightarrow> \<not> bit (x :: u8) n"
  by (auto dest: bit_imp_le_length)

lemma MFMDecode_halves: "MFMDecode (drop_bit 1 d AND 0x55) (d AND 0x55) = d"
  by (rule u8_eqI; unfold MFMDecode_def bit_or_iff bit_push_bit_iff bit_and_iff u8_bits bit_drop_bit_eq)
    (simp_all add: numeral_2_eq_2 [symmetric])

lemma MFM_roundtrip:
  "d1 AND 0x55 = drop_bit 1 d AND 0x55 \<Longrightarrow> MFMDecode (MFMEncode d1 l) (MFMEncode d l') = d"
  using MFMDecode_param [of "MFMEncode d1 l" "MFMEncode d l'"]
  by (simp only: MFMEncode_data MFMDecode_halves)

text \<open>
  C19. The MFM code is a code: the odd and the even half of a byte decode to that byte, whatever
  bytes precede them.  And it obeys the recording rule: between two ones, also across the byte
  before, there is at least one zero, and never more than three.
\<close>

theorem mfm_code:
  "MFMDecode (MFMEncode (drop_bit 1 d) l) (MFMEncode d l') = d \<and>
   (let x = MFMEncode d l in
      x AND drop_bit 1 x = 0 \<and> \<not> (bit l 0 \<and> bit x 7) \<and>
      (x OR drop_bit 1 x OR drop_bit 2 x OR drop_bit 3 x) AND 0x1F = 0x1F)"
proof -
  have "MFMDecode (MFMEncode (drop_bit 1 d) l) (MFMEncode d l') = d"
    by (rule MFM_roundtrip) simp
  moreover have "MFMEncode d l AND drop_bit 1 (MFMEncode d l) = 0"
    by (rule u8_eqI; unfold bit_and_iff bit_drop_bit_eq comp_def)
      (simp_all add: bits_MFMEncode bits_MFMEncode [unfolded One_nat_def] numeral_2_eq_2 [symmetric] u8_high)
  moreover have "(MFMEncode d l OR drop_bit 1 (MFMEncode d l) OR drop_bit 2 (MFMEncode d l) OR drop_bit 3 (MFMEncode d l))
      AND 0x1F = 0x1F"
    by (rule u8_eqI; unfold bit_and_iff bit_or_iff bit_drop_bit_eq comp_def)
      (auto simp: bits_MFMEncode bits_MFMEncode [unfolded One_nat_def] numeral_2_eq_2 [symmetric] u8_high)
  ultimately show ?thesis by (simp add: Let_def bits_MFMEncode)
qed

subsection \<open>A sector, there and back\<close>

definition xsum :: "(nat \<Rightarrow> u8) \<Rightarrow> nat \<Rightarrow> u8" where
  "xsum f n = foldl (\<lambda>c j. c XOR f j) 0 [0..<n]"

lemma xsum_simps [simp]: "xsum f 0 = 0" "xsum f (Suc n) = xsum f n XOR f n"
  by (simp_all add: xsum_def)

lemma xsum_xor: "xsum (\<lambda>j. f j XOR g j) n = xsum f n XOR xsum g n"
  by (induction n) (simp_all add: ac_simps xor.left_commute)

lemma xsum_and: "xsum f n AND m = xsum (\<lambda>j. f j AND m) n"
  by (induction n) (simp_all add: bit_eq_iff bit_simps, blast)

lemma xsum_split: "xsum f (m + n) = xsum f m XOR xsum (\<lambda>j. f (m + j)) n"
  by (induction n) (simp_all add: ac_simps)

lemma xsum_cong: "(\<And>j. j < n \<Longrightarrow> f j = g j) \<Longrightarrow> xsum f n = xsum g n"
  by (induction n) simp_all

lemma xsum_head: "xsum f (Suc n) = f 0 XOR xsum (\<lambda>j. f (Suc j)) n"
  using xsum_split [of f 1 n] by simp

text \<open>A position of the four columns of the data.\<close>

definition both :: "u8 list \<Rightarrow> nat \<Rightarrow> nat \<Rightarrow> u8" where
  "both p i j = p ! (i + j * 4) XOR drop_bit 1 (p ! (i + j * 4))"

lemma data_checksum_xsum:
  "4 * n \<le> length p \<Longrightarrow>
   data_checksum n p (c0, c1, c2, c3) =
     (c0 XOR xsum (both p 0) n, c1 XOR xsum (both p 1) n, c2 XOR xsum (both p 2) n, c3 XOR xsum (both p 3) n)"
proof (induction n arbitrary: p c0 c1 c2 c3)
  case (Suc n)
  have s: "both (drop 4 p) i = (\<lambda>j. both p i (Suc j))" for i
    using Suc.prems by (intro ext) (simp add: both_def add.commute add.left_commute)
  have "both p i 0 = p ! i XOR drop_bit 1 (p ! i)" for i by (simp add: both_def)
  with Suc s show ?case by (simp add: xsum_head xor.assoc del: xsum_simps(2))
qed simp

lemma map_upt_4: "map f [0..<4] = [f 0, f 1, f 2, f 3]"
  by (simp add: eval_nat_numeral)

lemma mfm_checksum_xsum:
  "mfm_checksum rx start n =
     [xsum (\<lambda>j. rx ! (start + j * 4)) n AND 0x55, xsum (\<lambda>j. rx ! (start + 1 + j * 4)) n AND 0x55,
      xsum (\<lambda>j. rx ! (start + 2 + j * 4)) n AND 0x55, xsum (\<lambda>j. rx ! (start + 3 + j * 4)) n AND 0x55]"
  by (simp add: mfm_checksum_def xsum_def map_upt_4 add.assoc)

lemma mfm_param_list:
  "mfm_param rx o_pos e_pos =
     [MFMDecode (rx ! o_pos) (rx ! e_pos), MFMDecode (rx ! (1 + o_pos)) (rx ! (1 + e_pos)),
      MFMDecode (rx ! (2 + o_pos)) (rx ! (2 + e_pos)), MFMDecode (rx ! (3 + o_pos)) (rx ! (3 + e_pos))]"
  by (simp add: mfm_param_def map_upt_4)

text \<open>What a floppy controller sees of a sector after its second sync word: the FPGA encodes the data.\<close>

definition sector_image :: "u8 list \<Rightarrow> u8 \<Rightarrow> u8 \<Rightarrow> u8 \<Rightarrow> u8 \<Rightarrow> u8 list" where
  "sector_image buf sector track sh sl =
     drop 8 (amiga_header buf sector track sh sl)
     @ map (\<lambda>b. drop_bit 1 b OR 0xAA) buf @ map (\<lambda>b. b OR 0xAA) buf"

lemma sector_image_data:
  assumes "length buf = 512" "i < 512"
  shows "sector_image buf sector track sh sl ! (0x38 + i) = drop_bit 1 (buf ! i) OR 0xAA"
    and "sector_image buf sector track sh sl ! (0x238 + i) = buf ! i OR 0xAA"
proof -
  define h where "h = drop 8 (amiga_header buf sector track sh sl)"
  have "length h = 56" by (simp add: h_def amiga_header_def Let_def case_prod_beta)
  then show "sector_image buf sector track sh sl ! (0x38 + i) = drop_bit 1 (buf ! i) OR 0xAA"
    and "sector_image buf sector track sh sl ! (0x238 + i) = buf ! i OR 0xAA"
    using assms unfolding sector_image_def h_def [symmetric] by (simp_all add: nth_append)
qed

lemma and_AA: "(x OR 0xAA) AND 0x55 = x AND (0x55 :: u8)" "0xAA AND (0x55 :: u8) = 0"
proof -
  show z: "0xAA AND (0x55 :: u8) = 0" by simp
  show "(x OR 0xAA) AND 0x55 = x AND (0x55 :: u8)" by (simp only: word_ao_dist z or.right_neutral)
qed

lemma xor_and_dist: "(x XOR y) AND m = (x AND m) XOR (y AND m)" for m :: u8
  by (rule bit_word_eqI) (auto simp: bit_simps)

lemma data_columns:
  assumes "length buf = 512" "i < 4"
  shows "xsum (\<lambda>j. sector_image buf sector track sh sl ! (0x38 + i + j * 4)) 0x100 AND 0x55 = xsum (both buf i) 128 AND 0x55"
proof -
  let ?x = "sector_image buf sector track sh sl"
  have 1: "?x ! (0x38 + i + j * 4) AND 0x55 = drop_bit 1 (buf ! (i + j * 4)) AND 0x55" if "j < 128" for j
    using sector_image_data(1) [of buf "i + j * 4" sector track sh sl] assms that by (simp add: and_AA add.assoc)
  have 2: "?x ! (0x38 + i + (128 + j) * 4) AND 0x55 = buf ! (i + j * 4) AND 0x55" if "j < 128" for j
  proof -
    have "0x38 + i + (128 + j) * 4 = 0x238 + (i + j * 4)" by simp
    with sector_image_data(2) [of buf "i + j * 4" sector track sh sl] assms that show ?thesis by (simp only: and_AA)
  qed
  have "xsum (\<lambda>j. ?x ! (0x38 + i + j * 4)) 0x100 AND 0x55 =
      xsum (\<lambda>j. ?x ! (0x38 + i + j * 4) AND 0x55) (128 + 128)"
    by (simp only: xsum_and) simp
  also have "\<dots> = xsum (\<lambda>j. drop_bit 1 (buf ! (i + j * 4)) AND 0x55) 128 XOR xsum (\<lambda>j. buf ! (i + j * 4) AND 0x55) 128"
    unfolding xsum_split by (intro arg_cong2 [where f = "(XOR)"] xsum_cong 1 2)
  also have "\<dots> = xsum (both buf i) 128 AND 0x55"
    by (simp only: xsum_and [symmetric] both_def [abs_def] xsum_xor xor_and_dist xor.commute)
  finally show ?thesis .
qed

lemma sector_image_header:
  fixes track sector sh sl :: u8
  defines "o0 \<equiv> MFMEncode 0xFF sl"
  defines "o1 \<equiv> MFMEncode (drop_bit 1 track) o0"
  defines "o2 \<equiv> MFMEncode (drop_bit 1 sector) o1"
  defines "o3 \<equiv> MFMEncode (drop_bit 1 (11 - sector)) o2"
  defines "e0 \<equiv> MFMEncode 0xFF o3"
  defines "e1 \<equiv> MFMEncode track e0"
  defines "e2 \<equiv> MFMEncode sector e1"
  defines "e3 \<equiv> MFMEncode (11 - sector) e2"
  assumes "length buf = 512"
  shows "\<exists>ys. sector_image buf sector track sh sl =
    [o0, o1, o2, o3, e0, e1, e2, e3] @ replicate 0x20 0xAA @ [0xAA, 0xAA, 0xAA, 0xAA,
     (o0 XOR e0) OR 0xAA, (o1 XOR e1) OR 0xAA, (o2 XOR e2) OR 0xAA, (o3 XOR e3) OR 0xAA,
     0xAA, 0xAA, 0xAA, 0xAA,
     xsum (both buf 0) 128 OR 0xAA, xsum (both buf 1) 128 OR 0xAA, xsum (both buf 2) 128 OR 0xAA,
     xsum (both buf 3) 128 OR 0xAA] @ ys"
proof -
  have "data_checksum (0x400 div 2 div 4) buf (0, 0, 0, 0) =
      (xsum (both buf 0) 128, xsum (both buf 1) 128, xsum (both buf 2) 128, xsum (both buf 3) 128)"
    using data_checksum_xsum [of 128 buf 0 0 0 0] assms by simp
  then show ?thesis unfolding sector_image_def amiga_header_def Let_def assms by (auto simp: assms)
qed

text \<open>
  C18. A sector read from an image can be written back: what the FPGA gets for a sector, in MFM,
  passes all checks of the write handler (parameters, track, header and data checksum) as this
  sector, and decodes to the same 512 bytes.
\<close>

theorem adf_sector_roundtrip:
  assumes "length buf = 512" and "sector \<le> LAST_SECTOR" and "ucast track < tracks"
    and "stat AND FILEIO_STAT_READONLY_OR_PROTECTED = 0"
  shows "adf_check tracks track stat (sector_image buf sector track sh sl) = Inr sector \<and>
    adf_decode (sector_image buf sector track sh sl) = buf"
proof
  let ?rx = "sector_image buf sector track sh sl"
  define o0 where "o0 = MFMEncode 0xFF sl"
  define o1 where "o1 = MFMEncode (drop_bit 1 track) o0"
  define o2 where "o2 = MFMEncode (drop_bit 1 sector) o1"
  define o3 where "o3 = MFMEncode (drop_bit 1 (11 - sector)) o2"
  define e0 where "e0 = MFMEncode 0xFF o3"
  define e1 where "e1 = MFMEncode track e0"
  define e2 where "e2 = MFMEncode sector e1"
  define e3 where "e3 = MFMEncode (11 - sector) e2"
  let ?d = "\<lambda>i. xsum (both buf i) 128"
  obtain ys where rx: "?rx = [o0, o1, o2, o3, e0, e1, e2, e3] @ replicate 0x20 0xAA @ [0xAA, 0xAA, 0xAA, 0xAA,
     (o0 XOR e0) OR 0xAA, (o1 XOR e1) OR 0xAA, (o2 XOR e2) OR 0xAA, (o3 XOR e3) OR 0xAA,
     0xAA, 0xAA, 0xAA, 0xAA, ?d 0 OR 0xAA, ?d 1 OR 0xAA, ?d 2 OR 0xAA, ?d 3 OR 0xAA] @ ys"
    using sector_image_header [OF assms(1), of sector track sh sl]
    unfolding o0_def e0_def o1_def e1_def o2_def e2_def o3_def e3_def by blast
  have r32: "replicate 0x20 (0xAA :: u8) = [0xAA, 0xAA, 0xAA, 0xAA, 0xAA, 0xAA, 0xAA, 0xAA, 0xAA, 0xAA, 0xAA, 0xAA,
    0xAA, 0xAA, 0xAA, 0xAA, 0xAA, 0xAA, 0xAA, 0xAA, 0xAA, 0xAA, 0xAA, 0xAA, 0xAA, 0xAA, 0xAA, 0xAA, 0xAA, 0xAA, 0xAA, 0xAA]"
    by (simp add: eval_nat_numeral)
  note rx = rx [unfolded r32 append.simps]
  have p: "mfm_param ?rx 0 4 = [0xFF, track, sector, 11 - sector]"
    unfolding mfm_param_list rx by (simp add: o0_def e0_def o1_def e1_def o2_def e2_def o3_def e3_def MFM_roundtrip)
  have u10: "[0..<10] = [0, 1, 2, 3, 4, 5, 6, 7, 8, 9]" by (simp add: eval_nat_numeral)
  have dec: "MFMDecode 0xAA (x OR 0xAA) = x AND 0x55" for x
    by (simp add: MFMDecode_def and_AA)
  have x2: "(x XOR 0xAA) XOR 0xAA = x" for x :: u8 by (simp add: xor.assoc)
  have h: "mfm_param ?rx 0x28 0x2C = mfm_checksum ?rx 0 10"
    unfolding mfm_param_list mfm_checksum_xsum xsum_def u10 rx
    by (simp add: dec x2)
  have "mfm_checksum ?rx 0x38 0x100 = [?d 0 AND 0x55, ?d 1 AND 0x55, ?d 2 AND 0x55, ?d 3 AND 0x55]"
    using data_columns [OF assms(1), of 0 sector track sh sl] data_columns [OF assms(1), of 1 sector track sh sl]
      data_columns [OF assms(1), of 2 sector track sh sl] data_columns [OF assms(1), of 3 sector track sh sl]
    unfolding mfm_checksum_xsum by simp
  then have d: "mfm_param ?rx 0x30 0x34 = mfm_checksum ?rx 0x38 0x100"
    unfolding mfm_param_list rx by (simp add: dec)
  have "11 - sector \<noteq> 0 \<and> 11 - sector \<le> 11"
  proof -
    have s: "unat sector \<le> 10" using assms(2) by (simp add: word_le_nat_alt)
    then have "unat (11 - sector) = 11 - unat sector" by (subst unat_sub) (simp_all add: word_le_nat_alt)
    with s show ?thesis by (auto simp: word_le_nat_alt)
  qed
  with p h d assms(2-4) show "adf_check tracks track stat ?rx = Inr sector"
    by (simp add: adf_check_def Let_def not_le linorder_not_less [THEN iffD2])
  show "adf_decode ?rx = buf"
  proof (rule nth_equalityI)
    show "length (adf_decode ?rx) = length buf" using assms(1) by (simp add: adf_decode_def)
    fix i assume "i < length (adf_decode ?rx)"
    then have i: "i < 512" by (simp add: adf_decode_def)
    have "adf_decode ?rx ! i = MFMDecode (?rx ! (0x38 + i)) (?rx ! (0x238 + i))"
      using i by (simp add: adf_decode_def add.commute)
    also have "\<dots> = MFMDecode (drop_bit 1 (buf ! i) AND 0x55) (buf ! i AND 0x55)"
      by (subst MFMDecode_param) (simp only: sector_image_data [OF assms(1) i] and_AA)
    also have "\<dots> = buf ! i" by (rule MFMDecode_halves)
    finally show "adf_decode ?rx ! i = buf ! i" .
  qed
qed

theorem adf_sector_roundtrip_witness:
  "adf_check 160 79 1 (sector_image (replicate 512 0xE5) 10 79 0x44 0x89) = Inr 10 \<and>
    adf_decode (sector_image (replicate 512 0xE5) 10 79 0x44 0x89) = replicate 512 0xE5"
  using adf_sector_roundtrip [of "replicate 512 0xE5" 10 79 160 1 "0x44" "0x89"] by simp

subsection \<open>The invariant of a floppy descriptor\<close>

text \<open>
  An ADF descriptor has at most 166 tracks, all inside the file, and its next sector is one of
  eleven.  An SCP descriptor has a current revolution that its header has, and on a loaded track a
  position that is not beyond the end.
\<close>

definition drv01_inv :: "drv01_desc \<Rightarrow> FIL \<Rightarrow> bool" where
  "drv01_inv dsc f \<longleftrightarrow>
     (format01 dsc = ADF \<longrightarrow>
        total_tracks dsc \<le> ADF_MAX_TRACKS \<and> unat (total_tracks dsc) * (512 * 11) \<le> f_size f \<and>
        cur_sector dsc \<le> LAST_SECTOR) \<and>
     (format01 dsc = SCP \<longrightarrow>
        scp_revolutions dsc \<le> 5 \<and> scp_cur_track_rev dsc < scp_revolutions dsc \<and>
        length (tlo (scp_cur_track_header dsc)) = 5 \<and>
        (scp_cur_track_header_addr dsc \<noteq> 0 \<longrightarrow>
           scp_cur_track_offset dsc
             \<le> track_length (tlo (scp_cur_track_header dsc) ! unat (scp_cur_track_rev dsc))))"

lemma drv01_inv_size: "drv01_inv dsc f \<Longrightarrow> f_size f \<le> f_size f' \<Longrightarrow> drv01_inv dsc f'"
  by (auto simp: drv01_inv_def)

lemma u8_next: "(x :: u8) \<le> 10 \<Longrightarrow> x \<noteq> 10 \<Longrightarrow> x + 1 \<le> 10"
  by (metis inc_le order.not_eq_order_implies_strict)

lemma u8_next_less: "(x :: u8) < r \<Longrightarrow> x + 1 \<noteq> r \<Longrightarrow> x + 1 < r"
  by (metis inc_le order.not_eq_order_implies_strict)

lemma adf_write_sector_size: "f_size f \<le> f_size (fst (adf_write_sector ch dsc stat track rs f w))"
  using order_trans [OF FF_Seek_size FF_Write_size]
  by (auto simp: adf_write_sector_def adf_store_def Let_def case_prod_beta FF_Seek_size split: sum.split)

lemma ADF_Write_size: "f_size f \<le> f_size (fst (snd (ADF_Write ch dsc stat f ws w)))"
  by (simp add: ADF_Write_def Let_def case_prod_beta adf_write_sector_size)

lemma ADF_Read_inv:
  assumes "drv01_inv dsc f" "ADF_Read ch dsc f buf w = (dsc', f', buf', w')" "format01 dsc = ADF"
  shows "drv01_inv dsc' f'"
proof -
  have "f_size f \<le> f_size f'"
    using assms(2) by (auto simp: ADF_Read_def Let_def case_prod_beta prod_eq_iff FF_Seek_size split: if_splits)
  moreover have "dsc' = dsc\<lparr>cur_sector := if cur_sector dsc = LAST_SECTOR then 0 else cur_sector dsc + 1\<rparr>"
    using assms(2) by (auto simp: ADF_Read_def Let_def case_prod_beta split: if_splits)
  ultimately show ?thesis using assms(1,3) u8_next by (auto simp: drv01_inv_def)
qed

lemma length_tlo_trk_of_bytes [simp]: "length (tlo (trk_of_bytes bs)) = 5"
  by (simp add: trk_of_bytes_def)

lemma scp_load_track_cases:
  assumes "scp_load_track track dsc f w = (dsc', f', w')"
  obtains "dsc' = dsc\<lparr>scp_cur_track_header_addr := 0\<rparr>"
  | hdr addr ofs where "length (tlo hdr) = 5" "ofs \<le> track_length (tlo hdr ! 0)"
      "dsc' = dsc\<lparr>scp_cur_track_header_addr := addr, scp_cur_track_header := hdr, scp_cur_track_rev := 0,
                 scp_cur_track_offset := ofs\<rparr>"
proof -
  obtain dat f1 where r1: "FF_Read (snd (FF_Seek f (0x0010 + (uint track - uint (scp_start_track dsc)) * 4) FF_SEEK_SET)) 4 1
      = (dat, f1)" by fastforce
  define offset where "offset = le32_at (fill [0, 0, 0, 0] dat) 0"
  obtain dat2 f2 where r2: "FF_Read (snd (FF_Seek f1 (uint offset) FF_SEEK_SET)) 64 1 = (dat2, f2)" by fastforce
  define hdr where "hdr = trk_of_bytes (fill (trk_bytes (scp_cur_track_header dsc)) dat2)"
  define ofs where "ofs = (if scp_cur_track_offset dsc > track_length (tlo hdr ! 0) then 0 else scp_cur_track_offset dsc)"
  obtain addr w2 where a: "(case if strncmp (chars (trk_id hdr)) ''TRK'' 3 \<noteq> 0
          then (0, say (WARNING ''Bad TRK header'' []) w) else (offset, w) of
        (addr, w) \<Rightarrow> if track_number hdr \<noteq> track
          then (0, say (WARNING ''TRK header does not match current track'' []) w) else (addr, w)) = (addr, w2)"
    by fastforce
  have "length (tlo hdr) = 5" "ofs \<le> track_length (tlo hdr ! 0)" by (simp_all add: hdr_def ofs_def not_less)
  moreover have "offset \<noteq> 0 \<Longrightarrow> dsc' = dsc\<lparr>scp_cur_track_header_addr := addr, scp_cur_track_header := hdr,
      scp_cur_track_rev := 0, scp_cur_track_offset := ofs\<rparr>"
    using assms a unfolding scp_load_track_def Let_def r1 prod.case offset_def [symmetric] r2 hdr_def [symmetric]
      ofs_def [symmetric] by (auto split: prod.splits)
  moreover have "offset = 0 \<Longrightarrow> dsc' = dsc\<lparr>scp_cur_track_header_addr := 0\<rparr>"
    using assms unfolding scp_load_track_def Let_def r1 prod.case offset_def [symmetric] by simp
  ultimately show thesis using that by blast
qed

lemma scp_step_track_inv:
  assumes "drv01_inv dsc f" "scp_step_track track dsc f w = (dsc', f', w')" "format01 dsc = SCP"
  shows "drv01_inv dsc' f' \<and> format01 dsc' = SCP"
proof -
  have le: "0 < scp_revolutions dsc"
    using assms(1,3) le_less_trans [OF word_zero_le, of "scp_cur_track_rev dsc" "scp_revolutions dsc"]
    by (simp add: drv01_inv_def)
  let ?d = "dsc\<lparr>scp_cur_track := track\<rparr>"
  consider "dsc' = dsc" | "dsc' = ?d\<lparr>scp_cur_track_header_addr := 0\<rparr>" | "scp_load_track track ?d f w = (dsc', f', w')"
    using assms(2) by (auto simp: scp_step_track_def Let_def split: if_splits)
  then show ?thesis
  proof cases
    case 3
    then show ?thesis
    proof (cases rule: scp_load_track_cases)
      case 1
      with assms(1,3) show ?thesis by (simp add: drv01_inv_def)
    next
      case (2 hdr addr ofs)
      with assms(1,3) le show ?thesis by (simp add: drv01_inv_def)
    qed
  qed (use assms(1,3) in \<open>simp_all add: drv01_inv_def\<close>)
qed

lemma scp_advance_inv:
  assumes "drv01_inv dsc f" "format01 dsc = SCP"
  shows "drv01_inv (scp_advance n (track_length (tlo (scp_cur_track_header dsc) ! unat (scp_cur_track_rev dsc))) dsc) f'"
  using assms u8_next_less [of "scp_cur_track_rev dsc" "scp_revolutions dsc"]
    le_less_trans [OF word_zero_le, of "scp_cur_track_rev dsc" "scp_revolutions dsc"]
  by (auto simp: drv01_inv_def scp_advance_def Let_def not_le)

lemma scp_send_inv:
  assumes "drv01_inv dsc f" "scp_send ch dsc f buf w = Some (dsc', f', buf', w')" "format01 dsc = SCP"
  shows "drv01_inv dsc' f''"
  using assms(2) scp_advance_inv [OF assms(1,3)]
  by (auto simp: scp_send_def Let_def split: if_splits bind_splits)

lemma SCP_Read_inv:
  assumes inv: "drv01_inv dsc f" and r: "SCP_Read ch dsc f buf w = Some (dsc', f', buf', w')"
    and fmt: "format01 dsc = SCP"
  shows "drv01_inv dsc' f'"
proof -
  obtain bs w0 where c: "FCh_cmd_read ch 2 w = (bs, w0)" by fastforce
  obtain d1 f1 w1 where st: "scp_step_track (bs ! 1) dsc f (FCh_WriteStat ch 1 w0) = (d1, f1, w1)"
    by (rule prod_cases3)
  note i1 = scp_step_track_inv [OF inv st fmt] and st' = st [unfolded One_nat_def]
  show ?thesis
  proof (cases "scp_cur_track_header_addr d1 = 0")
    case True
    with r i1 show ?thesis by (simp add: SCP_Read_def c st')
  next
    case False
    with r obtain w2 where "scp_send ch d1 f1 buf w1 = Some (dsc', f', buf', w2)"
      by (auto simp: SCP_Read_def c st' split: bind_splits)
    with i1 show ?thesis using scp_send_inv by blast
  qed
qed

lemma adf_insert_bounds:
  assumes "adf_insert dsc w = (dsc', w')" "unat (file_size01 dsc) \<le> n" "cur_sector dsc = 0"
  shows "total_tracks dsc' \<le> ADF_MAX_TRACKS \<and> unat (total_tracks dsc') * (512 * 11) \<le> n \<and> cur_sector dsc' = 0 \<and>
    format01 dsc' = ADF"
proof -
  let ?t = "ucast (file_size01 dsc div (512 * 11)) :: u16"
  have "unat ?t \<le> unat (file_size01 dsc div (512 * 11))"
    by (simp add: unsigned_ucast_eq take_bit_nat_less_eq_self)
  also have "\<dots> = unat (file_size01 dsc) div (512 * 11)" by (simp add: unat_div)
  finally have "unat ?t * (512 * 11) \<le> n" using assms(2) by (simp add: less_eq_div_iff_mult_less_eq)
  moreover have "unat (min ?t 166) \<le> unat ?t" by (simp add: min_def word_le_nat_alt)
  moreover have "total_tracks dsc' = min ?t 166" "cur_sector dsc' = 0" "format01 dsc' = ADF"
    using assms(1,3) by (auto simp: adf_insert_def Let_def min_def split: if_splits)
  ultimately show ?thesis using mult_le_mono1 [of "unat (min ?t 166)" "unat ?t" "512 * 11"] by simp
qed

lemma scp_insert_inv:
  assumes "scp_insert stack dsc f w = (True, dsc', f', w')" "length (tlo (scp_cur_track_header dsc)) = 5"
  shows "drv01_inv dsc' f''"
proof -
  obtain dat f1 where r: "FF_Read (snd (FF_Seek f 0 FF_SEEK_SET)) 16 1 = (dat, f1)" by fastforce
  define hdr where "hdr = scp_header_of_bytes (fill stack dat)"
  have revs: "\<not> number_of_revolutions hdr < 1" "\<not> number_of_revolutions hdr > 5"
    and d: "format01 dsc' = SCP" "scp_revolutions dsc' = number_of_revolutions hdr" "scp_cur_track_rev dsc' = 0"
      "scp_cur_track_header_addr dsc' = 0" "scp_cur_track_header dsc' = scp_cur_track_header dsc"
    using assms(1) by (auto simp: scp_insert_def Let_def r hdr_def [symmetric] split: if_splits)
  from revs have "number_of_revolutions hdr \<le> 5 \<and> 0 < number_of_revolutions hdr"
    by (simp add: word_less_nat_alt word_le_nat_alt)
  with d assms(2) show ?thesis by (simp add: drv01_inv_def)
qed

lemma Drv01_InsertInit_inv:
  assumes "Drv01_InsertInit True stack ch d dr ext w = Some (0, dr', w')"
  shows "\<exists>dsc f. pDesc dr' = Some (Desc01 dsc) \<and> fSource dr' = Some f \<and> drv01_inv dsc f"
proof -
  obtain f where f: "fSource dr = Some f" using assms by (auto simp: Drv01_InsertInit_def split: option.splits)
  let ?d0 = "zero_drv01_desc\<lparr>file_size01 := ucast (FF_Size f)\<rparr>"
  have sz: "unat (file_size01 ?d0) \<le> f_size f"
    using order_trans [OF take_bit_nat_less_eq_self mod_less_eq_dividend, of 32 "f_size f" "2 ^ 64"]
    by (simp add: FF_Size_def unsigned_ucast_eq unat_of_nat)
  have t5: "length (tlo (scp_cur_track_header ?d0)) = 5" by (simp add: zero_drv01_desc_def zero_trk_def)
  consider (adf) "strncasecmp ext ''ADF'' 3 = 0" | (scp) "strncasecmp ext ''ADF'' 3 \<noteq> 0" "strncasecmp ext ''SCP'' 3 = 0"
    | (no) "strncasecmp ext ''ADF'' 3 \<noteq> 0" "strncasecmp ext ''SCP'' 3 \<noteq> 0" by blast
  then show ?thesis
  proof cases
    case adf
    obtain dsc w1 where a: "adf_insert ?d0 w = (dsc, w1)" by fastforce
    from adf_insert_bounds [OF this sz] have "drv01_inv dsc f" by (simp add: drv01_inv_def zero_drv01_desc_def)
    then show ?thesis using assms adf a f by (auto simp: Drv01_InsertInit_def Let_def)
  next
    case scp
    obtain ok dsc f1 w1 where a: "scp_insert stack ?d0 f w = (ok, dsc, f1, w1)" by (rule prod_cases4)
    have ok using assms scp a f by (auto simp: Drv01_InsertInit_def Let_def split: if_splits)
    with a have a': "scp_insert stack ?d0 f w = (True, dsc, f1, w1)" by simp
    from scp_insert_inv [OF a' t5] have "drv01_inv dsc f1" .
    then show ?thesis using assms scp a f \<open>ok\<close> by (auto simp: Drv01_InsertInit_def Let_def)
  next
    case no
    then show ?thesis using assms f by (simp add: Drv01_InsertInit_def Let_def)
  qed
qed

text \<open>
  C14. Every request keeps the invariant of the descriptor, whatever the FPGA asks for and whatever
  the file holds; inserting a disk establishes it.
\<close>

theorem drv01_invariant:
  "(drv01_inv dsc f \<and> drv01_request ch wr d stat dsc f buf s w = Some (dsc', f', buf', s', w') \<longrightarrow>
      drv01_inv dsc' f') \<and>
   (Drv01_InsertInit True stack ch d dr ext w = Some (0, dr', w') \<longrightarrow>
      (\<exists>dsc f. pDesc dr' = Some (Desc01 dsc) \<and> fSource dr' = Some f \<and> drv01_inv dsc f))"
proof (intro conjI impI; (elim conjE)?)
  assume inv: "drv01_inv dsc f" and rq: "drv01_request ch wr d stat dsc f buf s w = Some (dsc', f', buf', s', w')"
  show "drv01_inv dsc' f'"
  proof (cases wr)
    case True
    with rq have "dsc' = dsc" "f_size f \<le> f_size f'"
      by (auto simp: drv01_request_def Let_def case_prod_beta ADF_Write_size split: if_splits)
    with inv show ?thesis using drv01_inv_size by blast
  next
    case False
    show ?thesis
    proof (cases "format01 dsc")
      case XXX01
      with False rq inv show ?thesis by (simp add: drv01_request_def)
    next
      case ADF
      with False rq have "ADF_Read ch dsc f buf w = (dsc', f', buf', w')"
        by (cases "ADF_Read ch dsc f buf w") (auto simp: drv01_request_def)
      with inv ADF show ?thesis using ADF_Read_inv by blast
    next
      case SCP
      with False rq have "SCP_Read ch dsc f buf w = Some (dsc', f', buf', w')"
        by (auto simp: drv01_request_def split: bind_splits)
      with inv SCP show ?thesis using SCP_Read_inv by blast
    qed
  qed
qed (rule Drv01_InsertInit_inv)

theorem drv01_invariant_witness:
  "\<exists>dsc f dr' w'. Drv01_InsertInit True [] 0 1 \<lparr>status = 1, fSource = Some (test_file [1, 2]), pDesc = None, fch_name = []\<rparr>
      ''adf'' test_channel = Some (0, dr', w') \<and> pDesc dr' = Some (Desc01 dsc) \<and> fSource dr' = Some f \<and> drv01_inv dsc f"
proof -
  let ?dr = "\<lparr>status = 1, fSource = Some (test_file [1, 2]), pDesc = None, fch_name = []\<rparr>"
  have "strncasecmp ''adf'' ''ADF'' 3 = 0" by code_simp
  then obtain dr' w' where i: "Drv01_InsertInit True [] 0 1 ?dr ''adf'' test_channel = Some (0, dr', w')"
    by (auto simp: Drv01_InsertInit_def Let_def case_prod_beta)
  from drv01_invariant [THEN conjunct2, rule_format, OF this] this show ?thesis by blast
qed

subsection \<open>Reading a sector\<close>

lemma unat_adf_offset:
  assumes "sector \<le> 10"
  shows "unat (adf_offset track sector) = (unat track * 11 + unat sector) * 512"
proof -
  have t: "unat track < 256" "unat sector \<le> 10" using unsigned_less [of track] assms by (simp_all add: word_le_nat_alt)
  have "unat (512 * 11 * ucast track :: u32) = 5632 * unat track"
    using t by (simp add: unat_word_ariths unsigned_ucast_eq take_bit_nat_eq_self)
  moreover have "unat (push_bit 9 (ucast sector) :: u32) = 512 * unat sector"
    using t by (simp add: push_bit_eq_mult unat_word_ariths unsigned_ucast_eq take_bit_nat_eq_self)
  ultimately show ?thesis using t by (simp add: adf_offset_def unat_word_ariths)
qed

lemma unat_adf_track:
  assumes "0 < tracks" "tracks \<le> 166"
  shows "unat (adf_track tracks track) = min (unat track) (unat tracks - 1)"
proof -
  have t: "0 < unat tracks" "unat tracks \<le> 166" "unat track < 256"
    using assms unsigned_less [of track] by (simp_all add: word_le_nat_alt word_less_nat_alt)
  then have "unat (tracks - 1) = unat tracks - 1" using unat_minus_one [of tracks] by fastforce
  moreover have "ucast track \<ge> tracks \<longleftrightarrow> unat tracks \<le> unat track"
    using t by (simp add: word_le_nat_alt unsigned_ucast_eq take_bit_nat_eq_self)
  ultimately show ?thesis using t by (auto simp: adf_track_def unsigned_ucast_eq take_bit_nat_eq_self)
qed

lemma sector_fits: "(t + 1) * 5632 \<le> n \<Longrightarrow> s \<le> 10 \<Longrightarrow> (t * 11 + s) * 512 + 512 \<le> (n :: nat)"
  by (simp add: add_mult_distrib)

lemma sends_fileio_cmd_right:
  "sends cmd w w1 bs \<Longrightarrow> sends cmd w (fileio_cmd (c # xs) w1) (bs @ (if c = cmd then xs else []))"
  by (rule sends_trans [OF _ sends_fileio_cmd])

lemma sends_Disable: "sends cmd w w1 bs \<Longrightarrow> sends cmd w (SPI_DisableFileIO w1) bs"
proof -
  have "runs w1 (SPI_DisableFileIO w1) [Disable PortFileIO]"
    by (simp add: runs_def extends_def SPI_DisableFileIO_def)
  then have "sends cmd w1 (SPI_DisableFileIO w1) []" unfolding sends_def by fastforce
  then show "sends cmd w w1 bs \<Longrightarrow> sends cmd w (SPI_DisableFileIO w1) bs" by (rule sends_trans1 [rotated])
qed

lemma adf_send_sector_sends:
  assumes "cmd = FCH_CMD ch c"
  shows "sends cmd w (adf_send_sector ch buf sector track sync w)
    ((if c = 0x30 then amiga_header buf sector track (ucast (drop_bit 8 sync)) (ucast sync) else []) @
     (if c = 0x32 \<or> c = 0x33 then take 0x200 buf else []) @
     (if sector = 10 then (if c = 0x31 then [0xAA, 0xAA] else if c = 0x30 then replicate 350 0xAA else []) else []))"
proof -
  let ?h = "amiga_header buf sector track (ucast (drop_bit 8 sync)) (ucast sync)"
  define w1 where "w1 = fileio_cmd (FCH_CMD ch 0x30 # ?h) w"
  define w2 where "w2 = fileio_cmd (FCH_CMD ch 0x32 # take 0x200 buf) w1"
  define w3 where "w3 = fileio_cmd (FCH_CMD ch 0x33 # take 0x200 buf) w2"
  define w4 where "w4 = SPI_DisableFileIO w3"
  define w5 where "w5 = fileio_cmd [FCH_CMD ch 0x31, 0xAA, 0xAA] w4"
  define w6 where "w6 = fileio_cmd (FCH_CMD ch 0x30 # replicate 350 0xAA) w5"
  have gap: "replicate 349 x @ [x] = replicate 350 x" for x :: u8
    using replicate_append_same [of 349 x] replicate_Suc [of 349 x] by simp
  have "adf_send_sector ch buf sector track sync w = (if sector = 10 then w6 else w4)"
    by (simp add: adf_send_sector_def Let_def Amiga_SendHeader_def fileio_cmd_def gap
        w1_def w2_def w3_def w4_def w5_def w6_def)
  moreover have "sends cmd w w1 (if c = 0x30 then ?h else [])"
    using sends_fileio_cmd_right [OF sends_refl, of cmd w "FCH_CMD ch 0x30" ?h] assms by (simp add: w1_def eq_commute)
  note s2 = sends_fileio_cmd_right [OF this, of "FCH_CMD ch 0x32" "take 0x200 buf", folded w2_def]
  note s3 = sends_fileio_cmd_right [OF s2, of "FCH_CMD ch 0x33" "take 0x200 buf", folded w3_def]
  note s4 = sends_Disable [OF s3, folded w4_def]
  note s5 = sends_fileio_cmd_right [OF s4, of "FCH_CMD ch 0x31" "[0xAA, 0xAA]", folded w5_def]
  note s6 = sends_fileio_cmd_right [OF s5, of "FCH_CMD ch 0x30" "replicate 350 0xAA", folded w6_def]
  show ?thesis
    unfolding calculation using s4 s6 assms by (cases "sector = 10") (auto split: if_splits)
qed

text \<open>
  C15. A read request on an ADF disk with at least one track, on a healthy medium: it always
  succeeds; the next sector of the requested track, or of the last track if there is no such track,
  is sent as its Amiga header and its 512 bytes, for the odd and for the even bits; the gap follows
  the last sector of a track.  Reading stays inside the image.
\<close>

theorem ADF_Read_correct:
  fixes dsc ch w
  defines "req \<equiv> fst (FCh_cmd_read ch 4 w)"
  defines "track \<equiv> adf_track (total_tracks dsc) (req ! 1)" and "sector \<equiv> cur_sector dsc"
    and "sync \<equiv> adf_dsksync (push_bit 8 (ucast (req ! 2)) OR ucast (req ! 3))"
  assumes hl: "healthy f" and sz: "f_size f < 2 ^ 64" and di: "drv01_inv dsc f" and fmt: "format01 dsc = ADF"
    and tt: "0 < total_tracks dsc" and bl: "length buf = 512"
  shows "\<exists>f' w' dat. ADF_Read ch dsc f buf w =
      (dsc\<lparr>cur_sector := if sector = LAST_SECTOR then 0 else sector + 1\<rparr>, f', dat, w') \<and>
    healthy f' \<and> content f' = content f \<and> length dat = 512 \<and>
    dat = take 512 (drop ((unat track * 11 + unat sector) * 512) (content f)) \<and>
    unat track = min (unat (req ! 1)) (unat (total_tracks dsc) - 1) \<and>
    sends (FCH_CMD ch FCH_CMD_STAT_W) w w' [DRV01_STAT_REQ_ACK, DRV01_STAT_TRANS_ACK_OK] \<and>
    sends (FCH_CMD ch FCH_CMD_FIFO_W) w w'
      (amiga_header dat sector track (ucast (drop_bit 8 sync)) (ucast sync) @
       (if sector = LAST_SECTOR then replicate 350 0xAA else [])) \<and>
    sends (FCH_CMD ch 0x32) w w' dat \<and> sends (FCH_CMD ch 0x33) w w' dat"
proof -
  define w0 where "w0 = snd (FCh_cmd_read ch 4 w)"
  let ?w1 = "FCh_WriteStat ch 1 w0"
  have inv: "total_tracks dsc \<le> 166" "unat (total_tracks dsc) * 5632 \<le> f_size f" "sector \<le> 10"
    using di fmt by (simp_all add: drv01_inv_def sector_def)
  have tr: "unat track = min (unat (req ! 1)) (unat (total_tracks dsc) - 1)"
    unfolding track_def by (rule unat_adf_track) (use tt inv in auto)
  have pos: "0 < unat (total_tracks dsc)" using tt by (simp add: word_less_nat_alt)
  let ?p = "(unat track * 11 + unat sector) * 512"
  have off: "unat (adf_offset track sector) = ?p" by (rule unat_adf_offset [OF inv(3)])
  have "unat track + 1 \<le> unat (total_tracks dsc)" using tr pos by simp
  then have "(unat track + 1) * 5632 \<le> f_size f" using inv(2) by (meson le_trans mult_le_mono1)
  moreover have "unat sector \<le> 10" using inv(3) by (simp add: word_le_nat_alt)
  ultimately have fit: "?p + 512 \<le> f_size f" by (rule sector_fits)
  let ?f = "f\<lparr>fptr := ?p\<rparr>"
  have u: "uint (adf_offset track sector) = int ?p" by (simp only: uint_nat off)
  have "FF_Seek f (int ?p) FF_SEEK_SET = (0, f\<lparr>fptr := nat (int ?p)\<rparr>)"
    by (rule FF_Seek_healthy [OF hl _ _ sz]) (use fit in \<open>simp_all only: nat_int of_nat_0_le_iff\<close>)
  then have sk: "FF_Seek f (uint (adf_offset track sector)) FF_SEEK_SET = (0, ?f)"
    unfolding u nat_int .
  have h: "healthy ?f" using hl fit by simp
  define dat where "dat = take 512 (drop ?p (content f))"
  define f' where "f' = ?f\<lparr>fptr := ?p + 512\<rparr>"
  have rd: "FF_Read ?f 512 1 = (dat, f')"
    using FF_Read_healthy [OF h, of 512 1] fit by (simp add: dat_def f'_def min_def f_size_def)
  have len: "length dat = 512" using fit by (simp add: dat_def f_size_def)
  define w2 where "w2 = adf_send_sector ch dat sector track sync ?w1"
  define w' where "w' = FCh_WriteStat ch 2 w2"
  have req: "FCh_cmd_read ch 4 w = (req, w0)" by (simp add: req_def w0_def)
  have "ADF_Read ch dsc f buf w =
      (dsc\<lparr>cur_sector := if sector = 10 then 0 else sector + 1\<rparr>, f', dat, w')"
    unfolding ADF_Read_def req Let_def prod.case track_def [symmetric] sector_def [symmetric] sync_def [symmetric] sk rd
    using len bl by (simp add: fill_all w'_def w2_def)
  moreover have hf: "healthy f' \<and> content f' = content f" using hl fit by (simp add: f'_def)
  have s1: "sends (FCH_CMD ch c) w ?w1 (if c = 8 then [1] else [])" if "c \<noteq> 0x18" for c
    using sends_WriteStat [OF FCh_cmd_read_sends [of "FCH_CMD ch c" ch w 4], of 1] that by (simp add: w0_def)
  have s: "sends (FCH_CMD ch c) w w' ((if c = 8 then [1, 2] else []) @ bs)"
    if "c \<noteq> 0x18" "sends (FCH_CMD ch c) ?w1 w2 bs" "c = 8 \<Longrightarrow> bs = []" for c bs
    using sends_WriteStat [OF sends_trans [OF s1 [OF that(1)] that(2)], of 2] that(3)
    by (cases "c = 8") (simp_all add: w'_def)
  note a = adf_send_sector_sends [OF refl, of ch _ ?w1 dat sector track sync, folded w2_def]
  have "sends (FCH_CMD ch 8) w w' [1, 2]" using s [OF _ a [of 8]] by simp
  moreover have "sends (FCH_CMD ch 0x30) w w' (amiga_header dat sector track (ucast (drop_bit 8 sync)) (ucast sync) @
      (if sector = LAST_SECTOR then replicate 350 0xAA else []))"
    using s [OF _ a [of "0x30"]] by (cases "sector = 10") simp_all
  moreover have "sends (FCH_CMD ch 0x32) w w' dat" "sends (FCH_CMD ch 0x33) w w' dat"
    using s [OF _ a [of "0x32"]] s [OF _ a [of "0x33"]] len by (cases "sector = 10"; simp)+
  ultimately show ?thesis using tr len dat_def hf by blast
qed

theorem ADF_Read_correct_witness:
  "\<exists>f' w'. ADF_Read 0 (zero_drv01_desc\<lparr>format01 := ADF, total_tracks := 1, cur_sector := 10\<rparr>)
       (test_file (replicate 5632 7)) (replicate 512 0) test_channel =
     (zero_drv01_desc\<lparr>format01 := ADF, total_tracks := 1\<rparr>, f', replicate 512 7, w') \<and>
     sends 0x32 test_channel w' (replicate 512 7)"
proof -
  let ?d = "zero_drv01_desc\<lparr>format01 := ADF, total_tracks := 1, cur_sector := 10\<rparr>"
  let ?f = "test_file (replicate 5632 7)"
  have "drv01_inv ?d ?f" by (simp add: drv01_inv_def f_size_def test_file_def zero_drv01_desc_def)
  moreover have "drop 5120 (replicate 5632 (7 :: u8)) = replicate 512 7" by (simp only: drop_replicate) simp
  ultimately show ?thesis
    using ADF_Read_correct [of ?f ?d "replicate 512 0" 0 test_channel] test_file_ok [of "replicate 5632 7"]
    by (auto simp: f_size_def FCH_CMD_def zero_drv01_desc_def)
qed

subsection \<open>Writing a sector\<close>

lemma adf_check_Inr:
  assumes "adf_check tracks track stat rx = Inr sector"
  shows "ucast track < tracks" "sector \<le> 10" "stat AND 6 = 0"
  using assms by (auto simp: adf_check_def Let_def not_le not_less split: if_splits)

lemma adf_store_changes:
  assumes "adf_store offset dat f w = (f', w')" "file_ok f" "unat offset + 512 \<le> f_size f" "f_size f < 2 ^ 64"
    and "length dat = 512"
  shows "\<exists>n \<le> 512. content f' = splice (content f) (unat offset) (take n dat)" "f_size f' = f_size f"
proof -
  obtain e f0 where sk: "FF_Seek f (uint offset) FF_SEEK_SET = (e, f0)" by fastforce
  have "unat offset \<le> f_size f" using assms(3) by simp
  note s = FF_Seek_set [OF assms(2) this assms(4) sk]
  obtain res n f1 where wr: "f_write f0 dat = (res, n, f1)" by (rule prod_cases3)
  note r = f_write_splice [OF wr]
  have "f' = f0 \<or> f' = f1"
    using assms(1,5) by (auto simp: adf_store_def Let_def sk FF_Write_def wr split: if_splits)
  then have *: "content f' = splice (content f) (unat offset) (take 0 dat) \<or>
      content f' = splice (content f) (unat offset) (take n dat)" using s r by auto
  moreover have "n \<le> 512" using r(1) assms(5) by simp
  ultimately show "\<exists>n \<le> 512. content f' = splice (content f) (unat offset) (take n dat)" by auto
  have "unat offset \<le> length (content f)" using assms(3) by (simp add: f_size_def)
  with * \<open>n \<le> 512\<close> show "f_size f' = f_size f" using assms(3,5)
    by (auto simp: f_size_def length_splice max_def)
qed

lemma find_sync_sends: "\<exists>n. trace (snd (find_sync r w)) = trace w @ replicate n (Xfer 0) \<and>
    reply (snd (find_sync r w)) = reply w \<and> elapsed (snd (find_sync r w)) = elapsed w"
proof (induction "unat (r - 1)" arbitrary: r w rule: less_induct)
  case less
  define w2 where "w2 = snd (rSPI 0 (snd (rSPI 0 w)))"
  have w2: "trace w2 = trace w @ replicate 2 (Xfer 0)" "reply w2 = reply w" "elapsed w2 = elapsed w"
    by (simp_all add: w2_def numeral_2_eq_2)
  obtain b where e: "find_sync r w = (if b then (True, w2) else if r - 1 \<noteq> 0 then find_sync (r - 1) w2 else (False, w2))"
    by (rule that, subst find_sync.simps) (simp only: Let_def case_prod_beta w2_def)
  show ?case
  proof (cases "b \<or> r - 1 = 0")
    case True
    then have "snd (find_sync r w) = w2" by (auto simp: e)
    with w2 show ?thesis by auto
  next
    case False
    then have "find_sync r w = find_sync (r - 1) w2" "r \<noteq> 1" by (auto simp: e)
    moreover have "unat (r - 1 - 1) < unat (r - 1)" using unat_pred_less [OF \<open>r \<noteq> 1\<close>] by (simp add: diff_diff_eq)
    ultimately obtain n where "trace (snd (find_sync r w)) = trace w2 @ replicate n (Xfer 0)"
      "reply (snd (find_sync r w)) = reply w2" "elapsed (snd (find_sync r w)) = elapsed w2"
      using less [of "r - 1" w2] by metis
    then show ?thesis by (intro exI [of _ "2 + n"]) (simp only: w2 replicate_add append_assoc)
  qed
qed

text \<open>Looking for the sync word only reads.\<close>

definition adf_find_sync :: "nat \<Rightarrow> u16 \<Rightarrow> world \<Rightarrow> world" where
  "adf_find_sync ch r w = SPI_DisableFileIO (snd (find_sync r (snd (rSPI (FCH_CMD ch FCH_CMD_FIFO_R) (SPI_EnableFileIO w)))))"

lemma adf_find_sync_sends: "sends (FCH_CMD ch 8) w (adf_find_sync ch r w) []"
proof -
  obtain n where "trace (adf_find_sync ch r w) =
      trace w @ ([Enable PortFileIO] @ map Xfer (FCH_CMD ch 0x20 # replicate n 0) @ [Disable PortFileIO])"
    and "reply (adf_find_sync ch r w) = reply w" "elapsed (adf_find_sync ch r w) = elapsed w"
    using find_sync_sends [of r "snd (rSPI (FCH_CMD ch FCH_CMD_FIFO_R) (SPI_EnableFileIO w))"]
    by (auto simp: adf_find_sync_def SPI_EnableFileIO_def SPI_DisableFileIO_def)
  then have "runs w (adf_find_sync ch r w) ([Enable PortFileIO] @ map Xfer (FCH_CMD ch 0x20 # replicate n 0) @ [Disable PortFileIO])"
    by (simp add: runs_def extends_def del: map_replicate)
  moreover have "received (FCH_CMD ch 8) Idle ([Enable PortFileIO] @ map Xfer (FCH_CMD ch 0x20 # replicate n 0) @ [Disable PortFileIO]) = []"
    by (simp add: received_fileio_cmd del: map_replicate append.simps list.map)
  ultimately show ?thesis unfolding sends_def by blast
qed

lemma adf_write_sector_sends: "sends (FCH_CMD ch 8) w (snd (adf_write_sector ch dsc stat track rs f w)) []"
proof -
  let ?w1 = "snd (FCh_fifo_read ch [0, 0] w)" and ?l = "replicate (DRV01_ADF_WRITE_LEN * 2) 0"
  have 1: "sends (FCH_CMD ch 8) w ?w1 []" using FCh_fifo_read_sends [of "FCH_CMD ch 8" w ch "[0, 0]"] by simp
  moreover have 2: "sends (FCH_CMD ch 8) w (snd (FCh_fifo_read ch ?l ?w1)) []"
    using sends_trans0 [OF 1 FCh_fifo_read_sends [of "FCH_CMD ch 8" ?w1 ch ?l]] by simp
  ultimately show ?thesis
    by (auto simp: adf_write_sector_def adf_store_def Let_def case_prod_beta split: sum.split)
qed

lemma adf_write_sector_changes:
  assumes "adf_write_sector ch dsc stat track rs f w = (f', w')"
    and "file_ok f" "f_size f < 2 ^ 64" "unat (total_tracks dsc) * 5632 \<le> f_size f"
  shows "f_size f' = f_size f \<and> (content f' = content f \<or>
    stat AND 6 = 0 \<and> unat track < unat (total_tracks dsc) \<and>
    (\<exists>sector dat. sector < 11 \<and> length dat \<le> 512 \<and>
       content f' = splice (content f) ((unat track * 11 + sector) * 512) dat))"
proof -
  consider "f' = f" | rx sector w1 where
    "adf_check (total_tracks dsc) track stat rx = Inr sector"
    "adf_store (adf_offset track sector) (adf_decode rx) f w1 = (f', w')"
    using assms(1)
    by (auto simp: adf_write_sector_def Let_def case_prod_beta split: if_splits sum.splits)
  then show ?thesis
  proof cases
    case 2
    note c = adf_check_Inr [OF 2(1)]
    have s10: "unat sector \<le> 10" using c(2) by (simp add: word_le_nat_alt)
    have "unat track < 2 ^ LENGTH(8)" by (rule unsigned_less)
    then have "unat track < 2 ^ 16" by simp
    then have t: "unat track < unat (total_tracks dsc)"
      using c(1) by (simp add: word_less_nat_alt unsigned_ucast_eq take_bit_nat_eq_self)
    have "(unat track + 1) * 5632 \<le> unat (total_tracks dsc) * 5632" using t by (intro mult_le_mono1) simp
    then have "(unat track * 11 + unat sector) * 512 + 512 \<le> f_size f"
      using assms(4) s10 by (intro sector_fits) (rule order_trans)
    then have fit: "unat (adf_offset track sector) + 512 \<le> f_size f" by (simp only: unat_adf_offset [OF c(2)])
    have "length (adf_decode rx) = 512" by (simp add: adf_decode_def)
    from adf_store_changes [OF 2(2) assms(2) fit assms(3) this] obtain n where
      "n \<le> 512" "content f' = splice (content f) ((unat track * 11 + unat sector) * 512) (take n (adf_decode rx))"
      "f_size f' = f_size f" by (auto simp only: unat_adf_offset [OF c(2)])
    moreover have "length (take n (adf_decode rx)) \<le> 512" using \<open>n \<le> 512\<close> by simp
    moreover have "unat sector < 11" using s10 by simp
    ultimately show ?thesis using c(3) t by blast
  qed simp
qed

text \<open>
  C16. A write request on an ADF disk is always answered by "done"; its only effect on the image is
  at most one sector: of an existing track, when the drive is writable, and only in the state that
  follows a sync word.  The image never grows.
\<close>

theorem ADF_Write_safe:
  assumes "ADF_Write ch dsc stat f ws w = (ws', f', w')" and "file_ok f" and "f_size f < 2 ^ 64"
    and "drv01_inv dsc f" and "format01 dsc = ADF"
  shows "sends (FCH_CMD ch FCH_CMD_STAT_W) w w' [DRV01_STAT_REQ_ACK, DRV01_STAT_TRANS_ACK_OK] \<and>
    f_size f' = f_size f \<and> (ws' = 0 \<or> ws' = 1 \<and> ws = 0) \<and>
    (content f' = content f \<or>
     ws = 1 \<and> stat AND FILEIO_STAT_READONLY_OR_PROTECTED = 0 \<and>
     (\<exists>track sector dat. track < unat (total_tracks dsc) \<and> sector < 11 \<and> length dat \<le> 512 \<and>
        content f' = splice (content f) ((track * 11 + sector) * 512) dat))"
proof -
  obtain bs w0 where c: "FCh_cmd_read ch 6 w = (bs, w0)" by fastforce
  define rs :: u16 where "rs = (push_bit 8 (ucast (bs ! 4)) OR ucast (bs ! 5)) + 1"
  define w1 where "w1 = FCh_WriteStat ch 1 w0"
  have s1: "sends (FCH_CMD ch 8) w w1 [1]"
    using sends_WriteStat [OF FCh_cmd_read_sends [of "FCH_CMD ch 8" ch w 6], of 1] c by (simp add: w1_def)
  have fin: "sends (FCH_CMD ch 8) w (FCh_WriteStat ch 2 w2) [1, 2]" if "sends (FCH_CMD ch 8) w1 w2 []" for w2
    using sends_WriteStat [OF sends_trans1 [OF s1 that], of 2] by simp
  have tt: "unat (total_tracks dsc) * 5632 \<le> f_size f" using assms(4,5) by (simp add: drv01_inv_def)
  note d = assms(1) [unfolded ADF_Write_def c Let_def prod.case, folded rs_def w1_def]
  consider (sync) "ws = 0" | (data) "ws = 1" | (other) "ws \<noteq> 0" "ws \<noteq> 1" by blast
  then show ?thesis
  proof cases
    case sync
    with d have "f' = f" "w' = FCh_WriteStat ch 2 (adf_find_sync ch rs w1)" "ws' = 0 \<or> ws' = 1"
      by (auto simp: adf_find_sync_def case_prod_beta split: if_splits)
    with sync fin [OF adf_find_sync_sends] show ?thesis by auto
  next
    case data
    obtain f2 w2 where a: "adf_write_sector ch dsc stat (bs ! 1) rs f w1 = (f2, w2)" by fastforce
    with data d have "f' = f2" "w' = FCh_WriteStat ch 2 w2" "ws' = 0" by auto
    moreover have "sends (FCH_CMD ch 8) w1 w2 []" using adf_write_sector_sends [of ch w1 dsc stat "bs ! 1" rs f] a by simp
    ultimately show ?thesis
      using fin [of w2] data adf_write_sector_changes [OF a assms(2,3) tt] by metis
  next
    case other
    with d have "f' = f" "w' = FCh_WriteStat ch 2 w1" "ws' = 0" by auto
    with fin show ?thesis by simp
  qed
qed
theorem ADF_Write_safe_witness:
  "\<exists>ws' f' w'. ADF_Write 0 (zero_drv01_desc\<lparr>format01 := ADF\<rparr>) 5 (test_file [1, 2, 3]) 1 test_channel = (ws', f', w') \<and>
     content f' = [1, 2, 3]"
proof -
  let ?d = "zero_drv01_desc\<lparr>format01 := ADF\<rparr>"
  obtain ws' f' w' where a: "ADF_Write 0 ?d 5 (test_file [1, 2, 3]) 1 test_channel = (ws', f', w')"
    by (rule prod_cases3)
  have "drv01_inv ?d (test_file [1, 2, 3])" by (simp add: drv01_inv_def zero_drv01_desc_def)
  with ADF_Write_safe [OF a] test_file_ok [of "[1, 2, 3]"] a show ?thesis
    by (auto simp: f_size_def zero_drv01_desc_def)
qed

subsection \<open>Progress of a flux read\<close>

lemma unat_scp_trans_len:
  assumes "unat n \<le> 2048"
  shows "unat (scp_trans_len ofs n) =
    (if scp_unaligned ofs n then (let m = min (unat n) (512 - unat ofs mod 512) in m - m mod 2) else unat n)"
proof (cases "scp_unaligned ofs n")
  case True
  define s where "s = 0x200 - (ofs AND 0x1FF)"
  have "unat (ofs AND 0x1FF) \<le> 511" by (simp add: unat_and_511 less_Suc_eq_le [symmetric])
  then have s: "unat s = 512 - unat ofs mod 512" unfolding s_def
    by (subst unat_sub) (simp_all add: word_le_nat_alt unat_and_511)
  define m where "m = (if n > s then s else n)"
  have m: "unat m = min (unat n) (512 - unat ofs mod 512)"
    by (simp add: m_def s min_def word_less_nat_alt not_less)
  have "scp_trans_len ofs n = m AND 0xFFFE"
    using True by (simp add: scp_trans_len_def s_def m_def Let_def)
  moreover have "unat m < 65536" using assms m by simp
  ultimately show ?thesis using unat_and_FFFE [of m] True m by (simp add: Let_def)
qed (simp add: scp_trans_len_def)

lemma scp_send_desc:
  assumes "scp_send ch dsc f buf w = Some (dsc', f', buf', w')"
    and "t = tlo (scp_cur_track_header dsc) ! unat (scp_cur_track_rev dsc)"
    and "n = push_bit 1 (min 1024 (track_length t - scp_cur_track_offset dsc))"
    and "ofs = scp_cur_track_header_addr dsc + track_offset t + push_bit 1 (scp_cur_track_offset dsc)"
  shows "dsc' = scp_advance (scp_trans_len ofs n) (track_length t) dsc"
proof -
  have "push_bit 1 (if x > 1024 then 1024 else x) = push_bit 1 (min 1024 x)" for x :: u32
    by (auto simp: min_def not_less)
  then show ?thesis using assms by (auto simp: scp_send_def Let_def split: if_splits bind_splits)
qed

lemma scp_position_parity:
  fixes a o0 :: u32
  shows "even (unat (a + push_bit 1 o0)) \<longleftrightarrow> even (unat a)"
proof -
  have "unat (a + push_bit 1 o0) = (unat a + 2 * unat o0) mod 2 ^ 32"
    by (simp add: push_bit_eq_mult unat_word_ariths mod_simps mult.commute)
  moreover have "even (m mod 2 ^ 32) \<longleftrightarrow> even m" for m :: nat by (simp add: dvd_mod_iff)
  ultimately show ?thesis by simp
qed

lemma even_min_512: "even (n :: nat) \<Longrightarrow> 0 < n \<Longrightarrow> even p \<Longrightarrow>
    even (min n (512 - p mod 512)) \<and> 0 < min n (512 - p mod 512)"
  by (auto simp: min_def dvd_mod)



subsection \<open>The floppy driver as a driver of the channel\<close>

lemma Drv01_loop_kept:
  "Drv01_Process_loop n ch h stat fbuf s w = Some (h', s', w') \<Longrightarrow> handles_ok h \<Longrightarrow> ch < 2 \<Longrightarrow> slots_kept ch h h'"
proof (induction n arbitrary: h stat fbuf s w)
  case (Suc n)
  let ?d = "unat (drop_bit 4 stat AND 0x03)"
  show ?case
  proof (cases "FCh_GetInserted h ch ?d = 0")
    case False
    from False Suc.prems(1) obtain dsc f where d: "pDesc (drive h ch ?d) = Some (Desc01 dsc)" "fSource (drive h ch ?d) = Some f"
      by (auto simp: Let_def split: option.splits desc.splits)
    with False Suc.prems(1) obtain dsc1 f1 fbuf1 s1 w1 where
      r: "drv01_request ch (bit stat 2) ?d (status (drive h ch ?d)) dsc f fbuf s w = Some (dsc1, f1, fbuf1, s1, w1)"
      by (auto simp: Let_def split: bind_splits)
    let ?h = "set_drive h ch ?d ((drive h ch ?d)\<lparr>pDesc := Some (Desc01 dsc1), fSource := Some f1\<rparr>)"
    have k: "slots_kept ch h ?h"
      using slots_kept_set [OF Suc.prems(2,3) drive_of_status False slot_kept_desc] d by simp
    have "h' = ?h \<or> Drv01_Process_loop n ch ?h (fst (FCh_GetStat ch w1)) fbuf1 s1 (snd (FCh_GetStat ch w1)) = Some (h', s', w')"
      using False Suc.prems(1) d r by (auto simp: Let_def case_prod_beta split: if_splits)
    then show ?thesis
      by (elim disjE)
        (use k in simp, rule slots_kept_trans [OF k], rule Suc.IH [OF _ handles_ok_set_drive [OF Suc.prems(2)] Suc.prems(3)])
  qed (use Suc.prems in \<open>simp add: Let_def\<close>)
qed simp

interpretation drv01: channel_driver
  "\<lambda>ch h stat s w. Drv01_Process ch h stat fbuf s w"
  "\<lambda>al stk ch n d ext (s :: drv01_static) w. map_option (\<lambda>(e, d, w). (e, d, s, w)) (Drv01_InsertInit al stk ch n d ext w)" "0x1"
  for fbuf
  by unfold_locales
    (auto simp: Drv01_Process_def Drv01_InsertInit_def Let_def case_prod_beta split: if_splits option.splits dest: Drv01_loop_kept)

end
