(* ===== verification/Drv02.thy ===== *)
theory Drv02
  imports Drv00
begin

text \<open>
  The tape driver (\<open>fileio_drv02_tape.c\<close>).  Raw images are accessed like those of the generic
  driver.  A UEF image is a sequence of chunks that describes a stream of bits: bytes with start
  and stop bits, gaps and carrier tones.  The driver serves the packed stream by looking up each
  bit, with a static cache of the last chunk it found.

  Offsets passed to \<open>fseek\<close> are 32-bit signed (\<open>long\<close>); a byte that could not be read is an
  uninitialised variable, and using it is \<open>None\<close>; so is a search that never ends.
\<close>

abbreviation UEF_infoID :: u16 where "UEF_infoID \<equiv> 0x0000"
abbreviation UEF_tapeID :: u16 where "UEF_tapeID \<equiv> 0x0100"
abbreviation UEF_highToneID :: u16 where "UEF_highToneID \<equiv> 0x0110"
abbreviation UEF_highDummyID :: u16 where "UEF_highDummyID \<equiv> 0x0111"
abbreviation UEF_gapID :: u16 where "UEF_gapID \<equiv> 0x0112"
abbreviation UEF_freqChgID :: u16 where "UEF_freqChgID \<equiv> 0x0113"
abbreviation UEF_floatGapID :: u16 where "UEF_floatGapID \<equiv> 0x0116"

abbreviation DRV02_STAT_REQ_ACK :: u8 where "DRV02_STAT_REQ_ACK \<equiv> 0x01"
abbreviation DRV02_STAT_TRANS_ACK_OK :: u8 where "DRV02_STAT_TRANS_ACK_OK \<equiv> 0x02"
abbreviation DRV02_STAT_TRANS_ACK_TRUNC_ERR :: u8 where "DRV02_STAT_TRANS_ACK_TRUNC_ERR \<equiv> 0x22"
abbreviation DRV02_STAT_TRANS_ACK_ABORT_ERR :: u8 where "DRV02_STAT_TRANS_ACK_ABORT_ERR \<equiv> 0x42"

record ChunkInfo =
  chunk_id :: u16
  chunk_length :: u32
  file_offset :: u32
  bit_offset_start :: u32
  bit_offset_end :: u32
  pre_carrier :: u32

definition zero_chunk :: ChunkInfo where
  "zero_chunk = \<lparr>chunk_id = 0, chunk_length = 0, file_offset = 0, bit_offset_start = 0, bit_offset_end = 0, pre_carrier = 0\<rparr>"

subsection \<open>Raw images\<close>

definition RAW_Process :: "nat \<Rightarrow> bool \<Rightarrow> u8 \<Rightarrow> u32 \<Rightarrow> nat \<Rightarrow> FIL \<Rightarrow> world \<Rightarrow> (FIL \<times> world) option" where
  "RAW_Process ch wr stat addr sz pFile w =
     do { (_, pFile, w) \<leftarrow> block_process raw_tape_driver ch wr stat addr sz pFile w; Some (pFile, w) }"

subsection \<open>Looking up a chunk\<close>

definition fread :: "FIL \<Rightarrow> nat \<Rightarrow> u8 list \<times> FIL" where
  "fread f n = FF_Read f 1 (of_nat n)"

definition fseek :: "FIL \<Rightarrow> u32 \<Rightarrow> seek_origin \<Rightarrow> FIL" where
  "fseek f ofs from = snd (FF_Seek f (sint ofs) from)"

definition ReadChunkHeader :: "FIL \<Rightarrow> ChunkInfo \<Rightarrow> u16 \<times> ChunkInfo \<times> FIL" where
  "ReadChunkHeader f chunk =
     (let (dat, f) = fread f 6;
          bs = fill [0xFF, 0xFF, 0, 0, 0, 0] dat;
          chunk = chunk\<lparr>chunk_id := of_le16 (bs ! 0) (bs ! 1), chunk_length := le32_at bs 2\<rparr>
      in (if length dat \<noteq> 6 then 0xFFFF else chunk_id chunk, chunk, f))"

text \<open>
  The length of a tone in bits.  The C code multiplies by \<open>UEF_Baud / 1000.0 = 125 / 104\<close> in double
  precision and truncates; on all 65536 arguments this is the quotient below.
\<close>

definition carrier_bits :: "u8 list \<Rightarrow> u32" where
  "carrier_bits dat = of_nat (unat (of_le16 (dat ! 0) (dat ! 1)) * 125 div 104)"

definition uef_is_tape :: "u16 \<Rightarrow> bool" where
  "uef_is_tape i \<longleftrightarrow> UEF_tapeID = i \<or> UEF_gapID = i \<or> UEF_highToneID = i \<or> UEF_highDummyID = i"

text \<open>The number of bits of a chunk; no number when the file ends inside it.\<close>

definition uef_bitlen :: "FIL \<Rightarrow> ChunkInfo \<Rightarrow> u32 option \<times> ChunkInfo \<times> FIL" where
  "uef_bitlen f chunk =
     (if chunk_id chunk = UEF_tapeID then (Some (chunk_length chunk * 10), chunk, f)
      else if chunk_id chunk = UEF_gapID \<or> chunk_id chunk = UEF_highToneID
      then let (ms, f) = fread f 2
           in if length ms \<noteq> 2 then (None, chunk, f)
              else (Some (carrier_bits ms), chunk, fseek f (- 2) FF_SEEK_CUR)
      else let (ms, f) = fread f 2
           in if length ms \<noteq> 2 then (None, chunk, f)
              else let chunk = chunk\<lparr>pre_carrier := carrier_bits ms\<rparr>;
                       (ms, f) = fread f 2
                   in if length ms \<noteq> 2 then (None, chunk, f)
                      else (Some (pre_carrier chunk + 20 + carrier_bits ms), chunk, fseek f (- 4) FF_SEEK_CUR))"

text \<open>Reading the text of an info chunk, only to print it.\<close>

function uef_info :: "u32 \<Rightarrow> FIL \<Rightarrow> FIL" where
  "uef_info len f =
     (if len = 0 then f
      else let read_len = (if len > 63 then 63 else len);
               (dat, f) = fread f (unat read_len)
           in if length dat \<noteq> unat read_len then f else uef_info (len - read_len) f)"
  by pat_completeness auto
termination
proof (relation "measure (\<lambda>(len, f). unat len)")
  fix len f r x y z
  assume a: "len \<noteq> (0 :: u32)" and r: "r = (if len > 63 then 63 else len)"
  have "0 < unat len" using a by (simp add: unat_gt_0)
  moreover have "unat (len - r) = unat len - unat r" using r by (subst unat_sub) (auto simp: not_less)
  moreover have "0 < unat r" using r \<open>0 < unat len\<close> by auto
  ultimately show "((len - r, z), (len, f)) \<in> measure (\<lambda>(len, f). unat len)" by simp
qed simp

declare uef_info.simps [simp del]

text \<open>A chunk without bits, when the whole file is scanned: whether the scan stops, and the file.\<close>

definition uef_other :: "ChunkInfo \<Rightarrow> FIL \<Rightarrow> bool \<times> FIL" where
  "uef_other chunk f =
     (if chunk_id chunk = UEF_infoID then (False, fseek (uef_info (chunk_length chunk) f) (file_offset chunk) FF_SEEK_SET)
      else if chunk_id chunk = UEF_freqChgID \<or> chunk_id chunk = UEF_floatGapID
      then let (dat, f) = fread f 4
           in if length dat \<noteq> 4 then (True, f) else (False, fseek f (file_offset chunk) FF_SEEK_SET)
      else (False, fseek f (file_offset chunk) FF_SEEK_SET))"

text \<open>The scan: the remaining bit position, the chunk and the file.\<close>

partial_function (option) uef_scan ::
  "bool \<Rightarrow> u32 \<Rightarrow> u32 \<Rightarrow> ChunkInfo \<Rightarrow> FIL \<Rightarrow> (u32 \<times> ChunkInfo \<times> FIL) option" where
  "uef_scan length_check bit_pos chunk_start chunk f =
     (if FF_isEOF f then Some (bit_pos, chunk, f)
      else let (i, chunk, f) = ReadChunkHeader f chunk
           in if i = 0xFFFF then Some (bit_pos, chunk, f)
              else let chunk = chunk\<lparr>file_offset := ucast (FF_Tell f)\<rparr>
                   in if uef_is_tape i
                      then (let (bl, chunk, f) = uef_bitlen f chunk in
                            case bl of
                              None \<Rightarrow> Some (bit_pos, chunk, f)
                            | Some bitlen \<Rightarrow>
                                if bit_pos < bitlen
                                then Some (bit_pos, chunk\<lparr>bit_offset_start := chunk_start,
                                                         bit_offset_end := chunk_start + bitlen\<rparr>, f)
                                else uef_scan length_check (bit_pos - bitlen) (chunk_start + bitlen) chunk
                                       (fseek f (chunk_length chunk) FF_SEEK_CUR))
                      else if length_check
                      then (let (stop, f) = uef_other chunk f in
                            if stop then Some (bit_pos, chunk, f)
                            else uef_scan length_check bit_pos chunk_start chunk
                                   (fseek f (chunk_length chunk) FF_SEEK_CUR))
                      else uef_scan length_check bit_pos chunk_start chunk (fseek f (chunk_length chunk) FF_SEEK_CUR))"

text \<open>
  The result is whether there is a chunk for the bit, the position in it, the cache and the file.
\<close>

definition GetChunkAtPosFile :: "FIL \<Rightarrow> ChunkInfo \<Rightarrow> u32 \<Rightarrow> (bool \<times> u32 \<times> ChunkInfo \<times> FIL) option" where
  "GetChunkAtPosFile f chunk bit_pos =
     (if bit_offset_start chunk \<le> bit_pos \<and> bit_pos < bit_offset_end chunk
      then Some (True, bit_pos - bit_offset_start chunk, chunk, f)
      else let length_check = (bit_pos = 0xFFFFFFFF);
               (bit_pos, chunk_start, f) =
                 (if bit_offset_end chunk \<noteq> 0 \<and> bit_pos \<ge> bit_offset_end chunk
                  then (bit_pos - bit_offset_end chunk, bit_offset_end chunk,
                        fseek f (file_offset chunk + chunk_length chunk) FF_SEEK_SET)
                  else (bit_pos, 0, fseek f 12 FF_SEEK_SET))
           in do { (bit_pos, chunk, f) \<leftarrow>
                     uef_scan length_check bit_pos chunk_start (chunk\<lparr>bit_offset_end := 0\<rparr>) f;
                   Some (bit_offset_end chunk \<noteq> 0, bit_pos, chunk, f) })"

text \<open>A bit of a data chunk, and one of a dummy byte with its carrier tones.\<close>

definition tape_bit :: "FIL \<Rightarrow> ChunkInfo \<Rightarrow> u32 \<Rightarrow> (bool \<times> FIL) option" where
  "tape_bit f chunk bit_pos =
     (let byte_offset = bit_pos div 10;
          bit_offset = bit_pos - byte_offset * 10
      in if bit_offset = 0 then Some (False, f)
         else if bit_offset = 9 then Some (True, f)
         else (case fread (fseek f (file_offset chunk + byte_offset) FF_SEEK_SET) 1 of
                 ([b], f) \<Rightarrow> Some (bit b (unat (bit_offset - 1)), f)
               | _ \<Rightarrow> None))"

definition dummy_bit :: "ChunkInfo \<Rightarrow> u32 \<Rightarrow> bool" where
  "dummy_bit chunk bit_pos =
     (if bit_pos < pre_carrier chunk \<or> bit_pos \<ge> pre_carrier chunk + 20 then True
      else let bit_pos = (bit_pos - pre_carrier chunk) mod 10
           in if bit_pos = 0 then False
              else if bit_pos = 9 then True
              else bit (0x41 :: u8) (unat (bit_pos - 1)))"

definition GetBitAtPos :: "FIL \<Rightarrow> ChunkInfo \<Rightarrow> u32 \<Rightarrow> (bool \<times> ChunkInfo \<times> FIL) option" where
  "GetBitAtPos f chunk bit_pos =
     do { (found, bit_pos, chunk, f) \<leftarrow> GetChunkAtPosFile f chunk bit_pos;
          if \<not> found then Some (False, chunk, f)
          else if chunk_id chunk = UEF_gapID then Some (False, chunk, f)
          else if chunk_id chunk = UEF_highToneID then Some (True, chunk, f)
          else if chunk_id chunk = UEF_tapeID
          then do { (b, f) \<leftarrow> tape_bit f chunk bit_pos; Some (b, chunk, f) }
          else Some (dummy_bit chunk bit_pos, chunk, f) }"

subsection \<open>Serving the stream\<close>

text \<open>Eight bits, the first one the most significant.\<close>

fun uef_bits :: "nat \<Rightarrow> u32 \<Rightarrow> u8 \<Rightarrow> FIL \<Rightarrow> ChunkInfo \<Rightarrow> (u8 \<times> ChunkInfo \<times> FIL) option" where
  "uef_bits 0 bit_pos val f chunk = Some (val, chunk, f)"
| "uef_bits (Suc n) bit_pos val f chunk =
     do { (b, chunk, f) \<leftarrow> GetBitAtPos f chunk bit_pos;
          uef_bits n (bit_pos + 1) (push_bit 1 val OR (if b then 1 else 0)) f chunk }"

fun uef_bytes :: "nat \<Rightarrow> u32 \<Rightarrow> FIL \<Rightarrow> ChunkInfo \<Rightarrow> (u8 list \<times> ChunkInfo \<times> FIL) option" where
  "uef_bytes 0 addr f chunk = Some ([], chunk, f)"
| "uef_bytes (Suc n) addr f chunk =
     do { (val, chunk, f) \<leftarrow> uef_bits 8 (push_bit 3 addr) 0 f chunk;
          (vals, chunk, f) \<leftarrow> uef_bytes n (addr + 1) f chunk;
          Some (val # vals, chunk, f) }"

definition uef_act_size :: "u32 \<Rightarrow> u32 \<Rightarrow> nat \<Rightarrow> nat" where
  "uef_act_size fsize addr cur_size =
     (if addr + of_nat cur_size > fsize then unat (fsize - addr) else cur_size)"

text \<open>
  The transfer prints the speed of each conversion, dividing by the milliseconds it took: with zero
  milliseconds this is a division by zero, and no result.
\<close>

function uef_transfer ::
  "nat \<Rightarrow> u32 \<Rightarrow> u32 \<Rightarrow> nat \<Rightarrow> FIL \<Rightarrow> ChunkInfo \<Rightarrow> world \<Rightarrow> (FIL \<times> ChunkInfo \<times> world) option" where
  "uef_transfer ch fsize addr sz f chunk w =
     (if sz = 0 then Some (f, chunk, FCh_WriteStat ch DRV02_STAT_TRANS_ACK_OK w)
      else let cur_size = (if sz > 512 then 512 else sz);
               act_size = uef_act_size fsize addr cur_size;
               (tick, w) = Timer_Get 0 w
           in do { (dat, chunk, f) \<leftarrow> uef_bytes act_size addr f chunk;
                   let (now, w) = Timer_Get 0 w
                   in if now - tick = 0 then None
                      else let w = FCh_fifo_write ch dat w
                           in if act_size \<noteq> cur_size
                              then Some (f, chunk, FCh_WriteStat ch DRV02_STAT_TRANS_ACK_TRUNC_ERR w)
                              else uef_transfer ch fsize (addr + of_nat cur_size) (sz - cur_size) f chunk w })"
  by pat_completeness auto
termination
  by (relation "measure (\<lambda>(ch, fsize, addr, sz, f, chunk, w). sz)") auto

declare uef_transfer.simps [simp del]

text \<open>A write is refused without any status.\<close>

definition UEF_Process ::
  "nat \<Rightarrow> bool \<Rightarrow> drv02_desc \<Rightarrow> u32 \<Rightarrow> nat \<Rightarrow> FIL \<Rightarrow> ChunkInfo \<Rightarrow> world \<Rightarrow> (FIL \<times> ChunkInfo \<times> world) option" where
  "UEF_Process ch wr dsc addr sz f chunk w =
     (if wr then Some (f, chunk, say (WARNING ''UEF Write not supported!'' []) w)
      else let addr = (if addr > file_size02 dsc then file_size02 dsc else addr)
           in uef_transfer ch (file_size02 dsc) addr sz f chunk w)"

subsection \<open>The process function\<close>

definition drv02_request ::
  "nat \<Rightarrow> bool \<Rightarrow> u8 \<Rightarrow> drv02_desc \<Rightarrow> u32 \<Rightarrow> nat \<Rightarrow> FIL \<Rightarrow> ChunkInfo \<Rightarrow> world \<Rightarrow> (FIL \<times> ChunkInfo \<times> world) option" where
  "drv02_request ch wr stat dsc addr sz f chunk w =
     (case format02 dsc of
        RAW \<Rightarrow> do { (f, w) \<leftarrow> RAW_Process ch wr stat addr sz f w; Some (f, chunk, w) }
      | UEF \<Rightarrow> UEF_Process ch wr dsc addr sz f chunk w
      | XXX02 \<Rightarrow> Some (f, chunk, w))"

fun Drv02_Process_loop ::
  "nat \<Rightarrow> nat \<Rightarrow> handles \<Rightarrow> u8 \<Rightarrow> ChunkInfo \<Rightarrow> world \<Rightarrow> (handles \<times> ChunkInfo \<times> world) option" where
  "Drv02_Process_loop 0 ch handle stat chunk w = Some (handle, chunk, w)"
| "Drv02_Process_loop (Suc goes) ch handle stat chunk w =
     (let wr = bit stat 2;
          d = unat (drop_bit 4 stat AND 0x03);
          pDrive = drive handle ch d
      in if FCh_GetInserted handle ch d = 0
         then Some (handle, chunk, FCh_WriteStat ch DRV02_STAT_TRANS_ACK_ABORT_ERR (FCh_WriteStat ch DRV02_STAT_REQ_ACK w))
         else let (sz, addr, w) = drv00_get_request ch w;
                  w = FCh_WriteStat ch DRV02_STAT_REQ_ACK w
              in case (pDesc pDrive, fSource pDrive) of
                   (Some (Desc02 dsc), Some pFile) \<Rightarrow>
                     do { (pFile, chunk, w) \<leftarrow> drv02_request ch wr (status pDrive) dsc addr sz pFile chunk w;
                          let handle = set_drive handle ch d (pDrive\<lparr>fSource := Some pFile\<rparr>);
                              (stat, w) = FCh_GetStat ch w
                          in if stat AND FILEIO_REQ_ACT \<noteq> 0
                             then Drv02_Process_loop goes ch handle stat chunk w
                             else Some (handle, chunk, w) }
                 | _ \<Rightarrow> None)"

definition Drv02_Process :: "nat \<Rightarrow> handles \<Rightarrow> u8 \<Rightarrow> ChunkInfo \<Rightarrow> world \<Rightarrow> (handles \<times> ChunkInfo \<times> world) option" where
  "Drv02_Process ch handle stat chunk w = Drv02_Process_loop FILEIO_PROCESS_LIMIT ch handle stat chunk w"

subsection \<open>Inserting a tape\<close>

text \<open>
  The header is compared with the tag; the length of the stream is found by scanning for a bit that
  is never there.
\<close>

definition uef_insert :: "drv02_desc \<Rightarrow> FIL \<Rightarrow> ChunkInfo \<Rightarrow> world \<Rightarrow> (drv02_desc \<times> FIL \<times> ChunkInfo \<times> world) option" where
  "uef_insert dsc f chunk w =
     (let f = snd (FF_Seek f 0 FF_SEEK_SET);
          (header, f) = fread f 12
      in if length header \<noteq> 12 then Some (dsc, f, chunk, say (ERROR ''Couldn't read file header'' []) w)
         else if chars (take 10 header) \<noteq> ''UEF File!'' @ [NUL]
         then Some (dsc, f, chunk, say (WARNING ''File compressed?'' []) (say (ERROR ''UEF file header mismatch'' []) w))
         else let w = snd (Timer_Get 0 w)
              in do { (_, numbits, chunk, f) \<leftarrow> GetChunkAtPosFile f chunk 0xFFFFFFFF;
                      let w = snd (Timer_Get 0 w);
                          numbits = NOT numbits
                      in Some (dsc\<lparr>format02 := UEF, file_size02 := (numbits + 7) div 8\<rparr>, f, chunk, w) })"

definition Drv02_InsertInit ::
  "bool \<Rightarrow> nat \<Rightarrow> nat \<Rightarrow> fch \<Rightarrow> string \<Rightarrow> ChunkInfo \<Rightarrow> world \<Rightarrow> (u8 \<times> fch \<times> ChunkInfo \<times> world) option" where
  "Drv02_InsertInit alloc ch drive_number pDrive ext chunk w =
     (let chunk = zero_chunk in
      if \<not> alloc
      then Some (1, pDrive\<lparr>pDesc := None\<rparr>, chunk, say (WARNING ''Drv02:Failed to allocate memory.'' []) w)
      else case fSource pDrive of
             None \<Rightarrow> None
           | Some f \<Rightarrow>
               let dsc = \<lparr>format02 = XXX02, file_size02 = ucast (FF_Size f)\<rparr>
               in do { (dsc, f, chunk, w) \<leftarrow>
                         (if strncasecmp ext ''RAW'' 3 = 0 then Some (dsc\<lparr>format02 := RAW\<rparr>, f, chunk, w)
                          else if strncasecmp ext ''UEF'' 3 = 0 then uef_insert dsc f chunk w
                          else Some (dsc, f, chunk, w));
                       let pDrive = pDrive\<lparr>pDesc := Some (Desc02 dsc), fSource := Some f\<rparr>;
                           w = fileio_cmd [FCH_CMD ch FCH_CMD_CMD_W, of_nat drive_number] w;
                           w = fileio_cmd (FCH_CMD ch (FCH_CMD_CMD_W OR 0x4) # le32 (file_size02 dsc)) w
                       in Some (0, pDrive, chunk, w) })"

subsection \<open>UEF files, as a sequence of chunks\<close>

type_synonym uef = "(u16 \<times> u8 list) list"

definition chunk_bytes :: "u16 \<times> u8 list \<Rightarrow> u8 list" where
  "chunk_bytes c = [byte_of 0 (fst c), byte_of 1 (fst c)] @ le32 (of_nat (length (snd c))) @ snd c"

definition uef_bytes_of :: "uef \<Rightarrow> u8 list" where
  "uef_bytes_of cs = concat (map chunk_bytes cs)"

text \<open>The bit of a byte with start and stop bit: ten bits, the least significant data bit first.\<close>

definition frame_bit :: "u8 \<Rightarrow> nat \<Rightarrow> bool" where
  "frame_bit b k = (if k = 0 then False else if k = 9 then True else bit b (k - 1))"

definition frame :: "u8 \<Rightarrow> bool list" where
  "frame b = map (frame_bit b) [0..<10]"

definition tone :: "u8 list \<Rightarrow> nat" where
  "tone d = unat (of_le16 (d ! 0) (d ! 1)) * 125 div 104"

text \<open>The bits that a chunk stands for, and the bit stream of a file.\<close>

definition chunk_stream :: "u16 \<times> u8 list \<Rightarrow> bool list" where
  "chunk_stream c =
     (case c of (i, d) \<Rightarrow>
        if i = UEF_tapeID then concat (map frame d)
        else if i = UEF_gapID then replicate (tone d) False
        else if i = UEF_highToneID then replicate (tone d) True
        else if i = UEF_highDummyID
        then replicate (tone d) True @ frame 0x41 @ frame 0x41 @ replicate (tone (drop 2 d)) True
        else [])"

definition uef_stream :: "uef \<Rightarrow> bool list" where
  "uef_stream cs = concat (map chunk_stream cs)"

text \<open>Chunks that hold what their kind needs.\<close>

definition good_chunk :: "u16 \<times> u8 list \<Rightarrow> bool" where
  "good_chunk c \<longleftrightarrow>
     (case c of (i, d) \<Rightarrow>
        i \<noteq> 0xFFFF \<and>
        (i = UEF_gapID \<or> i = UEF_highToneID \<longrightarrow> 2 \<le> length d) \<and>
        (i = UEF_highDummyID \<or> i = UEF_freqChgID \<or> i = UEF_floatGapID \<longrightarrow> 4 \<le> length d))"

definition uef_file :: "uef \<Rightarrow> FIL \<Rightarrow> bool" where
  "uef_file cs f \<longleftrightarrow>
     healthy f \<and> (\<exists>hdr. length hdr = 12 \<and> content f = hdr @ uef_bytes_of cs) \<and> f_size f < 2 ^ 31 \<and>
     (\<forall>c \<in> set cs. good_chunk c) \<and> length (uef_stream cs) < 2 ^ 32 - 16"

lemma uef_file_healthy: "uef_file cs f \<Longrightarrow> healthy f" "uef_file cs f \<Longrightarrow> f_size f < 2 ^ 31"
  by (simp_all add: uef_file_def)

lemma uef_file_fptr: "uef_file cs f \<Longrightarrow> p \<le> f_size f \<Longrightarrow> uef_file cs (f\<lparr>fptr := p\<rparr>)"
  by (auto simp: uef_file_def)

lemma uef_stream_simps [simp]:
  "uef_stream [] = []" "uef_stream (c # cs) = chunk_stream c @ uef_stream cs"
  "uef_stream (cs @ ds) = uef_stream cs @ uef_stream ds"
  by (simp_all add: uef_stream_def)

lemma uef_bytes_of_simps [simp]:
  "uef_bytes_of [] = []" "uef_bytes_of (c # cs) = chunk_bytes c @ uef_bytes_of cs"
  "uef_bytes_of (cs @ ds) = uef_bytes_of cs @ uef_bytes_of ds"
  by (simp_all add: uef_bytes_of_def)

lemma length_chunk_bytes [simp]: "length (chunk_bytes c) = 6 + length (snd c)"
  by (simp add: chunk_bytes_def)

subsection \<open>Reading and seeking in a healthy file\<close>

lemma fread_healthy:
  "healthy f \<Longrightarrow> n < 2 ^ 32 \<Longrightarrow> fptr f + n \<le> f_size f \<Longrightarrow>
     fread f n = (take n (drop (fptr f) (content f)), f\<lparr>fptr := fptr f + n\<rparr>)"
  by (simp add: fread_def FF_Read_healthy unat_of_nat take_bit_eq_mod min_def)

lemma fseek_set:
  assumes "healthy f" "sint ofs = int p" "p \<le> f_size f" "f_size f < 2 ^ 31"
  shows "fseek f ofs FF_SEEK_SET = f\<lparr>fptr := p\<rparr>"
  using FF_Seek_healthy [OF assms(1), of "int p"] assms by (simp add: fseek_def)

lemma fseek_cur:
  assumes "healthy f" "sint ofs + int (fptr f) = int p" "p \<le> f_size f" "f_size f < 2 ^ 31"
  shows "fseek f ofs FF_SEEK_CUR = f\<lparr>fptr := p\<rparr>"
proof -
  have "FF_Seek f (sint ofs) FF_SEEK_CUR = FF_Seek f (int p) FF_SEEK_SET"
    using assms(2) by (simp add: FF_Seek_def f_tell_def)
  then show ?thesis using FF_Seek_healthy [OF assms(1), of "int p"] assms by (simp add: fseek_def)
qed

lemma sint_small: "n < 2 ^ 31 \<Longrightarrow> sint (of_nat n :: u32) = int n"
  by (simp add: signed_of_nat signed_take_bit_int_eq_self)

lemma of_le16_bytes: "of_le16 (byte_of 0 v) (byte_of 1 v) = v"
proof (rule bit_word_eqI)
  fix n assume "n < LENGTH(16)"
  then consider "n < 8" | "8 \<le> n" "n < 16" by fastforce
  then show "bit (of_le16 (byte_of 0 v) (byte_of 1 v)) n = bit v n"
    by cases (auto simp: of_le16_def byte_of_def bit_or_iff bit_push_bit_iff bit_ucast_iff bit_drop_bit_eq)
qed

text \<open>The header of the next chunk.\<close>

lemma ReadChunkHeader_chunk:
  assumes f: "uef_file cs f" and cs: "cs = pre @ (i, d) # post"
    and p: "fptr f = 12 + length (uef_bytes_of pre)"
  shows "ReadChunkHeader f chunk =
      (i, chunk\<lparr>chunk_id := i, chunk_length := of_nat (length d)\<rparr>, f\<lparr>fptr := fptr f + 6\<rparr>)"
    and "f_size f = fptr f + 6 + length d + length (uef_bytes_of post)"
    and "length d < 2 ^ 31"
    and "take k (drop (fptr f + 6) (content f)) = take k (d @ uef_bytes_of post)"
proof -
  from f obtain hdr where h: "length hdr = 12" "content f = hdr @ uef_bytes_of cs" by (auto simp: uef_file_def)
  have d0: "drop (fptr f) (content f) = chunk_bytes (i, d) @ uef_bytes_of post"
    using h p cs by simp
  show sz: "f_size f = fptr f + 6 + length d + length (uef_bytes_of post)"
    using h p cs by (simp add: f_size_def)
  then show "length d < 2 ^ 31" using f by (simp add: uef_file_def)
  have "drop (fptr f + 6) (content f) = drop 6 (drop (fptr f) (content f))" by (simp add: add.commute)
  also have "\<dots> = d @ uef_bytes_of post" unfolding d0 by (simp add: chunk_bytes_def le32_def eval_nat_numeral)
  finally show "take k (drop (fptr f + 6) (content f)) = take k (d @ uef_bytes_of post)" by simp
  have "fread f 6 = ([byte_of 0 i, byte_of 1 i] @ le32 (of_nat (length d)), f\<lparr>fptr := fptr f + 6\<rparr>)"
    using fread_healthy [of f 6] f sz unfolding d0 by (simp add: uef_file_def chunk_bytes_def le32_def)
  then show "ReadChunkHeader f chunk =
      (i, chunk\<lparr>chunk_id := i, chunk_length := of_nat (length d)\<rparr>, f\<lparr>fptr := fptr f + 6\<rparr>)"
    by (simp add: ReadChunkHeader_def fill_def of_le16_bytes [unfolded One_nat_def] le32_at_def le32_def
        of_le32_le32 [unfolded One_nat_def])
qed

lemma length_frame [simp]: "length (frame b) = 10"
  by (simp add: frame_def)

lemma length_frames [simp]: "length (concat (map frame d)) = 10 * length d"
  by (induction d) simp_all

lemma carrier_bits_tone: "carrier_bits d = of_nat (tone d)"
  by (simp add: carrier_bits_def tone_def)

lemma fptr_id [simp]: "f\<lparr>fptr := fptr f\<rparr> = (f :: FIL)"
  by simp

lemma uef_bitlen_chunk:
  assumes h: "healthy f" "f_size f < 2 ^ 31"
    and d: "\<And>k. take k (drop (fptr f) (content f)) = take k (d @ rest)" "fptr f + length d \<le> f_size f"
    and c: "chunk_id chunk = i" "chunk_length chunk = of_nat (length d)" "good_chunk (i, d)" "uef_is_tape i"
  shows "uef_bitlen f chunk =
    (Some (of_nat (length (chunk_stream (i, d)))),
     if i = UEF_highDummyID then chunk\<lparr>pre_carrier := of_nat (tone d)\<rparr> else chunk, f)"
proof -
  consider "i = UEF_tapeID" | "i = UEF_gapID \<or> i = UEF_highToneID" | "i = UEF_highDummyID"
    using c(4) by (auto simp: uef_is_tape_def)
  then show ?thesis
  proof cases
    case 1
    then show ?thesis using c by (simp add: uef_bitlen_def chunk_stream_def)
  next
    case 2
    then have l: "2 \<le> length d" using c(3) by (auto simp: good_chunk_def)
    have r: "fread f 2 = (take 2 d, f\<lparr>fptr := fptr f + 2\<rparr>)"
      using fread_healthy [OF h(1), of 2] d(1) [of 2] d(2) l by simp
    have "sint (- 2 :: u32) = - 2" by simp
    then have s: "fseek (f\<lparr>fptr := fptr f + 2\<rparr>) (- 2) FF_SEEK_CUR = f"
      using fseek_cur [of "f\<lparr>fptr := fptr f + 2\<rparr>" "- 2" "fptr f"] h d(2) l by simp
    have "tone (take 2 d) = tone d" using l by (simp add: tone_def)
    with 2 r s l c(1) show ?thesis
      by (auto simp: uef_bitlen_def carrier_bits_tone chunk_stream_def)
  next
    case 3
    then have l: "4 \<le> length d" using c(3) by (simp add: good_chunk_def)
    have r: "fread f 2 = (take 2 d, f\<lparr>fptr := fptr f + 2\<rparr>)"
      using fread_healthy [OF h(1), of 2] d(1) [of 2] d(2) l by simp
    have "take 2 (drop (fptr f + 2) (content f)) = drop 2 (take 4 (drop (fptr f) (content f)))"
      by (simp add: drop_take add.commute)
    also have "\<dots> = take 2 (drop 2 d)" using d(1) [of 4] l by (simp add: drop_take)
    finally have "take 2 (drop (fptr f + 2) (content f)) = take 2 (drop 2 d)" .
    then have r2: "fread (f\<lparr>fptr := fptr f + 2\<rparr>) 2 = (take 2 (drop 2 d), f\<lparr>fptr := fptr f + 4\<rparr>)"
      using fread_healthy [of "f\<lparr>fptr := fptr f + 2\<rparr>" 2] h d(2) l by simp
    have "sint (- 4 :: u32) = - 4" by simp
    then have s: "fseek (f\<lparr>fptr := fptr f + 4\<rparr>) (- 4) FF_SEEK_CUR = f"
      using fseek_cur [of "f\<lparr>fptr := fptr f + 4\<rparr>" "- 4" "fptr f"] h d(2) l by simp
    have "tone (take 2 d) = tone d" "tone (take 2 (drop 2 d)) = tone (drop 2 d)" using l by (simp_all add: tone_def)
    with 3 r r2 s l c(1) show ?thesis
      by (simp add: uef_bitlen_def carrier_bits_tone chunk_stream_def)
  qed
qed

lemma uef_info_moves: "healthy f \<Longrightarrow> \<exists>q \<le> f_size f. uef_info len f = f\<lparr>fptr := q\<rparr>"
proof (induction "unat len" arbitrary: len f rule: less_induct)
  case less
  have le: "fptr f \<le> f_size f" using less.prems by (simp add: healthy_def file_ok_def)
  show ?case
  proof (cases "len = 0")
    case True
    with le show ?thesis by (intro exI [of _ "fptr f"]) (simp add: uef_info.simps)
  next
    case False
    define r where "r = (if len > 63 then 63 else len)"
    define q where "q = min (f_size f) (fptr f + unat r)"
    obtain dat where rd: "fread f (unat r) = (dat, f\<lparr>fptr := q\<rparr>)"
      using FF_Read_healthy [OF less.prems, of 1 "of_nat (unat r)"] by (simp add: fread_def q_def)
    have q: "q \<le> f_size f" by (simp add: q_def)
    have e: "uef_info len f = (if length dat \<noteq> unat r then f\<lparr>fptr := q\<rparr> else uef_info (len - r) (f\<lparr>fptr := q\<rparr>))"
      using False rd by (subst uef_info.simps) (simp add: r_def Let_def)
    have pos: "0 < unat len" using False by (simp add: unat_gt_0)
    have "unat (len - r) = unat len - unat r" by (subst unat_sub) (auto simp: r_def not_less)
    then have "unat (len - r) < unat len" using pos by (auto simp: r_def)
    from less.hyps [OF this, of "f\<lparr>fptr := q\<rparr>"] less.prems q obtain q' where
      "q' \<le> f_size f" "uef_info (len - r) (f\<lparr>fptr := q\<rparr>) = f\<lparr>fptr := q'\<rparr>" by auto
    with e q show ?thesis by (cases "length dat = unat r") auto
  qed
qed

lemma uef_other_chunk:
  assumes h: "healthy f" "f_size f < 2 ^ 31"
    and d: "fptr f + length d \<le> f_size f"
    and c: "chunk_id chunk = i" "file_offset chunk = of_nat (fptr f)" "good_chunk (i, d)" "\<not> uef_is_tape i"
  shows "uef_other chunk f = (False, f)"
proof -
  have s: "fseek (f\<lparr>fptr := q\<rparr>) (file_offset chunk) FF_SEEK_SET = f" if "q \<le> f_size f" for q
    using fseek_set [of "f\<lparr>fptr := q\<rparr>" "file_offset chunk" "fptr f"] h that d c(2)
    by (simp add: sint_small)
  obtain q where "q \<le> f_size f" "uef_info (chunk_length chunk) f = f\<lparr>fptr := q\<rparr>"
    using uef_info_moves [OF h(1)] by blast
  moreover have "fread f 4 = (take 4 (drop (fptr f) (content f)), f\<lparr>fptr := fptr f + 4\<rparr>)"
    if "i = UEF_freqChgID \<or> i = UEF_floatGapID"
    using fread_healthy [OF h(1), of 4] d c(3) that by (auto simp: good_chunk_def)
  moreover have "i = UEF_freqChgID \<or> i = UEF_floatGapID \<Longrightarrow> fptr f + 4 \<le> f_size f"
    using d c(3) by (auto simp: good_chunk_def)
  moreover have "fseek f (file_offset chunk) FF_SEEK_SET = f" using s [of "fptr f"] d by simp
  ultimately show ?thesis using c(1) s by (auto simp: uef_other_def f_size_def)
qed

subsection \<open>The scan finds the chunk of a bit\<close>

definition holds_chunk :: "uef \<Rightarrow> ChunkInfo \<Rightarrow> uef \<Rightarrow> u16 \<times> u8 list \<Rightarrow> uef \<Rightarrow> bool" where
  "holds_chunk cs chunk pre c post \<longleftrightarrow>
     cs = pre @ c # post \<and> uef_is_tape (fst c) \<and> chunk_id chunk = fst c \<and>
     chunk_length chunk = of_nat (length (snd c)) \<and>
     file_offset chunk = of_nat (12 + length (uef_bytes_of pre) + 6) \<and>
     bit_offset_start chunk = of_nat (length (uef_stream pre)) \<and>
     bit_offset_end chunk = of_nat (length (uef_stream pre) + length (chunk_stream c)) \<and>
     (fst c = UEF_highDummyID \<longrightarrow> pre_carrier chunk = of_nat (tone (snd c)))"

text \<open>The cache is empty or holds a chunk of the file.\<close>

definition cache_ok :: "uef \<Rightarrow> ChunkInfo \<Rightarrow> bool" where
  "cache_ok cs chunk \<longleftrightarrow> bit_offset_end chunk = 0 \<or> (\<exists>pre c post. holds_chunk cs chunk pre c post)"

lemma ucast_of_nat_u32: "n < 2 ^ 32 \<Longrightarrow> ucast (of_nat n :: u64) = (of_nat n :: u32)"
  by (rule word_unat_eq_iff [THEN iffD2]) (simp add: unsigned_ucast_eq unat_of_nat take_bit_eq_mod)

lemma unat_u32: "n < 2 ^ 32 \<Longrightarrow> unat (of_nat n :: u32) = n"
  by (simp add: unat_of_nat take_bit_eq_mod)

lemma chunk_stream_other: "\<not> uef_is_tape i \<Longrightarrow> chunk_stream (i, d) = []"
  by (auto simp: chunk_stream_def uef_is_tape_def)

text \<open>The chunk holds bit \<open>n\<close> of the stream, at its own position \<open>bp\<close>.\<close>

definition bit_in_chunk :: "uef \<Rightarrow> ChunkInfo \<Rightarrow> u32 \<Rightarrow> nat \<Rightarrow> bool" where
  "bit_in_chunk cs chunk bp n \<longleftrightarrow>
     (\<exists>pre c post. holds_chunk cs chunk pre c post \<and> unat bp < length (chunk_stream c) \<and>
        n = length (uef_stream pre) + unat bp)"

lemma bit_in_chunkI:
  "holds_chunk cs chunk pre c post \<Longrightarrow> unat bp < length (chunk_stream c) \<Longrightarrow> n = length (uef_stream pre) + unat bp \<Longrightarrow>
     bit_in_chunk cs chunk bp n"
  unfolding bit_in_chunk_def by blast

lemma cache_okI: "holds_chunk cs chunk pre c post \<Longrightarrow> cache_ok cs chunk"
  unfolding cache_ok_def by blast

text \<open>What a scan for bit \<open>n\<close> of the rest \<open>cs2\<close> of the file ends with.\<close>

definition scan_result :: "uef \<Rightarrow> uef \<Rightarrow> uef \<Rightarrow> nat \<Rightarrow> u32 \<Rightarrow> ChunkInfo \<Rightarrow> bool" where
  "scan_result cs pre cs2 n bp chunk \<longleftrightarrow>
     (if n < length (uef_stream cs2)
      then \<exists>p c q. cs2 = p @ c # q \<and> holds_chunk cs chunk (pre @ p) c q \<and> bit_offset_end chunk \<noteq> 0 \<and>
             unat bp < length (chunk_stream c) \<and> n = length (uef_stream p) + unat bp
      else bit_offset_end chunk = 0 \<and> unat bp = n - length (uef_stream cs2))"

lemma scan_result_later:
  assumes "scan_result cs (pre @ [c]) cs2 (n - length (chunk_stream c)) bp chunk" "length (chunk_stream c) \<le> n"
  shows "scan_result cs pre (c # cs2) n bp chunk"
proof (cases "n - length (chunk_stream c) < length (uef_stream cs2)")
  case True
  with assms(1) obtain p c' q where "cs2 = p @ c' # q" "holds_chunk cs chunk ((pre @ [c]) @ p) c' q"
    "bit_offset_end chunk \<noteq> 0" "unat bp < length (chunk_stream c')"
    "n - length (chunk_stream c) = length (uef_stream p) + unat bp"
    by (auto simp: scan_result_def)
  then have "c # cs2 = (c # p) @ c' # q \<and> holds_chunk cs chunk (pre @ (c # p)) c' q \<and> bit_offset_end chunk \<noteq> 0 \<and>
      unat bp < length (chunk_stream c') \<and> n = length (uef_stream (c # p)) + unat bp"
    using assms(2) by simp
  moreover have "n < length (uef_stream (c # cs2))" using True by simp
  ultimately show ?thesis unfolding scan_result_def by metis
qed (use assms in \<open>auto simp: scan_result_def\<close>)

lemma scan_result_here:
  assumes "holds_chunk cs chunk pre c cs2" "unat bp < length (chunk_stream c)"
    and "length (uef_stream pre) + length (chunk_stream c) < 2 ^ 32"
  shows "scan_result cs pre (c # cs2) (unat bp) bp chunk"
proof -
  have "unat (bit_offset_end chunk) = length (uef_stream pre) + length (chunk_stream c)"
    using assms(1,3) by (simp only: holds_chunk_def unat_u32)
  then have "bit_offset_end chunk \<noteq> 0" using assms(2) by (metis add_is_0 not_less_zero unat_0)
  then have "c # cs2 = [] @ c # cs2 \<and> holds_chunk cs chunk (pre @ []) c cs2 \<and> bit_offset_end chunk \<noteq> 0 \<and>
      unat bp < length (chunk_stream c) \<and> unat bp = length (uef_stream []) + unat bp"
    using assms(1,2) by simp
  moreover have "unat bp < length (uef_stream (c # cs2))" using assms(2) by simp
  ultimately show ?thesis unfolding scan_result_def by metis
qed

text \<open>One round of the scan, at a chunk of the file.\<close>

lemma uef_scan_step:
  assumes f: "uef_file cs f" and cs: "cs = pre @ (i, d) # cs2" and p: "fptr f = 12 + length (uef_bytes_of pre)"
    and e: "bit_offset_end chunk = 0"
  shows "\<exists>f1 f2 c2. content f1 = content f \<and> content f2 = content f \<and> uef_file cs f1 \<and> uef_file cs f2 \<and>
    fptr f2 = 12 + length (uef_bytes_of (pre @ [(i, d)])) \<and> bit_offset_end c2 = 0 \<and>
    (uef_is_tape i \<longrightarrow>
      holds_chunk cs (c2\<lparr>bit_offset_start := of_nat (length (uef_stream pre)), bit_offset_end :=
        of_nat (length (uef_stream pre)) + of_nat (length (chunk_stream (i, d)))\<rparr>) pre (i, d) cs2) \<and>
    uef_scan chk bit_pos start chunk f =
      (if uef_is_tape i \<and> bit_pos < of_nat (length (chunk_stream (i, d)))
       then Some (bit_pos, c2\<lparr>bit_offset_start := start,
                             bit_offset_end := start + of_nat (length (chunk_stream (i, d)))\<rparr>, f1)
       else uef_scan chk (bit_pos - of_nat (length (chunk_stream (i, d))))
              (start + of_nat (length (chunk_stream (i, d)))) c2 f2)"
proof -
  note h = ReadChunkHeader_chunk [OF f cs p]
  have good: "good_chunk (i, d)" "i \<noteq> 0xFFFF" using f cs by (auto simp: uef_file_def good_chunk_def)
  define f1 where "f1 = f\<lparr>fptr := fptr f + 6\<rparr>"
  define c1 where "c1 = chunk\<lparr>chunk_id := i, chunk_length := of_nat (length d), file_offset := of_nat (fptr f + 6)\<rparr>"
  have small: "f_size f < 2 ^ 31" using f by (simp add: uef_file_def)
  then have "ucast (FF_Tell f1) = (of_nat (fptr f + 6) :: u32)"
    using h(2) ucast_of_nat_u32 [of "fptr f + 6"] by (simp add: f1_def FF_Tell_def f_tell_def)
  then have c1: "chunk\<lparr>chunk_id := i, chunk_length := of_nat (length d)\<rparr>\<lparr>file_offset := ucast (FF_Tell f1)\<rparr> = c1"
    by (simp add: c1_def)
  have f1: "uef_file cs f1" "fptr f1 = fptr f + 6" "f_size f1 = f_size f" "healthy f1" "content f1 = content f"
    using uef_file_fptr [OF f, of "fptr f + 6"] h(2) by (simp_all add: f1_def uef_file_healthy)
  have eof: "\<not> FF_isEOF f" using h(2) by (simp add: FF_isEOF_def f_eof_def)
  define f2 where "f2 = f1\<lparr>fptr := fptr f + 6 + length d\<rparr>"
  have f2: "fseek f1 (of_nat (length d)) FF_SEEK_CUR = f2" "uef_file cs f2" "content f2 = content f"
    using fseek_cur [of f1 "of_nat (length d)" "fptr f + 6 + length d"] uef_file_fptr [OF f1(1), of "fptr f + 6 + length d"]
      h(2,3) f1 small by (simp_all add: f2_def sint_small)
  have p2: "fptr f2 = 12 + length (uef_bytes_of (pre @ [(i, d)]))" using p by (simp add: f2_def)
  note scan = uef_scan.simps [of chk bit_pos start chunk f]
  show ?thesis
  proof (cases "uef_is_tape i")
    case True
    define c2 where "c2 = (if i = UEF_highDummyID then c1\<lparr>pre_carrier := of_nat (tone d)\<rparr> else c1)"
    have b: "uef_bitlen f1 c1 = (Some (of_nat (length (chunk_stream (i, d)))), c2, f1)"
      using uef_bitlen_chunk [of f1 d "uef_bytes_of cs2" c1 i] f1 h small good(1) True by (simp add: c1_def c2_def)
    have "chunk_length c2 = of_nat (length d)" "bit_offset_end c2 = 0" using e by (simp_all add: c2_def c1_def)
    moreover have "holds_chunk cs (c2\<lparr>bit_offset_start := of_nat (length (uef_stream pre)), bit_offset_end :=
        of_nat (length (uef_stream pre)) + of_nat (length (chunk_stream (i, d)))\<rparr>) pre (i, d) cs2"
      using cs True p by (simp add: holds_chunk_def c2_def c1_def add.commute)
    ultimately show ?thesis using eof good(2) True f1 f2 p2
      by (intro exI [of _ f1] exI [of _ f2] exI [of _ c2])
        (simp add: scan h(1) f1_def [symmetric] c1 b Let_def)
  next
    case False
    have "uef_other c1 f1 = (False, f1)"
      using uef_other_chunk [of f1 d c1 i] f1 h small good(1) False by (simp add: c1_def)
    moreover have "bit_offset_end c1 = 0" "chunk_length c1 = of_nat (length d)" using e by (simp_all add: c1_def)
    ultimately show ?thesis using eof good(2) False f1 f2 p2
      by (intro exI [of _ f1] exI [of _ f2] exI [of _ c1])
        (simp add: scan h(1) f1_def [symmetric] c1 Let_def chunk_stream_other)
  qed
qed

lemma uef_scan_finds:
  assumes "uef_file cs f" "cs = pre @ cs2" "fptr f = 12 + length (uef_bytes_of pre)" "bit_offset_end chunk = 0"
  shows "\<exists>bp chunk' f'. uef_scan chk bit_pos (of_nat (length (uef_stream pre))) chunk f = Some (bp, chunk', f') \<and>
    uef_file cs f' \<and> content f' = content f \<and> scan_result cs pre cs2 (unat bit_pos) bp chunk'"
  using assms
proof (induction cs2 arbitrary: pre chunk f bit_pos)
  case Nil
  then have "FF_isEOF f" by (auto simp: uef_file_def FF_isEOF_def f_eof_def f_size_def)
  with Nil show ?case by (subst uef_scan.simps) (simp add: scan_result_def)
next
  case (Cons c cs2)
  obtain i d where c: "c = (i, d)" by (cases c)
  note f = Cons.prems(1) and cs = Cons.prems(2) [unfolded c] and p = Cons.prems(3)
  let ?L = "length (chunk_stream c)" and ?S = "of_nat (length (uef_stream pre)) :: u32"
  have bound: "length (uef_stream pre) + ?L < 2 ^ 32" using f cs by (simp add: uef_file_def c)
  then have L: "unat (of_nat ?L :: u32) = ?L" by (intro unat_u32) simp
  from uef_scan_step [OF f cs p Cons.prems(4), of chk bit_pos ?S, folded c] obtain f1 f2 c2 where
    ct: "content f1 = content f" "content f2 = content f" and u: "uef_file cs f1" "uef_file cs f2"
    and p2: "fptr f2 = 12 + length (uef_bytes_of (pre @ [c]))" and e2: "bit_offset_end c2 = 0"
    and hold: "uef_is_tape i \<longrightarrow> holds_chunk cs (c2\<lparr>bit_offset_start := ?S, bit_offset_end := ?S + of_nat ?L\<rparr>) pre c cs2"
    and scan: "uef_scan chk bit_pos ?S chunk f =
      (if uef_is_tape i \<and> bit_pos < of_nat ?L
       then Some (bit_pos, c2\<lparr>bit_offset_start := ?S, bit_offset_end := ?S + of_nat ?L\<rparr>, f1)
       else uef_scan chk (bit_pos - of_nat ?L) (?S + of_nat ?L) c2 f2)" by blast
  show ?case
  proof (cases "uef_is_tape i \<and> bit_pos < of_nat ?L")
    case True
    then have "unat bit_pos < ?L" using L by (simp add: word_less_nat_alt)
    with scan_result_here [OF _ _ bound] hold True scan ct u show ?thesis by auto
  next
    case False
    then have ge: "of_nat ?L \<le> bit_pos" using chunk_stream_other [of i d] by (auto simp: c)
    have sub: "unat (bit_pos - of_nat ?L) = unat bit_pos - ?L" using L ge by (subst unat_sub) simp_all
    have ge': "?L \<le> unat bit_pos" using ge L by (simp add: word_le_nat_alt)
    have "cs = (pre @ [c]) @ cs2" using cs c by simp
    from Cons.IH [OF u(2) this p2 e2, of "bit_pos - of_nat ?L"] obtain bp chunk' f' where
      r: "uef_scan chk (bit_pos - of_nat ?L) (?S + of_nat ?L) c2 f2 = Some (bp, chunk', f')"
        "uef_file cs f'" "content f' = content f" "scan_result cs (pre @ [c]) cs2 (unat bit_pos - ?L) bp chunk'"
      unfolding sub by (auto simp: ct)
    from scan_result_later [OF r(4) ge'] r scan False show ?thesis by auto
  qed
qed

text \<open>The look-up, with or without the cache.\<close>

lemma scan_result_found:
  assumes cs: "cs = pre @ cs2" and r: "scan_result cs pre cs2 n bp chunk"
  shows "bit_offset_end chunk \<noteq> 0 \<longleftrightarrow> length (uef_stream pre) + n < length (uef_stream cs)"
    and "cache_ok cs chunk"
    and "length (uef_stream pre) + n < length (uef_stream cs) \<Longrightarrow> bit_in_chunk cs chunk bp (length (uef_stream pre) + n)"
proof -
  have "(bit_offset_end chunk \<noteq> 0 \<longleftrightarrow> n < length (uef_stream cs2)) \<and> cache_ok cs chunk \<and>
      (n < length (uef_stream cs2) \<longrightarrow> bit_in_chunk cs chunk bp (length (uef_stream pre) + n))"
  proof (cases "n < length (uef_stream cs2)")
    case True
    with r obtain p c q where h: "holds_chunk cs chunk (pre @ p) c q" "bit_offset_end chunk \<noteq> 0"
      "unat bp < length (chunk_stream c)" "n = length (uef_stream p) + unat bp" by (auto simp: scan_result_def)
    have "length (uef_stream pre) + n = length (uef_stream (pre @ p)) + unat bp" using h(4) by simp
    from bit_in_chunkI [OF h(1,3) this] show ?thesis using True h(2) cache_okI [OF h(1)] by simp
  qed (use r in \<open>simp add: scan_result_def cache_ok_def\<close>)
  then show "bit_offset_end chunk \<noteq> 0 \<longleftrightarrow> length (uef_stream pre) + n < length (uef_stream cs)"
    and "cache_ok cs chunk"
    and "length (uef_stream pre) + n < length (uef_stream cs) \<Longrightarrow> bit_in_chunk cs chunk bp (length (uef_stream pre) + n)"
    using cs by simp_all
qed

lemma holds_chunk_bounds:
  assumes "uef_file cs f" "holds_chunk cs chunk pre c post"
  shows "unat (bit_offset_start chunk) = length (uef_stream pre)"
    and "unat (bit_offset_end chunk) = length (uef_stream pre) + length (chunk_stream c)"
    and "length (uef_stream pre) + length (chunk_stream c) \<le> length (uef_stream cs)"
    and "fseek f (file_offset chunk + chunk_length chunk) FF_SEEK_SET = f\<lparr>fptr := 12 + length (uef_bytes_of (pre @ [c]))\<rparr>"
    and "12 + length (uef_bytes_of (pre @ [c])) \<le> f_size f"
proof -
  have h: "cs = pre @ c # post" using assms(2) by (simp add: holds_chunk_def)
  then show "length (uef_stream pre) + length (chunk_stream c) \<le> length (uef_stream cs)" by simp
  moreover have b: "length (uef_stream cs) < 2 ^ 32 - 16" using assms(1) by (simp add: uef_file_def)
  ultimately show "unat (bit_offset_start chunk) = length (uef_stream pre)"
    and "unat (bit_offset_end chunk) = length (uef_stream pre) + length (chunk_stream c)"
    using assms(2) unfolding holds_chunk_def by (auto simp del: of_nat_add intro!: unat_u32)
  from assms(1) h show le: "12 + length (uef_bytes_of (pre @ [c])) \<le> f_size f" by (auto simp: uef_file_def f_size_def)
  have "file_offset chunk + chunk_length chunk = of_nat (12 + length (uef_bytes_of (pre @ [c])))"
    using assms(2) by (simp add: holds_chunk_def)
  then show "fseek f (file_offset chunk + chunk_length chunk) FF_SEEK_SET = f\<lparr>fptr := 12 + length (uef_bytes_of (pre @ [c]))\<rparr>"
    using fseek_set [of f "of_nat (12 + length (uef_bytes_of (pre @ [c])))" "12 + length (uef_bytes_of (pre @ [c]))"]
      assms(1) le by (simp only: uef_file_healthy sint_small)
qed

lemma GetChunkAtPosFile_finds:
  assumes f: "uef_file cs f" and ok: "cache_ok cs chunk"
  shows "\<exists>bp chunk' f'. GetChunkAtPosFile f chunk pos = Some (unat pos < length (uef_stream cs), bp, chunk', f') \<and>
    uef_file cs f' \<and> content f' = content f \<and> cache_ok cs chunk' \<and>
    (unat pos < length (uef_stream cs) \<longrightarrow> bit_in_chunk cs chunk' bp (unat pos)) \<and>
    (chunk = zero_chunk \<and> length (uef_stream cs) \<le> unat pos \<longrightarrow> unat bp = unat pos - length (uef_stream cs))"
proof (cases "bit_offset_start chunk \<le> pos \<and> pos < bit_offset_end chunk")
  case True
  then have "bit_offset_end chunk \<noteq> 0" by auto
  with ok obtain pre c post where h: "holds_chunk cs chunk pre c post" by (auto simp: cache_ok_def)
  note b = holds_chunk_bounds [OF f h]
  have "unat (pos - bit_offset_start chunk) = unat pos - length (uef_stream pre)"
    using True b(1) by (subst unat_sub) simp_all
  moreover have lt: "length (uef_stream pre) \<le> unat pos" "unat pos < length (uef_stream pre) + length (chunk_stream c)"
    using True b(1,2) by (simp_all add: word_le_nat_alt word_less_nat_alt)
  ultimately have "bit_in_chunk cs chunk (pos - bit_offset_start chunk) (unat pos)" by (intro bit_in_chunkI [OF h]) simp_all
  moreover have "chunk \<noteq> zero_chunk" using \<open>bit_offset_end chunk \<noteq> 0\<close> by (auto simp: zero_chunk_def)
  moreover have "GetChunkAtPosFile f chunk pos = Some (True, pos - bit_offset_start chunk, chunk, f)"
    using True by (simp add: GetChunkAtPosFile_def)
  ultimately show ?thesis using f ok lt b(3) by simp
next
  case miss: False
  define p where "p = (if bit_offset_end chunk \<noteq> 0 \<and> pos \<ge> bit_offset_end chunk
    then (pos - bit_offset_end chunk, bit_offset_end chunk, fseek f (file_offset chunk + chunk_length chunk) FF_SEEK_SET)
    else (pos, 0, fseek f 12 FF_SEEK_SET))"
  have "\<exists>pre cs2 pos0 f0. p = (pos0, of_nat (length (uef_stream pre)), f0) \<and> cs = pre @ cs2 \<and> uef_file cs f0 \<and>
      content f0 = content f \<and> fptr f0 = 12 + length (uef_bytes_of pre) \<and> unat pos = length (uef_stream pre) + unat pos0 \<and>
      (chunk = zero_chunk \<longrightarrow> pre = [])"
  proof (cases "bit_offset_end chunk \<noteq> 0 \<and> pos \<ge> bit_offset_end chunk")
    case True
    with ok obtain pre c post where h: "holds_chunk cs chunk pre c post" by (auto simp: cache_ok_def)
    note b = holds_chunk_bounds [OF f h]
    have "unat pos = length (uef_stream (pre @ [c])) + unat (pos - bit_offset_end chunk)"
      using True b(2) by (subst unat_sub) (simp_all add: word_le_nat_alt)
    moreover have "bit_offset_end chunk = of_nat (length (uef_stream (pre @ [c])))" "cs = (pre @ [c]) @ post"
      using h by (simp_all add: holds_chunk_def)
    moreover have "chunk \<noteq> zero_chunk" using True by (auto simp: zero_chunk_def)
    ultimately show ?thesis using True b(4,5) f unfolding p_def
      by (intro exI [of _ "pre @ [c]"] exI [of _ post] exI [of _ "pos - bit_offset_end chunk"]
          exI [of _ "f\<lparr>fptr := 12 + length (uef_bytes_of (pre @ [c]))\<rparr>"]) (simp add: uef_file_fptr)
  next
    case False
    have "12 \<le> f_size f" using f by (auto simp: uef_file_def f_size_def)
    moreover have "sint (12 :: u32) = 12" by simp
    ultimately have "fseek f 12 FF_SEEK_SET = f\<lparr>fptr := 12\<rparr>"
      using fseek_set [of f 12 12] uef_file_healthy [OF f] by simp
    with False f \<open>12 \<le> f_size f\<close> show ?thesis unfolding p_def
      by (intro exI [of _ "[]"] exI [of _ cs] exI [of _ pos] exI [of _ "f\<lparr>fptr := 12\<rparr>"]) (auto simp: uef_file_fptr)
  qed
  then obtain pre cs2 pos0 f0 where p: "p = (pos0, of_nat (length (uef_stream pre)), f0)" "cs = pre @ cs2" "uef_file cs f0"
    "content f0 = content f" "fptr f0 = 12 + length (uef_bytes_of pre)" "unat pos = length (uef_stream pre) + unat pos0"
    "chunk = zero_chunk \<longrightarrow> pre = []" by blast
  from uef_scan_finds [OF p(3,2,5), of "chunk\<lparr>bit_offset_end := 0\<rparr>" "pos = 0xFFFFFFFF" pos0] obtain bp chunk' f' where
    r: "uef_scan (pos = 0xFFFFFFFF) pos0 (of_nat (length (uef_stream pre))) (chunk\<lparr>bit_offset_end := 0\<rparr>) f0 = Some (bp, chunk', f')"
      "uef_file cs f'" "content f' = content f0" "scan_result cs pre cs2 (unat pos0) bp chunk'" by auto
  note s = scan_result_found [OF p(2) r(4)]
  have "GetChunkAtPosFile f chunk pos = Some (bit_offset_end chunk' \<noteq> 0, bp, chunk', f')"
    using miss r(1) p(1) unfolding GetChunkAtPosFile_def p_def [symmetric] by (auto simp: Let_def)
  moreover have "chunk = zero_chunk \<and> length (uef_stream cs) \<le> unat pos \<longrightarrow> unat bp = unat pos - length (uef_stream cs)"
    using r(4) p(2,6,7) by (auto simp: scan_result_def)
  ultimately show ?thesis using s r(2,3) p(4,6) by simp
qed

subsection \<open>A bit of the stream\<close>

lemma nth_frame: "k < 10 \<Longrightarrow> frame b ! k = frame_bit b k"
  by (simp add: frame_def)

lemma nth_frames: "n < 10 * length d \<Longrightarrow> concat (map frame d) ! n = frame_bit (d ! (n div 10)) (n mod 10)"
proof (induction d arbitrary: n)
  case (Cons b d)
  show ?case
  proof (cases "n < 10")
    case True
    then show ?thesis by (simp add: nth_append nth_frame)
  next
    case False
    then have "(b # d) ! (n div 10) = d ! ((n - 10) div 10)" "n mod 10 = (n - 10) mod 10"
      by (simp_all add: le_div_geq le_mod_geq)
    with Cons False show ?thesis by (simp add: nth_append)
  qed
qed simp

lemma unat_div_mod_10:
  fixes x :: u32
  shows "unat (x div 10) = unat x div 10" "unat (x - x div 10 * 10) = unat x mod 10" "unat (x mod 10) = unat x mod 10"
proof -
  show "unat (x div 10) = unat x div 10" by (simp add: unat_div)
  show "unat (x mod 10) = unat x mod 10" by (simp add: unat_mod)
  moreover have "x - x div 10 * 10 = x mod 10" by (simp add: minus_div_mult_eq_mod)
  ultimately show "unat (x - x div 10 * 10) = unat x mod 10" by simp
qed

text \<open>Fetching a data byte of a chunk.\<close>

lemma fread_chunk_byte:
  assumes f: "uef_file cs f" and h: "holds_chunk cs chunk pre (i, d) post" and k: "k < length d"
    and n: "unat n = k"
  shows "\<exists>f'. fread (fseek f (file_offset chunk + n) FF_SEEK_SET) 1 = ([d ! k], f') \<and> uef_file cs f' \<and> content f' = content f"
proof -
  let ?p = "12 + length (uef_bytes_of pre) + 6 + k"
  obtain hdr where c: "length hdr = 12" "content f = hdr @ uef_bytes_of cs" using f by (auto simp: uef_file_def)
  have cs: "cs = pre @ (i, d) # post" using h by (simp add: holds_chunk_def)
  have le: "?p + 1 \<le> f_size f" using c cs k by (simp add: f_size_def)
  have hl: "healthy f" "f_size f < 2 ^ 31" using uef_file_healthy [OF f] .
  have "n = of_nat (unat n)" by simp
  then have "n = of_nat k" unfolding n .
  then have "file_offset chunk + n = of_nat ?p" using h by (simp add: holds_chunk_def)
  then have s: "fseek f (file_offset chunk + n) FF_SEEK_SET = f\<lparr>fptr := ?p\<rparr>"
    using fseek_set [of f "of_nat ?p" ?p] hl le by (simp only: sint_small)
  define P where "P = hdr @ uef_bytes_of pre @ [byte_of 0 i, byte_of 1 i] @ le32 (of_nat (length d))"
  have P: "content f = P @ (d @ uef_bytes_of post)" "?p = length P + k"
    using c cs by (simp_all add: chunk_bytes_def P_def)
  have "drop ?p (content f) = drop k (d @ uef_bytes_of post)" unfolding P by simp
  then have "take 1 (drop ?p (content f)) = [d ! k]" using k by (simp add: take_Suc_conv_app_nth hd_drop_conv_nth take_Suc hd_append)
  moreover have "fread (f\<lparr>fptr := ?p\<rparr>) 1 = (take 1 (drop ?p (content f)), f\<lparr>fptr := ?p + 1\<rparr>)"
    using fread_healthy [of "f\<lparr>fptr := ?p\<rparr>" 1] hl le by simp
  ultimately show ?thesis using uef_file_fptr [OF f, of "?p + 1"] le s by simp
qed

text \<open>Past its end the stream is zero.\<close>

definition stream_bit :: "uef \<Rightarrow> nat \<Rightarrow> bool" where
  "stream_bit cs n \<longleftrightarrow> n < length (uef_stream cs) \<and> uef_stream cs ! n"

lemma stream_bit_chunk:
  assumes "holds_chunk cs chunk pre c post" "k < length (chunk_stream c)"
  shows "stream_bit cs (length (uef_stream pre) + k) = chunk_stream c ! k"
  using assms by (auto simp: holds_chunk_def stream_bit_def nth_append)

lemma dummy_stream_nth:
  assumes "i = UEF_highDummyID" "n < length (chunk_stream (i, d))"
  shows "chunk_stream (i, d) ! n =
    (if n < tone d \<or> tone d + 20 \<le> n then True else frame_bit 0x41 ((n - tone d) mod 10))"
proof -
  have "n - tone d < 20 \<Longrightarrow> (frame 0x41 @ frame 0x41) ! (n - tone d) = frame_bit 0x41 ((n - tone d) mod 10)"
    using nth_frames [of "n - tone d" "[0x41, 0x41]"] nth_replicate [of "(n - tone d) div 10" 2 "0x41 :: u8"]
    by (simp add: numeral_2_eq_2)
  then show ?thesis using assms by (auto simp: chunk_stream_def nth_append not_less)
qed

lemma tape_bit_stream:
  assumes f: "uef_file cs f" and h: "holds_chunk cs chunk pre (i, d) post" and lt: "unat bp < 10 * length d"
  shows "\<exists>f'. tape_bit f chunk bp = Some (concat (map frame d) ! unat bp, f') \<and> uef_file cs f' \<and> content f' = content f"
proof -
  have k: "unat bp div 10 < length d" using lt by (simp add: less_mult_imp_div_less)
  let ?o = "bp - bp div 10 * 10"
  have o: "unat ?o = unat bp mod 10" by (rule unat_div_mod_10)
  obtain f2 where r: "fread (fseek f (file_offset chunk + bp div 10) FF_SEEK_SET) 1 = ([d ! (unat bp div 10)], f2)"
    "uef_file cs f2" "content f2 = content f"
    using fread_chunk_byte [OF f h k unat_div_mod_10(1)] by blast
  have z: "?o = 0 \<longleftrightarrow> unat bp mod 10 = 0" using o by (metis unat_eq_0)
  have n9: "?o = 9 \<longleftrightarrow> unat bp mod 10 = 9" using o by (simp add: word_unat_eq_iff)
  have pred: "unat bp mod 10 \<noteq> 0 \<Longrightarrow> unat (?o - 1) = unat bp mod 10 - 1" using o z unat_minus_one [of ?o] by simp
  have "tape_bit f chunk bp = Some (frame_bit (d ! (unat bp div 10)) (unat bp mod 10), if ?o = 0 \<or> ?o = 9 then f else f2)"
    using r(1) pred unfolding tape_bit_def Let_def z n9 by (auto simp: frame_bit_def)
  with f r nth_frames [OF lt] show ?thesis by auto
qed

lemma dummy_bit_stream:
  assumes pc: "pre_carrier chunk = of_nat (tone d)" and i: "i = UEF_highDummyID"
    and lt: "unat bp < length (chunk_stream (i, d))" "length (chunk_stream (i, d)) < 2 ^ 32"
  shows "dummy_bit chunk bp = chunk_stream (i, d) ! unat bp"
proof -
  have "tone d + 20 < 2 ^ 32" using lt(2) i by (simp add: chunk_stream_def)
  then have u: "unat (of_nat (tone d) :: u32) = tone d" "unat (of_nat (tone d) + 20 :: u32) = tone d + 20"
    using unat_u32 [of "tone d"] unat_u32 [of "tone d + 20"] by simp_all
  have cmp: "bp < pre_carrier chunk \<or> bp \<ge> pre_carrier chunk + 20 \<longleftrightarrow> unat bp < tone d \<or> tone d + 20 \<le> unat bp"
    unfolding pc by (simp add: word_less_nat_alt word_le_nat_alt u)
  show ?thesis
  proof (cases "unat bp < tone d \<or> tone d + 20 \<le> unat bp")
    case True
    then show ?thesis using cmp dummy_stream_nth [OF i lt(1)] by (simp add: dummy_bit_def)
  next
    case False
    let ?o = "(bp - pre_carrier chunk) mod 10"
    have o: "unat ?o = (unat bp - tone d) mod 10"
      using False u by (simp add: unat_div_mod_10 pc unat_sub word_le_nat_alt)
    have z: "?o = 0 \<longleftrightarrow> (unat bp - tone d) mod 10 = 0" using o by (metis unat_eq_0)
    have n9: "?o = 9 \<longleftrightarrow> (unat bp - tone d) mod 10 = 9" using o by (simp add: word_unat_eq_iff)
    have pred: "(unat bp - tone d) mod 10 \<noteq> 0 \<Longrightarrow> unat (?o - 1) = (unat bp - tone d) mod 10 - 1"
      using o z unat_minus_one [of ?o] by simp
    show ?thesis using False cmp pred dummy_stream_nth [OF i lt(1)]
      unfolding dummy_bit_def Let_def z n9 by (auto simp: frame_bit_def)
  qed
qed

lemma GetBitAtPos_stream:
  assumes f: "uef_file cs f" and ok: "cache_ok cs chunk"
  shows "\<exists>chunk' f'. GetBitAtPos f chunk pos = Some (stream_bit cs (unat pos), chunk', f') \<and>
    uef_file cs f' \<and> content f' = content f \<and> cache_ok cs chunk'"
proof -
  from GetChunkAtPosFile_finds [OF f ok, of pos] obtain bp chunk' f' where
    g: "GetChunkAtPosFile f chunk pos = Some (unat pos < length (uef_stream cs), bp, chunk', f')"
    and f': "uef_file cs f'" "content f' = content f" and ok': "cache_ok cs chunk'"
    and b: "unat pos < length (uef_stream cs) \<longrightarrow> bit_in_chunk cs chunk' bp (unat pos)" by blast
  show ?thesis
  proof (cases "unat pos < length (uef_stream cs)")
    case False
    with g f' ok' show ?thesis by (simp add: GetBitAtPos_def stream_bit_def)
  next
    case True
    with b obtain pre i d post where h: "holds_chunk cs chunk' pre (i, d) post" and lt: "unat bp < length (chunk_stream (i, d))"
      and n: "unat pos = length (uef_stream pre) + unat bp" by (auto simp: bit_in_chunk_def)
    have sb: "stream_bit cs (unat pos) = chunk_stream (i, d) ! unat bp" unfolding n by (rule stream_bit_chunk [OF h lt])
    have id: "chunk_id chunk' = i" "uef_is_tape i" using h by (simp_all add: holds_chunk_def)
    consider (tone) "i = UEF_gapID \<or> i = UEF_highToneID" | (tape) "i = UEF_tapeID" | (dummy) "i = UEF_highDummyID"
      using id(2) by (auto simp: uef_is_tape_def)
    then show ?thesis
    proof cases
      case tone
      with g True id sb lt f' ok' show ?thesis by (auto simp: GetBitAtPos_def chunk_stream_def)
    next
      case tape
      with tape_bit_stream [OF f'(1) h, of bp] lt obtain f2 where
        "tape_bit f' chunk' bp = Some (chunk_stream (i, d) ! unat bp, f2)" "uef_file cs f2" "content f2 = content f'"
        by (auto simp: chunk_stream_def)
      with tape g True id sb f' ok' show ?thesis by (simp add: GetBitAtPos_def)
    next
      case dummy
      have "length (chunk_stream (i, d)) < 2 ^ 32"
        using holds_chunk_bounds(3) [OF f'(1) h] f'(1) by (simp add: uef_file_def)
      with dummy_bit_stream [OF _ dummy lt, of chunk'] h dummy have "dummy_bit chunk' bp = chunk_stream (i, d) ! unat bp"
        by (simp add: holds_chunk_def)
      with dummy g True id sb f' ok' show ?thesis by (simp add: GetBitAtPos_def)
    qed
  qed
qed

subsection \<open>The packed stream\<close>

text \<open>The byte of the stream at \<open>k\<close>: its first bit is the most significant one.\<close>

definition stream_byte :: "uef \<Rightarrow> nat \<Rightarrow> u8" where
  "stream_byte cs k = horner_sum of_bool 2 (map (\<lambda>j. stream_bit cs (8 * k + 7 - j)) [0..<8])"

fun pack :: "bool list \<Rightarrow> u8 \<Rightarrow> u8" where
  "pack [] v = v"
| "pack (b # bs) v = pack bs (push_bit 1 v OR (if b then 1 else 0))"

lemma pack_byte: "pack (map (stream_bit cs) [8 * k..<8 * k + 8]) 0 = stream_byte cs k"
proof -
  have l: "[8 * k..<8 * k + 8] = [8 * k, 8 * k + 1, 8 * k + 2, 8 * k + 3, 8 * k + 4, 8 * k + 5, 8 * k + 6, 8 * k + 7]"
    by (simp add: upt_rec)
  have b1: "bit (if b then 1 else 0 :: u8) n \<longleftrightarrow> b \<and> n = 0" for b n by (simp add: bit_1_iff)
  have h: "bit (stream_byte cs k) j \<longleftrightarrow> stream_bit cs (8 * k + 7 - j)" if "j < 8" for j
    using that by (simp add: stream_byte_def bit_horner_sum_bit_word_iff)
  show ?thesis
    unfolding l list.map pack.simps
    by (rule u8_eqI; subst h; simp only: bit_or_iff bit_push_bit_iff b1) (simp_all add: add.commute [of "8 * k"])
qed

lemma uef_bits_pack:
  "uef_file cs f \<Longrightarrow> cache_ok cs chunk \<Longrightarrow> unat pos + n < 2 ^ 32 \<Longrightarrow>
     \<exists>chunk' f'. uef_bits n pos val f chunk = Some (pack (map (stream_bit cs) [unat pos..<unat pos + n]) val, chunk', f') \<and>
       uef_file cs f' \<and> content f' = content f \<and> cache_ok cs chunk'"
proof (induction n arbitrary: pos val f chunk)
  case (Suc n)
  from GetBitAtPos_stream [OF Suc.prems(1,2), of pos] obtain c1 f1 where
    g: "GetBitAtPos f chunk pos = Some (stream_bit cs (unat pos), c1, f1)" "uef_file cs f1" "content f1 = content f" "cache_ok cs c1"
    by blast
  have p: "unat (pos + 1) = unat pos + 1" using Suc.prems(3) by (simp add: unat_word_ariths)
  have "unat (pos + 1) + n < 2 ^ 32" using Suc.prems(3) p by simp
  from Suc.IH [OF g(2,4) this, of "push_bit 1 val OR (if stream_bit cs (unat pos) then 1 else 0)"] obtain c2 f2 where
    "uef_bits n (pos + 1) (push_bit 1 val OR (if stream_bit cs (unat pos) then 1 else 0)) f1 c1 =
       Some (pack (map (stream_bit cs) [unat pos + 1..<unat pos + 1 + n])
               (push_bit 1 val OR (if stream_bit cs (unat pos) then 1 else 0)), c2, f2)"
    "uef_file cs f2" "content f2 = content f1" "cache_ok cs c2" unfolding p by blast
  moreover have "[unat pos..<unat pos + Suc n] = unat pos # [unat pos + 1..<unat pos + 1 + n]" by (simp add: upt_rec)
  ultimately show ?case using g by (simp del: upt_Suc)
qed simp

lemma uef_bytes_stream:
  "uef_file cs f \<Longrightarrow> cache_ok cs chunk \<Longrightarrow> 8 * (unat addr + n) < 2 ^ 32 \<Longrightarrow>
     \<exists>chunk' f'. uef_bytes n addr f chunk = Some (map (stream_byte cs) [unat addr..<unat addr + n], chunk', f') \<and>
       uef_file cs f' \<and> content f' = content f \<and> cache_ok cs chunk'"
proof (induction n arbitrary: addr f chunk)
  case (Suc n)
  have p: "unat (push_bit 3 addr) = 8 * unat addr"
    using Suc.prems(3) by (simp add: push_bit_eq_mult unat_word_ariths)
  have "unat (push_bit 3 addr) + 8 < 2 ^ 32" using Suc.prems(3) p by simp
  from uef_bits_pack [OF Suc.prems(1,2) this, of 0] obtain c1 f1 where
    g: "uef_bits 8 (push_bit 3 addr) 0 f chunk = Some (stream_byte cs (unat addr), c1, f1)"
      "uef_file cs f1" "content f1 = content f" "cache_ok cs c1" unfolding p pack_byte by blast
  have a: "unat (addr + 1) = unat addr + 1" using Suc.prems(3) by (simp add: unat_word_ariths)
  have "8 * (unat (addr + 1) + n) < 2 ^ 32" using Suc.prems(3) a by simp
  from Suc.IH [OF g(2,4) this] obtain c2 f2 where
    "uef_bytes n (addr + 1) f1 c1 = Some (map (stream_byte cs) [unat addr + 1..<unat addr + 1 + n], c2, f2)"
    "uef_file cs f2" "content f2 = content f1" "cache_ok cs c2" unfolding a by blast
  moreover have "[unat addr..<unat addr + Suc n] = unat addr # [unat addr + 1..<unat addr + 1 + n]" by (simp add: upt_rec)
  ultimately show ?case using g by (simp del: upt_Suc uef_bits.simps)
qed simp

subsection \<open>Serving a UEF image\<close>

text \<open>A clock that moves on between two readings with a conversion between them.\<close>

definition moving_clock :: "world \<Rightarrow> bool" where
  "moving_clock w \<longleftrightarrow>
     (\<forall>h. (of_nat (elapsed w (h @ [Clock, Clock])) :: u32) \<noteq> of_nat (elapsed w (h @ [Clock])))"

lemma moving_clock_sends: "sends c w w' bs \<Longrightarrow> moving_clock w' = moving_clock w"
  by (auto simp: sends_def runs_def extends_def moving_clock_def)

definition uef_size :: "uef \<Rightarrow> nat" where
  "uef_size cs = (length (uef_stream cs) + 7) div 8"

lemma uef_size_bound: "uef_file cs f \<Longrightarrow> 8 * uef_size cs < 2 ^ 32"
  using less_mult_imp_div_less [of "length (uef_stream cs) + 7" "2 ^ 29" 8] by (simp add: uef_file_def uef_size_def)

lemma uef_act_size_nat:
  assumes "8 * n < 2 ^ 32" "unat addr \<le> n" "k \<le> 512"
  shows "uef_act_size (of_nat n) addr k = min k (n - unat addr)"
proof -
  have n: "unat (of_nat n :: u32) = n" using assms(1) by (intro unat_u32) simp
  have "unat (of_nat k :: u32) = k" using assms(3) by (intro unat_u32) simp
  moreover have "unat addr + k < 2 ^ 32" using assms by simp
  ultimately have "unat (addr + of_nat k) = unat addr + k" by (simp add: unat_word_ariths)
  then have "addr + of_nat k > of_nat n \<longleftrightarrow> n < unat addr + k" by (simp add: word_less_nat_alt n)
  moreover have "unat (of_nat n - addr) = n - unat addr"
    using assms(2) n by (subst unat_sub) (simp_all add: word_le_nat_alt)
  ultimately show ?thesis by (auto simp: uef_act_size_def)
qed

lemma uef_transfer_stream:
  "uef_file cs f \<Longrightarrow> cache_ok cs chunk \<Longrightarrow> unat addr \<le> uef_size cs \<Longrightarrow> moving_clock w \<Longrightarrow>
     \<exists>f' chunk' w'. uef_transfer ch (of_nat (uef_size cs)) addr sz f chunk w = Some (f', chunk', w') \<and>
       uef_file cs f' \<and> content f' = content f \<and> cache_ok cs chunk' \<and>
       sends (FCH_CMD ch 0x30) w w' (map (stream_byte cs) [unat addr..<min (unat addr + sz) (uef_size cs)]) \<and>
       sends (FCH_CMD ch 0x08) w w' [if unat addr + sz \<le> uef_size cs then 0x02 else 0x22]"
proof (induction sz arbitrary: addr f chunk w rule: less_induct)
  case (less sz)
  let ?n = "uef_size cs"
  show ?case
  proof (cases "sz = 0")
    case True
    have "sends (FCH_CMD ch 0x30) w (FCh_WriteStat ch 2 w) []" "sends (FCH_CMD ch 0x08) w (FCh_WriteStat ch 2 w) [2]"
      using FCh_WriteStat_sends [of "FCH_CMD ch 0x30" w ch 2] FCh_WriteStat_sends [of "FCH_CMD ch 0x08" w ch 2] by simp_all
    with True less.prems show ?thesis by (subst uef_transfer.simps) simp
  next
    case False
    define k where "k = (if sz > 512 then 512 else sz)"
    have k: "0 < k" "k \<le> sz" "k \<le> 512" using False by (simp_all add: k_def)
    have n8: "8 * ?n < 2 ^ 32" by (rule uef_size_bound [OF less.prems(1)])
    define m where "m = min k (?n - unat addr)"
    have act: "uef_act_size (of_nat ?n) addr k = m" using uef_act_size_nat [OF n8 less.prems(3) k(3)] by (simp add: m_def)
    have m: "unat addr + m = min (unat addr + k) ?n" using less.prems(3) by (simp add: m_def)
    have "8 * (unat addr + m) < 2 ^ 32" using n8 unfolding m by simp
    from uef_bytes_stream [OF less.prems(1,2) this] obtain c1 f1 where
      b: "uef_bytes m addr f chunk = Some (map (stream_byte cs) [unat addr..<unat addr + m], c1, f1)"
        "uef_file cs f1" "content f1 = content f" "cache_ok cs c1" by blast
    let ?dat = "map (stream_byte cs) [unat addr..<unat addr + m]"
    define w1 where "w1 = FCh_fifo_write ch ?dat (snd (Timer_Get 0 (snd (Timer_Get 0 w))))"
    have tt: "sends c w (snd (Timer_Get 0 (snd (Timer_Get 0 w)))) []" for c
      by (rule sends_trans0 [OF sends_Timer_Get sends_Timer_Get])
    have s1: "sends (FCH_CMD ch 0x30) w w1 ?dat" "sends (FCH_CMD ch 0x08) w w1 []"
      unfolding w1_def using sends_trans0 [OF tt FCh_fifo_write_sends [of "FCH_CMD ch 0x30"  _ ch ?dat]]
        sends_trans0 [OF tt FCh_fifo_write_sends [of "FCH_CMD ch 0x08"  _ ch ?dat]] by simp_all
    have moving: "(of_nat (elapsed w (trace w @ [Clock, Clock])) :: u32) \<noteq> of_nat (elapsed w (trace w @ [Clock]))"
      using less.prems(4) unfolding moving_clock_def by blast
    have e: "uef_transfer ch (of_nat ?n) addr sz f chunk w =
        (if m \<noteq> k then Some (f1, c1, FCh_WriteStat ch 0x22 w1)
         else uef_transfer ch (of_nat ?n) (addr + of_nat k) (sz - k) f1 c1 w1)"
      using False moving by (subst uef_transfer.simps) (simp add: Let_def prod.case_eq_if k_def [symmetric] act b(1) w1_def)
    show ?thesis
    proof (cases "m = k")
      case False
      have "sends (FCH_CMD ch 0x30) w (FCh_WriteStat ch 0x22 w1) ?dat"
        "sends (FCH_CMD ch 0x08) w (FCh_WriteStat ch 0x22 w1) [0x22]"
        using sends_WriteStat [OF s1(1), of "0x22"] sends_WriteStat [OF s1(2), of "0x22"] by simp_all
      moreover have "min (unat addr + sz) ?n = unat addr + m" "\<not> unat addr + sz \<le> ?n"
        using False k(2) less.prems(3) by (auto simp: m_def)
      ultimately show ?thesis using e False b by simp
    next
      case True
      have a: "unat (addr + of_nat k) = unat addr + k"
        using n8 k(3) less.prems(3) by (intro unat_addr_step) simp
      have le: "unat addr + k \<le> ?n" using True m by (simp add: min_def split: if_splits)
      then have "unat (addr + of_nat k) \<le> ?n" using a by simp
      moreover have "sz - k < sz" using k by simp
      ultimately obtain f2 c2 w2 where r:
        "uef_transfer ch (of_nat ?n) (addr + of_nat k) (sz - k) f1 c1 w1 = Some (f2, c2, w2)"
        "uef_file cs f2" "content f2 = content f1" "cache_ok cs c2"
        "sends (FCH_CMD ch 0x30) w1 w2 (map (stream_byte cs) [unat addr + k..<min (unat addr + k + (sz - k)) ?n])"
        "sends (FCH_CMD ch 0x08) w1 w2 [if unat addr + k + (sz - k) \<le> ?n then 0x02 else 0x22]"
        using less.IH [OF _ b(2,4), of "sz - k" "addr + of_nat k" w1] less.prems(4) moving_clock_sends [OF s1(1)]
        unfolding a by blast
      have "[unat addr..<unat addr + k] @ [unat addr + k..<min (unat addr + sz) ?n] = [unat addr..<min (unat addr + sz) ?n]"
        using upt_add_eq_append [of "unat addr" "unat addr + k" "min (unat addr + sz) ?n - (unat addr + k)"] le k(2) by simp
      then have "?dat @ map (stream_byte cs) [unat addr + k..<min (unat addr + sz) ?n] =
          map (stream_byte cs) [unat addr..<min (unat addr + sz) ?n]" unfolding True map_append [symmetric] by simp
      then show ?thesis using e True r(1-4) b(3) sends_trans [OF s1(1) r(5)] sends_trans0 [OF s1(2) r(6)] k(2) by simp
    qed
  qed
qed

lemma uef_insert_size:
  assumes f: "uef_file cs f" and tag: "chars (take 10 (content f)) = ''UEF File!'' @ [NUL]"
  shows "\<exists>dsc' f' chunk' w'. uef_insert dsc f zero_chunk w = Some (dsc', f', chunk', w') \<and>
    format02 dsc' = UEF \<and> file_size02 dsc' = of_nat (uef_size cs) \<and>
    uef_file cs f' \<and> content f' = content f \<and> cache_ok cs chunk'"
proof -
  let ?n = "length (uef_stream cs)"
  have n: "?n < 2 ^ 32 - 16" using f by (simp add: uef_file_def)
  have sz: "12 \<le> f_size f" "healthy f" "f_size f < 2 ^ 31" using f by (auto simp: uef_file_def f_size_def)
  have sk: "FF_Seek f 0 FF_SEEK_SET = (0, f\<lparr>fptr := 0\<rparr>)"
    using FF_Seek_healthy [OF sz(2), of 0] sz by simp
  have rd: "fread (f\<lparr>fptr := 0\<rparr>) 12 = (take 12 (content f), f\<lparr>fptr := 12\<rparr>)"
    using fread_healthy [of "f\<lparr>fptr := 0\<rparr>" 12] sz by simp
  have f12: "uef_file cs (f\<lparr>fptr := 12\<rparr>)" using f sz(1) by (rule uef_file_fptr)
  have "cache_ok cs zero_chunk" by (simp add: cache_ok_def zero_chunk_def)
  from GetChunkAtPosFile_finds [OF f12 this, of "0xFFFFFFFF"] n obtain bp chunk' f' where
    g: "GetChunkAtPosFile (f\<lparr>fptr := 12\<rparr>) zero_chunk 0xFFFFFFFF = Some (False, bp, chunk', f')"
      "uef_file cs f'" "content f' = content f" "cache_ok cs chunk'" "unat bp = 0xFFFFFFFF - ?n" by auto
  have "NOT bp = - 1 - bp" by (simp add: not_eq_complement)
  then have "unat (NOT bp) = unat (- 1 :: u32) - unat bp" by (simp add: unat_sub)
  then have "unat (NOT bp) = ?n" using g(5) n by (simp add: unsigned_minus_1_eq_mask mask_eq_exp_minus_1)
  moreover have "NOT bp = of_nat (unat (NOT bp))" by simp
  ultimately have "NOT bp = of_nat ?n" by simp
  then have "(NOT bp + 7) div 8 = of_nat (uef_size cs)"
  proof -
    have "unat (of_nat ?n + 7 :: u32) = ?n + 7" using n unat_u32 [of "?n + 7"] by simp
    then have "unat ((of_nat ?n + 7 :: u32) div 8) = uef_size cs" by (simp add: unat_div uef_size_def)
    moreover have "(of_nat ?n + 7 :: u32) div 8 = of_nat (unat ((of_nat ?n + 7 :: u32) div 8))" by simp
    ultimately show ?thesis using \<open>NOT bp = of_nat ?n\<close> by simp
  qed
  moreover have "length (take 12 (content f)) = 12" using sz(1) by (simp add: f_size_def)
  moreover have "take 10 (take 12 (content f)) = take 10 (content f)" by simp
  ultimately show ?thesis using sk rd g tag by (simp add: uef_insert_def Let_def)
qed



subsection \<open>A chunk that goes backwards\<close>

text \<open>A header whose length field is \<open>- 6\<close>, of a chunk that has no bits.\<close>

definition backwards :: "u16 \<Rightarrow> FIL \<Rightarrow> bool" where
  "backwards i f \<longleftrightarrow> healthy f \<and> f_size f < 2 ^ 31 \<and> 18 \<le> f_size f \<and> good_chunk (i, []) \<and> \<not> uef_is_tape i \<and>
     take 6 (drop 12 (content f)) = [byte_of 0 i, byte_of 1 i, 0xFA, 0xFF, 0xFF, 0xFF]"

lemma backwards_step:
  assumes b: "backwards i f" "fptr f = 12"
  shows "ReadChunkHeader f chunk = (i, chunk\<lparr>chunk_id := i, chunk_length := - 6\<rparr>, f\<lparr>fptr := 18\<rparr>)"
    and "i \<noteq> 0xFFFF" "\<not> FF_isEOF f"
    and "fseek (f\<lparr>fptr := 18\<rparr>) (- 6) FF_SEEK_CUR = f"
    and "chunk_id c = i \<Longrightarrow> file_offset c = 18 \<Longrightarrow> uef_other c (f\<lparr>fptr := 18\<rparr>) = (False, f\<lparr>fptr := 18\<rparr>)"
proof -
  have h: "healthy f" "f_size f < 2 ^ 31" "18 \<le> f_size f" "good_chunk (i, [])" "\<not> uef_is_tape i"
    and t: "take 6 (drop 12 (content f)) = [byte_of 0 i, byte_of 1 i, 0xFA, 0xFF, 0xFF, 0xFF]"
    using b(1) by (simp_all add: backwards_def)
  have "fread f 6 = ([byte_of 0 i, byte_of 1 i, 0xFA, 0xFF, 0xFF, 0xFF], f\<lparr>fptr := 18\<rparr>)"
    using fread_healthy [OF h(1), of 6] h(3) b(2) t by simp
  moreover have "of_le32 0xFA 0xFF 0xFF 0xFF = - 6" by (simp add: of_le32_def)
  ultimately show "ReadChunkHeader f chunk = (i, chunk\<lparr>chunk_id := i, chunk_length := - 6\<rparr>, f\<lparr>fptr := 18\<rparr>)"
    by (simp add: ReadChunkHeader_def fill_def of_le16_bytes [unfolded One_nat_def] le32_at_def)
  show "i \<noteq> 0xFFFF" using h(4) by (simp add: good_chunk_def)
  show "\<not> FF_isEOF f" using h(3) b(2) by (simp add: FF_isEOF_def f_eof_def)
  have e12: "f\<lparr>fptr := 12\<rparr> = f" using fptr_id [of f] unfolding b(2) .
  have "sint (- 6 :: u32) = - 6" by simp
  then show "fseek (f\<lparr>fptr := 18\<rparr>) (- 6) FF_SEEK_CUR = f"
    using fseek_cur [of "f\<lparr>fptr := 18\<rparr>" "- 6" 12] h e12 by simp
  show "chunk_id c = i \<Longrightarrow> file_offset c = 18 \<Longrightarrow> uef_other c (f\<lparr>fptr := 18\<rparr>) = (False, f\<lparr>fptr := 18\<rparr>)"
    using uef_other_chunk [of "f\<lparr>fptr := 18\<rparr>" "[]" c i] h by simp
qed

lemma uef_scan_backwards:
  "uef_scan chk bp st chunk f = Some y \<Longrightarrow> \<not> (backwards i f \<and> fptr f = 12)"
proof (induction chk bp st chunk f y rule: uef_scan.raw_induct [rotated, consumes 1, case_names loop])
  case (loop rec chk bp st chunk f y)
  show ?case
  proof
    assume "backwards i f \<and> fptr f = 12"
    then have b: "backwards i f" "fptr f = 12" by simp_all
    note s = backwards_step [OF b]
    have t: "\<not> uef_is_tape i" using b(1) by (simp add: backwards_def)
    define c1 where "c1 = chunk\<lparr>chunk_id := i, chunk_length := - 6\<rparr>\<lparr>file_offset := ucast (FF_Tell (f\<lparr>fptr := 18\<rparr>))\<rparr>"
    have "ucast (FF_Tell (f\<lparr>fptr := 18\<rparr>)) = (18 :: u32)" by (simp add: FF_Tell_def f_tell_def)
    then have c1: "uef_other c1 (f\<lparr>fptr := 18\<rparr>) = (False, f\<lparr>fptr := 18\<rparr>)" "chunk_length c1 = - 6"
      using s(5) [of c1] by (simp_all add: c1_def)
    have "rec chk bp st c1 f = Some y"
      using loop(2) s(2-4) t c1 unfolding s(1) Let_def prod.case c1_def [symmetric] by (auto split: if_splits)
    from loop(1) [OF this] b show False by simp
  qed
qed



subsection \<open>The tape driver as a driver of the channel\<close>

lemma Drv02_loop_kept:
  "Drv02_Process_loop n ch h stat chunk w = Some (h', chunk', w') \<Longrightarrow> handles_ok h \<Longrightarrow> ch < 2 \<Longrightarrow> slots_kept ch h h'"
proof (induction n arbitrary: h stat chunk w)
  case (Suc n)
  let ?d = "unat (drop_bit 4 stat AND 0x03)"
  show ?case
  proof (cases "FCh_GetInserted h ch ?d = 0")
    case False
    obtain sz addr w0 where q: "drv00_get_request ch w = (sz, addr, w0)" by (cases "drv00_get_request ch w")
    from False Suc.prems(1) obtain dsc f where d: "pDesc (drive h ch ?d) = Some (Desc02 dsc)" "fSource (drive h ch ?d) = Some f"
      by (auto simp: Let_def q split: option.splits desc.splits)
    with False Suc.prems(1) obtain f1 c1 w1 where
      r: "drv02_request ch (bit stat 2) (status (drive h ch ?d)) dsc addr sz f chunk (FCh_WriteStat ch DRV02_STAT_REQ_ACK w0)
        = Some (f1, c1, w1)"
      by (auto simp: Let_def q split: bind_splits)
    let ?h = "set_drive h ch ?d ((drive h ch ?d)\<lparr>fSource := Some f1\<rparr>)"
    have k: "slots_kept ch h ?h"
      using slots_kept_set [OF Suc.prems(2,3) drive_of_status False slot_kept_file] d by simp
    have "h' = ?h \<or> Drv02_Process_loop n ch ?h (fst (FCh_GetStat ch w1)) c1 (snd (FCh_GetStat ch w1)) = Some (h', chunk', w')"
      using False Suc.prems(1) d r by (auto simp: Let_def q case_prod_beta split: if_splits)
    then show ?thesis
      by (elim disjE)
        (use k in simp, rule slots_kept_trans [OF k], rule Suc.IH [OF _ handles_ok_set_drive [OF Suc.prems(2)] Suc.prems(3)])
  qed (use Suc.prems in \<open>simp add: Let_def\<close>)
qed simp

interpretation drv02: channel_driver
  Drv02_Process "\<lambda>al stk ch n d ext chunk w. Drv02_InsertInit al ch n d ext chunk w" "0x2"
  by unfold_locales
    (auto simp: Drv02_Process_def Drv02_InsertInit_def Let_def case_prod_beta split: if_splits option.splits bind_splits
      dest: Drv02_loop_kept)

end
