(* ===== verification/Card.thy ===== *)
theory Card
  imports World "HOL-Library.Monad_Syntax"
begin

text \<open>
  The memory card (\<open>card.c\<close>): detection, initialisation, capacity, and reading and writing sectors
  with the SPI protocol of SD and MMC cards.  The card is the slave on the bus, so its answers are
  the replies of the world.

  The static variables \<open>crc\<close>, \<open>response\<close> and \<open>timeout\<close> are written before every use, so they are
  local here; the statics that keep a value between calls are the record \<open>card\<close>.  The block
  transfers are those of the portable branch of the source; the DMA of the AT91 branch moves the
  same bytes.
\<close>

abbreviation (input) CMD0 :: u8 where "CMD0 \<equiv> 0x40"
abbreviation (input) CMD1 :: u8 where "CMD1 \<equiv> 0x41"
abbreviation (input) CMD6 :: u8 where "CMD6 \<equiv> 0x46"
abbreviation (input) CMD8 :: u8 where "CMD8 \<equiv> 0x48"
abbreviation (input) CMD9 :: u8 where "CMD9 \<equiv> 0x49"
abbreviation (input) CMD10 :: u8 where "CMD10 \<equiv> 0x4A"
abbreviation (input) CMD12 :: u8 where "CMD12 \<equiv> 0x4C"
abbreviation (input) CMD13 :: u8 where "CMD13 \<equiv> 0x4D"
abbreviation (input) CMD16 :: u8 where "CMD16 \<equiv> 0x50"
abbreviation (input) CMD17 :: u8 where "CMD17 \<equiv> 0x51"
abbreviation (input) CMD18 :: u8 where "CMD18 \<equiv> 0x52"
abbreviation (input) CMD23 :: u8 where "CMD23 \<equiv> 0x57"
abbreviation (input) CMD24 :: u8 where "CMD24 \<equiv> 0x58"
abbreviation (input) CMD25 :: u8 where "CMD25 \<equiv> 0x59"
abbreviation (input) CMD41 :: u8 where "CMD41 \<equiv> 0x69"
abbreviation (input) CMD42 :: u8 where "CMD42 \<equiv> 0x6A"
abbreviation (input) CMD55 :: u8 where "CMD55 \<equiv> 0x77"
abbreviation (input) CMD58 :: u8 where "CMD58 \<equiv> 0x7A"

abbreviation (input) CARDTYPE_NONE :: u8 where "CARDTYPE_NONE \<equiv> 0"
abbreviation (input) CARDTYPE_MMC :: u8 where "CARDTYPE_MMC \<equiv> 1"
abbreviation (input) CARDTYPE_SD :: u8 where "CARDTYPE_SD \<equiv> 2"
abbreviation (input) CARDTYPE_SDHC :: u8 where "CARDTYPE_SDHC \<equiv> 3"

abbreviation (input) FF_ERR_NONE :: u32 where "FF_ERR_NONE \<equiv> 0"
abbreviation (input) FF_ERR_DEVICE_DRIVER_FAILED :: u32 where "FF_ERR_DEVICE_DRIVER_FAILED \<equiv> 0x80000004"

record card =
  cardType :: u8
  cardDetected :: bool
  writeStateActive :: bool
  detect_delay :: u32

subsection \<open>Commands\<close>

text \<open>One bit of the checksum, and one byte.\<close>

definition crc_bit :: "bool \<Rightarrow> u8 \<Rightarrow> u8" where
  "crc_bit c7 crc =
     (let crc = push_bit 1 crc;
          crc = (if c7 then crc XOR 0x09 else crc)
      in if crc AND 0x80 \<noteq> 0 then crc XOR 0x09 else crc)"

fun crc_bits :: "nat \<Rightarrow> u8 \<Rightarrow> u8 \<Rightarrow> u8" where
  "crc_bits 0 c crc = crc"
| "crc_bits (Suc n) c crc = crc_bits n (push_bit 1 c) (crc_bit (c AND 0x80 \<noteq> 0) crc)"

definition MMC_CRC :: "u8 \<Rightarrow> u8 \<Rightarrow> u8" where
  "MMC_CRC c crc = crc_bits 8 c crc"

text \<open>Clocking bytes in while a condition holds, at most so many more times.\<close>

fun mmc_poll :: "(u8 \<Rightarrow> bool) \<Rightarrow> nat \<Rightarrow> world \<Rightarrow> u8 \<times> world" where
  "mmc_poll again 0 w = rSPI 0xFF w"
| "mmc_poll again (Suc attempts) w =
     (let (response, w) = rSPI 0xFF w in if again response then mmc_poll again attempts w else (response, w))"

text \<open>The six bytes of a command, with the checksum over the first five.\<close>

definition mmc_frame :: "u8 \<Rightarrow> u32 \<Rightarrow> u8 list" where
  "mmc_frame cmd arg =
     (let crc = MMC_CRC cmd 0;
          crc = MMC_CRC (byte_of 3 arg) crc;
          crc = MMC_CRC (byte_of 2 arg) crc;
          crc = MMC_CRC (byte_of 1 arg) crc;
          crc = MMC_CRC (byte_of 0 arg) crc
      in [cmd, byte_of 3 arg, byte_of 2 arg, byte_of 1 arg, byte_of 0 arg, push_bit 1 crc + 1])"

definition MMC_Command :: "u8 \<Rightarrow> u32 \<Rightarrow> world \<Rightarrow> u8 \<times> world" where
  "MMC_Command cmd arg w =
     (let (_, w) = mmc_poll (\<lambda>response. response \<noteq> 0xFF) 100 w;
          w = tx (mmc_frame cmd arg) w
      in mmc_poll (\<lambda>response. response = 0xFF) 100 w)"

text \<open>Clocking bytes in until one satisfies a condition, or the time is over.\<close>

partial_function (option) card_wait_loop :: "(u8 \<Rightarrow> bool) \<Rightarrow> u32 \<Rightarrow> world \<Rightarrow> (bool \<times> world) option" where
  "card_wait_loop good timeout w =
     (let (b, w) = rSPI 0xFF w
      in if good b then Some (True, w)
         else let (expired, w) = Timer_Check timeout w
              in if expired then Some (False, w) else card_wait_loop good timeout w)"

definition card_wait :: "u32 \<Rightarrow> (u8 \<Rightarrow> bool) \<Rightarrow> world \<Rightarrow> (bool \<times> world) option" where
  "card_wait limit good w = (let (timeout, w) = Timer_Get limit w in card_wait_loop good timeout w)"

definition MMC_Command12 :: "world \<Rightarrow> (u8 \<times> world) option" where
  "MMC_Command12 w =
     (let (response, w) = MMC_Command CMD12 0 w;
          (response, w) = (if response \<noteq> 0 then MMC_Command CMD12 0 w else (response, w))
      in do { (ok, w) \<leftarrow> card_wait 500 (\<lambda>b. b = 0xFF) w;
              if ok then Some (response, w)
              else Some (0, say (WARNING ''SPI:Card_CMD12 (STOP) timeout!'' []) w) })"

definition Card_WaitXfer :: "world \<Rightarrow> (bool \<times> world) option" where
  "Card_WaitXfer w = card_wait 500 (\<lambda>b. b \<noteq> 0x00) w"

definition Card_GetStatus :: "world \<Rightarrow> bool \<times> world" where
  "Card_GetStatus w =
     (let (response, w) = MMC_Command CMD13 0 w
      in if response \<noteq> 0
         then (False, say (WARNING ''SPI:Card_CMD13 - invalid response 0x%02X'' [MsgInt (unat response)]) w)
         else let (byte2, w) = rSPI 0xFF w
              in if byte2 \<noteq> 0x00
                 then (False, say (WARNING ''SPI:Card_CMD13 - Error %02x.%02x''
                                     [MsgInt (unat response), MsgInt (unat byte2)]) w)
                 else (True, w))"

subsection \<open>Reading sectors\<close>

text \<open>
  A failure deselects the card.  The result is the error code, the bytes read so far, and the world.
\<close>

definition card_fail :: "string \<Rightarrow> msg_arg list \<Rightarrow> 'a \<Rightarrow> world \<Rightarrow> (u32 \<times> 'a \<times> world) option" where
  "card_fail txt args x w = Some (FF_ERR_DEVICE_DRIVER_FAILED, x, SPI_DisableCard (say (WARNING txt args) w))"

text \<open>
  One sector after its data token.  With a null buffer the FPGA is selected as well and takes the
  data from the bus.
\<close>

definition read_block :: "bool \<Rightarrow> world \<Rightarrow> u8 list \<times> world" where
  "read_block direct w =
     (let (dat, w) = (if direct
                      then ([], SPI_DisableFileIO (tx (replicate 512 0xFF) (SPI_EnableFileIO w)))
                      else SPI_ReadBufferSingle (replicate 512 0xFF) w)
      in (dat, tx [0xFF, 0xFF] w))"

fun read_blocks :: "bool \<Rightarrow> u32 \<Rightarrow> nat \<Rightarrow> u8 list \<Rightarrow> world \<Rightarrow> (u32 \<times> u8 list \<times> world) option" where
  "read_blocks direct sector 0 buf w = Some (FF_ERR_NONE, buf, w)"
| "read_blocks direct sector (Suc sectorCount) buf w =
     do { (ok, w) \<leftarrow> card_wait 250 (\<lambda>b. b = 0xFE) w;
          if \<not> ok then card_fail ''SPI:Card_ReadM - no data token! (lba=%lu)'' [MsgInt (unat sector)] buf w
          else let (dat, w) = read_block direct w
               in read_blocks direct sector sectorCount (buf @ dat) w }"

text \<open>SDHC cards are addressed in sectors, the others in bytes.\<close>

definition card_address :: "card \<Rightarrow> u32 \<Rightarrow> u32" where
  "card_address c sector = (if cardType c \<noteq> CARDTYPE_SDHC then push_bit 9 sector else sector)"

definition card_read :: "card \<Rightarrow> bool \<Rightarrow> u32 \<Rightarrow> u32 \<Rightarrow> world \<Rightarrow> (u32 \<times> u8 list \<times> world) option" where
  "card_read c direct sector numSectors w =
     (let w = SPI_EnableCard w
      in do { (ready, w) \<leftarrow> Card_WaitXfer w;
              if \<not> ready
              then card_fail ''SPI:Card_ReadM - WaitXfer timeout! (lba=%lu, %ld sectors)''
                     [MsgInt (unat sector), MsgInt (unat numSectors)] [] w
              else
                let sector = card_address c sector;
                    (response, w) = MMC_Command (if numSectors = 1 then CMD17 else CMD18) sector w
                in if response \<noteq> 0
                   then card_fail (if numSectors = 1
                                   then ''SPI:Card_ReadM CMD17 - invalid response 0x%02X (lba=%lu)''
                                   else ''SPI:Card_ReadM CMD18 - invalid response 0x%02X (lba=%lu)'')
                          [MsgInt (unat response), MsgInt (unat sector)] [] w
                   else do {
                     (err, buf, w) \<leftarrow> read_blocks direct sector (unat numSectors) [] w;
                     if err \<noteq> FF_ERR_NONE then Some (err, buf, w)
                     else do {
                       w \<leftarrow> (if numSectors \<noteq> 1 then map_option snd (MMC_Command12 w) else Some w);
                       let (ok, w) = Card_GetStatus w
                       in if \<not> ok
                          then card_fail ''SPI:Card_ReadM - SEND_STATUS error! (lba=%lu, %ld sectors)''
                                 [MsgInt (unat sector), MsgInt (unat numSectors)] buf w
                          else Some (FF_ERR_NONE, buf, SPI_DisableCard w) } } })"

text \<open>
  After a write the first read is preceded by a dummy read of sector 0, and before the first write
  after a read there is one, too.
\<close>

definition Card_TriggerFillRead :: "card \<Rightarrow> world \<Rightarrow> world option" where
  "Card_TriggerFillRead c w = map_option (\<lambda>(_, _, w). w) (card_read c False 0 1 w)"

definition Card_ReadM :: "bool \<Rightarrow> u32 \<Rightarrow> u32 \<Rightarrow> card \<Rightarrow> world \<Rightarrow> (u32 \<times> u8 list \<times> card \<times> world) option" where
  "Card_ReadM direct sector numSectors c w =
     do { (c, w) \<leftarrow> (if writeStateActive c
                      then map_option (Pair (c\<lparr>writeStateActive := False\<rparr>))
                             (Card_TriggerFillRead (c\<lparr>writeStateActive := False\<rparr>) w)
                      else Some (c, w));
          (err, buf, w) \<leftarrow> card_read c direct sector numSectors w;
          Some (err, buf, c, w) }"

subsection \<open>Writing sectors\<close>

text \<open>The command sequence: the first failure ends it.\<close>

definition write_start :: "card \<Rightarrow> u32 \<Rightarrow> u32 \<Rightarrow> world \<Rightarrow> (string \<times> msg_arg list) option \<times> world" where
  "write_start c sector numSectors w =
     (if numSectors = 1
      then let (response, w) = MMC_Command CMD24 sector w
           in if response \<noteq> 0
              then (Some (''SPI:Card_WriteM CMD24 - invalid response 0x%02X (lba=%lu)'',
                          [MsgInt (unat response), MsgInt (unat sector)]), w)
              else (None, w)
      else let (response, w) = (if cardType c \<noteq> CARDTYPE_MMC then MMC_Command CMD55 0 w else (0, w))
           in if response \<noteq> 0
              then (Some (''SPI:Card_WriteM CMD55 - invalid response 0x%02X'', [MsgInt (unat response)]), w)
              else let (response, w) = MMC_Command CMD23 numSectors w
                   in if response \<noteq> 0
                      then (Some (''SPI:Card_WriteM CMD23 - invalid response 0x%02X (numSectors=%lu)'',
                                  [MsgInt (unat response), MsgInt (unat numSectors)]), w)
                      else let (response, w) = MMC_Command CMD25 sector w
                           in if response \<noteq> 0
                              then (Some (''SPI:Card_WriteM CMD25 - invalid response 0x%02X (lba=%lu)'',
                                          [MsgInt (unat response), MsgInt (unat sector)]), w)
                              else (None, w))"

fun write_blocks :: "u8 list \<Rightarrow> u32 \<Rightarrow> u32 \<Rightarrow> nat \<Rightarrow> world \<Rightarrow> (u32 \<times> unit \<times> world) option" where
  "write_blocks pBuffer sector numSectors 0 w = Some (FF_ERR_NONE, (), w)"
| "write_blocks pBuffer sector numSectors (Suc sectorCount) w =
     (let w = tx [0xFF, if numSectors = 1 then 0xFE else 0xFC] w;
          w = tx (take 512 pBuffer) w;
          w = tx [0xFF, 0xFF] w;
          (response, w) = rSPI 0xFF w;
          response = response AND 0x1F
      in if response \<noteq> 0x05
         then card_fail ''SPI:Card_WriteM - invalid status 0x%02X (lba=%lu)''
                [MsgInt (unat response), MsgInt (unat sector)] () w
         else do { (ready, w) \<leftarrow> Card_WaitXfer w;
                   if \<not> ready
                   then card_fail ''SPI:Card_WriteM - Loop timeout! (lba=%lu, %ld sectors)''
                          [MsgInt (unat sector), MsgInt (unat numSectors)] () w
                   else write_blocks (drop 512 pBuffer) sector numSectors sectorCount w })"

definition card_write :: "card \<Rightarrow> u8 list \<Rightarrow> u32 \<Rightarrow> u32 \<Rightarrow> world \<Rightarrow> (u32 \<times> unit \<times> world) option" where
  "card_write c pBuffer sector numSectors w =
     (let w = SPI_EnableCard w
      in do { (ready, w) \<leftarrow> Card_WaitXfer w;
              if \<not> ready
              then card_fail ''SPI:Card_WriteM - WaitXfer timeout! (lba=%lu, %ld sectors)''
                     [MsgInt (unat sector), MsgInt (unat numSectors)] () w
              else
                let sector = card_address c sector;
                    (refused, w) = write_start c sector numSectors w
                in case refused of
                     Some (txt, args) \<Rightarrow> card_fail txt args () w
                   | None \<Rightarrow> do {
                     (err, _, w) \<leftarrow> write_blocks pBuffer sector numSectors (unat numSectors) w;
                     if err \<noteq> FF_ERR_NONE then Some (err, (), w)
                     else let w = tx [if numSectors = 1 then 0xFF else 0xFD, 0xFF] w
                          in do {
                            (ready, w) \<leftarrow> Card_WaitXfer w;
                            if \<not> ready
                            then card_fail ''SPI:Card_WriteM - Done timeout! (lba=%lu, %ld sectors)''
                                   [MsgInt (unat sector), MsgInt (unat numSectors)] () w
                            else
                              let (ok, w) = Card_GetStatus w
                              in if \<not> ok
                                 then card_fail ''SPI:Card_WriteM - SEND_STATUS error! (lba=%lu, %ld sectors)''
                                        [MsgInt (unat sector), MsgInt (unat numSectors)] () w
                                 else Some (FF_ERR_NONE, (), SPI_DisableCard w) } } })"

definition Card_WriteM :: "u8 list \<Rightarrow> u32 \<Rightarrow> u32 \<Rightarrow> card \<Rightarrow> world \<Rightarrow> (u32 \<times> card \<times> world) option" where
  "Card_WriteM pBuffer sector numSectors c w =
     do { (c, w) \<leftarrow> (if \<not> writeStateActive c
                      then map_option (Pair (c\<lparr>writeStateActive := True\<rparr>)) (Card_TriggerFillRead c w)
                      else Some (c, w));
          (err, _, w) \<leftarrow> card_write c pBuffer sector numSectors w;
          Some (err, c, w) }"

subsection \<open>The card's registers\<close>

text \<open>
  A field of a register that was read as a byte string, the most significant byte first.  A
  position outside the buffer is \<open>None\<close>.
\<close>

function bitstream_loop :: "u8 list \<Rightarrow> u32 \<Rightarrow> u32 \<Rightarrow> int \<Rightarrow> u32 \<Rightarrow> u32 option" where
  "bitstream_loop buffer byte_offset bit_end bits_left val =
     (if bits_left \<le> 0 then Some val
      else if unat byte_offset \<ge> length buffer then None
      else bitstream_loop buffer (byte_offset - 1) (bit_end + 8) (bits_left - 8)
             (val OR push_bit (unat bit_end) (ucast (buffer ! unat byte_offset))))"
  by pat_completeness auto
termination
  by (relation "measure (\<lambda>(_, _, _, bits_left, _). nat bits_left)") auto

declare bitstream_loop.simps [simp del]

definition extractValueFromBitstream :: "u8 list \<Rightarrow> u32 \<Rightarrow> u32 \<Rightarrow> u32 \<Rightarrow> u32 option" where
  "extractValueFromBitstream buffer buffer_length bit_start bit_end =
     (let bit_length = bit_start - bit_end + 1;
          byte_offset = drop_bit 3 (buffer_length - bit_end - 1);
          bit_end = bit_end AND 0x7
      in if unat byte_offset \<ge> length buffer then None
         else let val = ucast (drop_bit (unat bit_end) (buffer ! unat byte_offset));
                  bit_end = 8 - bit_end
              in do { val \<leftarrow> bitstream_loop buffer (byte_offset - 1) bit_end (sint (bit_length - bit_end)) val;
                      Some (val AND (push_bit (unat bit_length) 1 - 1)) })"

text \<open>A string field: its characters from the first to the last.\<close>

definition extractStringFromBitstream :: "u8 list \<Rightarrow> u32 \<Rightarrow> u32 \<Rightarrow> u32 \<Rightarrow> u8 list option" where
  "extractStringFromBitstream buffer buffer_length bit_start bit_end =
     (let str_bits = bit_start - bit_end + 1
      in those (map (\<lambda>k. let start = bit_start - of_nat (8 * k); end = start - 7
                         in map_option ucast (extractValueFromBitstream buffer buffer_length start end))
                  [0..<(unat str_bits + 7) div 8]))"

text \<open>Reading the identification register, whose fields are only printed at higher debug levels.\<close>

definition ReadCID :: "world \<Rightarrow> world option" where
  "ReadCID w =
     (let w = SPI_EnableCard w;
          (response, w) = MMC_Command CMD10 0 w
      in if response \<noteq> 0
         then Some (SPI_DisableCard (say (WARNING ''SPI:Card_Init CMD10 (SEND_CID) failed!'' []) w))
         else do { (ok, w) \<leftarrow> card_wait 250 (\<lambda>b. b = 0xFE) w;
                   if \<not> ok then Some (SPI_DisableCard (say (WARNING ''SPI:Card_CMD10 - no data token!'' []) w))
                   else let (cid, w) = SPI_ReadBufferSingle (replicate 16 0xFF) w in Some (SPI_DisableCard w) })"

text \<open>The capacity that a card-specific-data register gives.\<close>

definition csd_capacity :: "u8 list \<Rightarrow> u64 option" where
  "csd_capacity csd =
     (let csdVersion = drop_bit 6 (csd ! 0);
          READ_BL_LEN = csd ! 5 AND 0x0F;
          sectorSize = push_bit (unat READ_BL_LEN) 1 :: u64
      in if csdVersion = 0
         then let C_SIZE = push_bit 10 (ucast (csd ! 6 AND 0x03)) OR push_bit 2 (ucast (csd ! 7))
                             OR ucast (drop_bit 6 (csd ! 8)) :: u32;
                  C_SIZE_MULT = push_bit 1 (ucast (csd ! 9 AND 0x03)) OR ucast (drop_bit 7 (csd ! 10)) :: u32;
                  sectorCount = ucast ((C_SIZE + 1) * push_bit (unat (C_SIZE_MULT + 2)) 1)
              in Some (sectorSize * sectorCount)
         else if csdVersion = 1
         then let C_SIZE = push_bit 16 (ucast (csd ! 7 AND 0x3F)) OR push_bit 8 (ucast (csd ! 8))
                             OR ucast (csd ! 9) :: u32;
                  sectorCount = ucast ((C_SIZE + 1) * 1024)
              in Some (sectorSize * sectorCount)
         else None)"

definition Card_GetCapacity :: "world \<Rightarrow> (u64 \<times> world) option" where
  "Card_GetCapacity w =
     (let w = SPI_EnableCard w;
          (timeout, w) = Timer_Get 100 w;
          (_, w) = MMC_Command CMD9 0x000000 w
      in do { (ok, w) \<leftarrow> card_wait_loop (\<lambda>b. b = 0xFE) timeout w;
              if \<not> ok then Some (0, SPI_DisableCard (say (WARNING ''SPI:Card_CMD9 (SEND_CSD) timeout!'' []) w))
              else let (csd, w) = SPI_ReadBufferSingle (replicate 16 0xFF) w;
                       w = SPI_DisableCard (tx [0xFF, 0xFF] w)
                   in case csd_capacity csd of
                        Some capacity \<Rightarrow> Some (capacity, w)
                      | None \<Rightarrow> Some (0, say (WARNING ''CARD:Unknown CSD version!'' []) w) })"

subsection \<open>Initialisation\<close>

definition Card_TrySetHighSpeed :: "world \<Rightarrow> (bool \<times> world) option" where
  "Card_TrySetHighSpeed w =
     (let w = SPI_EnableCard w;
          (response, w) = MMC_Command CMD6 0x80FFFFF1 w
      in if response \<noteq> 0x00 then Some (False, SPI_DisableCard w)
         else do { (ok, w) \<leftarrow> card_wait 250 (\<lambda>b. b = 0xFE) w;
                   if \<not> ok then Some (False, SPI_DisableCard (say (WARNING ''SPI:CMD6 - no data token!'' []) w))
                   else let (buffer, w) = SPI_ReadBufferSingle (replicate 64 0xFF) w;
                            w = tx [0xFF, 0xFF] w;
                            resultFunc1 = buffer ! 16 AND 0x0F;
                            w = (if resultFunc1 = 0x01 then snd (rSPI 0xFF w) else w)
                        in Some (resultFunc1 = 0x01, SPI_DisableCard w) })"

text \<open>
  The rounds of the three loops of the initialisation, and the loops, each until the card answers as
  wanted (the type of the card) or the time is over.
\<close>

definition sdhc_body :: "world \<Rightarrow> u8 option \<times> world" where
  "sdhc_body w =
     (let (r55, w) = MMC_Command CMD55 0 w
      in if r55 \<noteq> 0x01 then (None, w)
         else let (r41, w) = MMC_Command CMD41 (push_bit 30 1) w
              in if r41 \<noteq> 0x00 then (None, w)
                 else let (r55, w) = MMC_Command CMD55 0 w;
                          w = (if r55 = 0x00 then snd (MMC_Command CMD42 0 w) else w);
                          (r58, w) = MMC_Command CMD58 0 w
                      in if r58 = 0x00
                         then let (ocr, w) = SPI_ReadBufferSingle (replicate 4 0xFF) w
                              in (Some (if ocr ! 0 AND 0x40 \<noteq> 0 then CARDTYPE_SDHC else CARDTYPE_SD), w)
                         else (None, say (WARNING ''SPI:Card_Init CMD58 (READ_OCR) failed!'' []) w))"

definition set_blocklen :: "world \<Rightarrow> world" where
  "set_blocklen w =
     (let (r16, w) = MMC_Command CMD16 512 w
      in if r16 \<noteq> 0x00 then say (WARNING ''SPI:Card_Init CMD16 (SET_BLOCKLEN) failed!'' []) w else w)"

definition sd_body :: "world \<Rightarrow> u8 option \<times> world" where
  "sd_body w =
     (let (r55, w) = MMC_Command CMD55 0 w
      in if r55 \<noteq> 0x01 then (None, say (WARNING ''SPI:Card_Init CMD55 (APP_CMD) failed!'' []) w)
         else let (r41, w) = MMC_Command CMD41 0 w
              in if r41 \<noteq> 0x00 then (None, w) else (Some CARDTYPE_SD, set_blocklen w))"

definition mmc_body :: "world \<Rightarrow> u8 option \<times> world" where
  "mmc_body w =
     (let (r1, w) = MMC_Command CMD1 0 w in if r1 \<noteq> 0x00 then (None, w) else (Some CARDTYPE_MMC, set_blocklen w))"

partial_function (option) init_loop :: "(world \<Rightarrow> u8 option \<times> world) \<Rightarrow> u32 \<Rightarrow> world \<Rightarrow> (u8 \<times> world) option" where
  "init_loop body timeout w =
     (let (expired, w) = Timer_Check timeout w
      in if expired then Some (CARDTYPE_NONE, w)
         else let (t, w) = body w
              in if t = None then init_loop body timeout w else Some (the t, w))"

definition try_sdhc :: "u32 \<Rightarrow> world \<Rightarrow> (u8 \<times> world) option" where
  "try_sdhc timeout w =
     (let (r8, w) = MMC_Command CMD8 0x1AA w
      in if r8 \<noteq> 0x01 then Some (CARDTYPE_NONE, w)
         else let (ocr, w) = SPI_ReadBufferSingle (replicate 4 0xFF) w
              in if ocr ! 2 = 0x01 \<and> ocr ! 3 = 0xAA
                 then do { (t, w) \<leftarrow> init_loop sdhc_body timeout w;
                           Some (t, if t = CARDTYPE_NONE
                                    then say (WARNING ''SPI:Card_Init SDHC card initialization timed out!'' []) w else w) }
                 else Some (CARDTYPE_NONE, w))"

text \<open>The warning about the SD card is given whether the time was over or not.\<close>

definition try_sd_mmc :: "u32 \<Rightarrow> world \<Rightarrow> (u8 \<times> world) option" where
  "try_sd_mmc timeout w =
     (let (r55, w) = MMC_Command CMD55 0 w
      in if r55 = 0x01
         then let (r41, w) = MMC_Command CMD41 0 w
              in if r41 \<le> 0x01
                 then do { (t, w) \<leftarrow> init_loop sd_body timeout w;
                           Some (t, say (WARNING ''SPI:Card_Init SD card initialization timed out!'' []) w) }
                 else Some (CARDTYPE_NONE, w)
         else do { (t, w) \<leftarrow> init_loop mmc_body timeout w;
                   Some (t, if t = CARDTYPE_NONE
                            then say (WARNING ''SPI:Card_Init MMC card initialization timed out!'' []) w else w) })"

text \<open>From the reset command on; and what is done with the result.\<close>

definition card_trials :: "world \<Rightarrow> (u8 \<times> world) option" where
  "card_trials w =
     (let (r0, w) = MMC_Command CMD0 0 w
      in if r0 = 0x01
         then let (timeout, w) = Timer_Get 1000 w
              in do { (t, w) \<leftarrow> try_sdhc timeout w;
                      if t = CARDTYPE_NONE then try_sd_mmc timeout w else Some (t, w) }
         else Some (CARDTYPE_NONE, w))"

definition card_ready :: "u8 \<Rightarrow> world \<Rightarrow> world option" where
  "card_ready t w =
     (if t = CARDTYPE_NONE then Some (say (WARNING ''SPI:Card_Init No memory card detected!'' []) w)
      else if t = CARDTYPE_MMC then Some w
      else if t = CARDTYPE_SD \<or> t = CARDTYPE_SDHC then map_option snd (Card_TrySetHighSpeed w)
      else Some w)"

definition Card_TryInit :: "card \<Rightarrow> world \<Rightarrow> (u8 \<times> card \<times> world) option" where
  "Card_TryInit c w =
     do { w \<leftarrow> Timer_Wait 20 (tx (replicate 10 0xFF) (SPI_DisableCard w));
          (t, w) \<leftarrow> card_trials (SPI_EnableCard w);
          w \<leftarrow> card_ready t (SPI_DisableCard w);
          Some (t, c\<lparr>cardType := t\<rparr>, w) }"

fun card_attempts :: "nat \<Rightarrow> card \<Rightarrow> world \<Rightarrow> (u8 \<times> card \<times> world) option" where
  "card_attempts 0 c w = Some (CARDTYPE_NONE, c, w)"
| "card_attempts (Suc left) c w =
     do { (t, c, w) \<leftarrow> Card_TryInit c w;
          if t \<noteq> CARDTYPE_NONE then do { w \<leftarrow> ReadCID w; Some (t, c, w) }
          else do { w \<leftarrow> Timer_Wait 100 (say (WARNING ''SPI:Card_Init:Attempt %d failed!'' [MsgInt (2 - left)]) w);
                    card_attempts left (c\<lparr>cardDetected := False\<rparr>) w } }"

definition Card_Init :: "card \<Rightarrow> world \<Rightarrow> (u8 \<times> card \<times> world) option" where
  "Card_Init c w = card_attempts 3 c w"

text \<open>
  Detection: \<open>pin\<close> is the card-detect input, \<open>supported\<close> whether the board has it.  Without it the card
  is reset five times.
\<close>

fun reset_attempts :: "nat \<Rightarrow> nat \<Rightarrow> world \<Rightarrow> (nat \<times> world) option" where
  "reset_attempts 0 successful w = Some (successful, w)"
| "reset_attempts (Suc n) successful w =
     do { w \<leftarrow> Timer_Wait 20 (tx (replicate 10 0xFF) (SPI_DisableCard w));
          let (r0, w) = MMC_Command CMD0 0 (SPI_EnableCard w)
          in reset_attempts n (successful + (if r0 = 0x01 then 1 else 0)) (SPI_DisableCard w) }"

definition Card_Detect :: "bool \<Rightarrow> bool \<Rightarrow> card \<Rightarrow> world \<Rightarrow> (bool \<times> card \<times> world) option" where
  "Card_Detect supported pin c w =
     (if pin then Some (True, c\<lparr>cardDetected := True\<rparr>, w)
      else if supported then Some (False, c\<lparr>cardDetected := False\<rparr>, w)
      else if cardDetected c then Some (True, c, w)
      else let (expired, w) = Timer_Check (detect_delay c) w
           in if \<not> expired then Some (cardDetected c, c, w)
              else do { (successful, w) \<leftarrow> reset_attempts 5 0 w;
                        let (delay, w) = Timer_Get 500 w; detected = (successful = 5)
                        in Some (detected, c\<lparr>cardDetected := detected, detect_delay := delay\<rparr>, w) })"

subsection \<open>Every operation ends\<close>

text \<open>
  A loop that reads a ticking clock in every round meets its deadline: to show \<open>P\<close> before a check of
  the deadline, show it when the deadline is over, and otherwise from \<open>P\<close> before the next check.
\<close>

lemma deadline_induct:
  fixes P :: "world \<Rightarrow> bool"
  assumes "ticking el" and "elapsed w = el" "trace w = h @ Clock # es" "Clock \<notin> set es"
    and "el (h @ [Clock]) \<le> d + late" "d \<le> el (h @ [Clock]) + 2 ^ 30" and late: "late \<le> 2 ^ 30"
    and over: "\<And>w. elapsed w = el \<Longrightarrow> fst (Timer_Check (of_nat d) w) \<Longrightarrow>
      d < el (trace w @ [Clock]) \<Longrightarrow> el (trace w @ [Clock]) \<le> d + late + 2 ^ 30 \<Longrightarrow> P w"
    and again: "\<And>w. elapsed w = el \<Longrightarrow> \<not> fst (Timer_Check (of_nat d) w) \<Longrightarrow>
      (\<And>w' es. elapsed w' = el \<Longrightarrow> trace w' = trace w @ Clock # es \<Longrightarrow> Clock \<notin> set es \<Longrightarrow> P w') \<Longrightarrow> P w"
  shows "P w"
  using assms(2-6)
proof (induction "d - el (h @ [Clock])" arbitrary: w h es rule: less_induct)
  case less
  define t where "t = el (h @ Clock # es @ [Clock])"
  have t: "el (h @ [Clock]) < t" "t < el (h @ [Clock]) + 2 ^ 30"
    using tickingD [OF assms(1) less.prems(3), of h] ticking_step [OF assms(1) less.prems(3), of h]
    by (simp_all add: t_def)
  have c: "fst (Timer_Check (of_nat d) w) \<longleftrightarrow> d < t"
    using t less.prems late by (intro Timer_Check_deadline) (auto simp: t_def)
  show ?case
  proof (cases "d < t")
    case True
    then show ?thesis using over [OF less.prems(1)] c t less.prems by (simp add: t_def)
  next
    case False
    show ?thesis
    proof (rule again [OF less.prems(1)])
      show "\<not> fst (Timer_Check (of_nat d) w)" using False c by simp
      fix w' :: world and es'
      assume "elapsed w' = el" "trace w' = trace w @ Clock # es'" "Clock \<notin> set es'"
      then show "P w'"
        using False t less.prems by (intro less.hyps [of "h @ Clock # es" w' es']) (auto simp: t_def)
    qed
  qed
qed

text \<open>The world later on: the same slave and clock, a longer history.\<close>

definition later :: "world \<Rightarrow> world \<Rightarrow> bool" where
  "later w w' \<longleftrightarrow> (\<exists>es. extends w w' es)"

lemma later_refl [simp]: "later w w"
  by (auto simp: later_def extends_def)

lemma later_trans [trans]: "later w w1 \<Longrightarrow> later w1 w2 \<Longrightarrow> later w w2"
  by (auto simp: later_def extends_def)

lemma later_env: "later w w' \<Longrightarrow> reply w' = reply w \<and> elapsed w' = elapsed w"
  by (auto simp: later_def extends_def)

text \<open>Bytes on the bus, without a look at the clock.\<close>

definition quiet :: "world \<Rightarrow> world \<Rightarrow> bool" where
  "quiet w w' \<longleftrightarrow> (\<exists>es. extends w w' es \<and> Clock \<notin> set es)"

lemma quiet_later: "quiet w w' \<Longrightarrow> later w w'"
  by (auto simp: quiet_def later_def)

lemma quiet_refl [simp]: "quiet w w"
  by (auto simp: quiet_def extends_def)

lemma quiet_trans [trans]: "quiet w w1 \<Longrightarrow> quiet w1 w2 \<Longrightarrow> quiet w w2"
  by (fastforce simp: quiet_def extends_def)

lemma quiet_emit: "e \<noteq> Clock \<Longrightarrow> quiet w (emit e w)"
  by (auto simp: quiet_def extends_def)

lemma quiet_rSPI: "quiet w (snd (rSPI b w))"
  by (auto simp: quiet_def extends_def)

lemma quiet_tx: "quiet w (tx bs w)"
  by (auto simp: quiet_def extends_def)

lemma quiet_say_iff [simp]: "quiet w (say m w1) = quiet w w1" "quiet (say m w) w1 = quiet w w1"
  by (simp_all add: quiet_def extends_def)

lemma later_say_iff [simp]: "later w (say m w1) = later w w1" "later (say m w) w1 = later w w1"
  by (simp_all add: later_def extends_def)

lemma quiet_read: "quiet w (snd (SPI_ReadBufferSingle bs w))"
  by (auto simp: quiet_def extends_def)

lemma quiet_card: "quiet w (SPI_EnableCard w)" "quiet w (SPI_DisableCard w)"
  unfolding SPI_EnableCard_def SPI_DisableCard_def
  using quiet_emit [of "Enable PortCard" w] quiet_trans [OF quiet_emit [of "Disable PortCard" w] quiet_rSPI]
  by simp_all

lemma quiet_mmc_poll: "quiet w (snd (mmc_poll again n w))"
proof (induction n arbitrary: w)
  case (Suc n)
  show ?case using Suc [of "snd (rSPI 0xFF w)"] quiet_rSPI [of w "0xFF"] quiet_trans
    by (simp add: case_prod_beta del: rSPI_sel)
qed (simp add: quiet_rSPI del: rSPI_sel)

lemma quiet_MMC_Command: "quiet w (snd (MMC_Command cmd arg w))"
  unfolding MMC_Command_def Let_def case_prod_beta
  by (rule quiet_trans [OF quiet_mmc_poll quiet_trans [OF quiet_tx quiet_mmc_poll]])

lemmas quiets = quiet_refl quiet_emit quiet_rSPI quiet_tx quiet_read quiet_card quiet_mmc_poll quiet_MMC_Command

lemma later_Timer [simp]: "later w (snd (Timer_Get t w))" "later w (snd (Timer_Check t w))"
  by (auto simp: later_def extends_def)

text \<open>
  \<open>at_deadline late d w\<close>: at the last look at the clock the deadline \<open>d\<close> was over by at most \<open>late\<close>, and
  not more than \<open>2 ^ 30\<close> ahead.
\<close>

definition at_deadline :: "nat \<Rightarrow> nat \<Rightarrow> world \<Rightarrow> bool" where
  "at_deadline late d w \<longleftrightarrow> (\<exists>h es. trace w = h @ Clock # es \<and> Clock \<notin> set es \<and>
     elapsed w (h @ [Clock]) \<le> d + late \<and> d \<le> elapsed w (h @ [Clock]) + 2 ^ 30)"

lemma at_deadline_quiet: "at_deadline late d w \<Longrightarrow> quiet w w' \<Longrightarrow> at_deadline late d w'"
  unfolding at_deadline_def quiet_def extends_def by force

lemma at_deadline_late: "at_deadline late d w \<Longrightarrow> late \<le> late' \<Longrightarrow> at_deadline late' d w"
  unfolding at_deadline_def by (meson add_left_mono order_trans)

lemma at_deadline_Get:
  assumes "unat t \<le> 2 ^ 30"
  obtains d where "fst (Timer_Get t w) = of_nat d" "at_deadline 0 d (snd (Timer_Get t w))"
proof
  let ?d = "elapsed w (trace w @ [Clock]) + unat t"
  show "fst (Timer_Get t w) = of_nat ?d" by simp
  show "at_deadline 0 ?d (snd (Timer_Get t w))"
    unfolding at_deadline_def using assms by (intro exI [of _ "trace w"] exI [of _ "[]"]) simp
qed

text \<open>A polling loop whose body is quiet, as a rule.\<close>

lemma deadline_loop:
  fixes P :: "world \<Rightarrow> bool"
  assumes "ticking (elapsed w)" "at_deadline late d w" "late \<le> 2 ^ 30"
    and over: "\<And>w. fst (Timer_Check (of_nat d) w) \<Longrightarrow> at_deadline (late + 2 ^ 30) d (snd (Timer_Check (of_nat d) w)) \<Longrightarrow> P w"
    and again: "\<And>w. \<not> fst (Timer_Check (of_nat d) w) \<Longrightarrow>
      (\<And>w'. quiet (snd (Timer_Check (of_nat d) w)) w' \<Longrightarrow> P w') \<Longrightarrow> P w"
  shows "P w"
proof -
  obtain h es where h: "trace w = h @ Clock # es" "Clock \<notin> set es"
    "elapsed w (h @ [Clock]) \<le> d + late" "d \<le> elapsed w (h @ [Clock]) + 2 ^ 30"
    using assms(2) unfolding at_deadline_def by blast
  show ?thesis
  proof (rule deadline_induct [OF assms(1) refl h assms(3)])
    fix v assume v: "elapsed v = elapsed w" "fst (Timer_Check (of_nat d) v)"
      "d < elapsed w (trace v @ [Clock])" "elapsed w (trace v @ [Clock]) \<le> d + late + 2 ^ 30"
    have "at_deadline (late + 2 ^ 30) d (snd (Timer_Check (of_nat d) v))"
      unfolding at_deadline_def using v by (intro exI [of _ "trace v"] exI [of _ "[]"]) simp
    with v(2) show "P v" by (rule over)
  next
    fix v assume "elapsed v = elapsed w" "\<not> fst (Timer_Check (of_nat d) v)"
      and nx: "\<And>w' es. elapsed w' = elapsed w \<Longrightarrow> trace w' = trace v @ Clock # es \<Longrightarrow> Clock \<notin> set es \<Longrightarrow> P w'"
    show "P v"
    proof (rule again)
      show "\<not> fst (Timer_Check (of_nat d) v)" by fact
      fix w' assume "quiet (snd (Timer_Check (of_nat d) v)) w'"
      then show "P w'" using nx [of w'] \<open>elapsed v = _\<close> by (auto simp: quiet_def extends_def)
    qed
  qed
qed

text \<open>A computation that gives a result, in a later world.\<close>

definition ends :: "('a \<Rightarrow> world) \<Rightarrow> 'a option \<Rightarrow> world \<Rightarrow> bool" where
  "ends p x w \<longleftrightarrow> (\<exists>y. x = Some y \<and> later w (p y))"

lemma ends_Some [simp]: "ends p (Some y) w = later w (p y)"
  by (simp add: ends_def)

lemma ends_later: "later w w1 \<Longrightarrow> ends p x w1 \<Longrightarrow> ends p x w"
  using later_trans by (auto simp: ends_def)

lemma ends_bind:
  assumes "ends p x w" "\<And>y. x = Some y \<Longrightarrow> later w (p y) \<Longrightarrow> ends q (f y) (p y)"
  shows "ends q (x \<bind> f) w"
  using assms later_trans by (force simp: ends_def)

lemma card_wait_loop_returns:
  assumes "ticking (elapsed w)" "at_deadline 0 d w"
  shows "ends snd (card_wait_loop good (of_nat d) w) w"
proof -
  define chk where "chk w = (let (expired, w1) = Timer_Check (of_nat d) w
      in if expired then Some (False, w1) else card_wait_loop good (of_nat d) w1)" for w
  have e: "card_wait_loop good (of_nat d) w =
      (if good (fst (rSPI 0xFF w)) then Some (True, snd (rSPI 0xFF w)) else chk (snd (rSPI 0xFF w)))" for w
    by (subst card_wait_loop.simps) (simp add: chk_def case_prod_beta del: Timer_Check_sel rSPI_sel)
  note r = quiet_later [OF quiet_rSPI [of _ "0xFF"]]
  have c: "ends snd (chk w) w" if "ticking (elapsed w)" "at_deadline 0 d w" for w
    using that
  proof (rule deadline_loop [where late = 0], simp)
    fix w let ?w1 = "snd (Timer_Check (of_nat d) w)"
    assume n: "\<not> fst (Timer_Check (of_nat d) w)" and IH: "\<And>w'. quiet ?w1 w' \<Longrightarrow> ends snd (chk w') w'"
    have "ends snd (card_wait_loop good (of_nat d) ?w1) ?w1"
      unfolding e using ends_later [OF r IH [OF quiet_rSPI]] r by (simp del: rSPI_sel)
    from ends_later [OF later_Timer(2) this] show "ends snd (chk w) w"
      using n by (simp add: chk_def case_prod_beta del: Timer_Check_sel)
  qed (simp add: chk_def case_prod_beta del: Timer_Check_sel)
  have "ends snd (chk (snd (rSPI 0xFF w))) (snd (rSPI 0xFF w))"
    using assms at_deadline_quiet [OF assms(2) quiet_rSPI] by (intro c) simp_all
  from ends_later [OF r this] show ?thesis unfolding e using r by (simp del: rSPI_sel)
qed

lemma card_wait_returns:
  assumes "ticking (elapsed w)" "unat limit \<le> 2 ^ 30"
  shows "ends snd (card_wait limit good w) w"
proof -
  obtain d where d: "fst (Timer_Get limit w) = of_nat d" "at_deadline 0 d (snd (Timer_Get limit w))"
    using at_deadline_Get [OF assms(2)] .
  have "ends snd (card_wait_loop good (of_nat d) (snd (Timer_Get limit w))) (snd (Timer_Get limit w))"
    using assms d(2) by (intro card_wait_loop_returns) simp_all
  from ends_later [OF later_Timer(1) this] show ?thesis
    unfolding card_wait_def case_prod_beta Let_def d(1) .
qed

lemma ends_if: "(c \<Longrightarrow> ends p x w) \<Longrightarrow> (\<not> c \<Longrightarrow> ends p y w) \<Longrightarrow> ends p (if c then x else y) w"
  by simp

lemma ends_map: "ends p x w \<Longrightarrow> (\<And>y. x = Some y \<Longrightarrow> later w (p y) \<Longrightarrow> later (p y) (q (f y))) \<Longrightarrow> ends q (map_option f x) w"
  using later_trans by (force simp: ends_def)

lemma ticking_later: "later w w' \<Longrightarrow> ticking (elapsed w) \<Longrightarrow> ticking (elapsed w')"
  by (simp add: later_env)

lemmas quiet_laters = quiets [THEN quiet_later]

lemma later_card_fail: "later w w1 \<Longrightarrow> ends (snd \<circ> snd) (card_fail txt args x w1) w"
  by (simp add: card_fail_def) (rule later_trans [OF _ quiet_later [OF quiet_card(2)]], simp)

lemma ends_WaitXfer: "ticking (elapsed w) \<Longrightarrow> ends snd (Card_WaitXfer w) w"
  by (simp add: Card_WaitXfer_def card_wait_returns)

text \<open>The second half of a command: what is done after a wait does not matter for its end.\<close>

lemma ends_wait_then:
  assumes "later w w1" "ticking (elapsed w)" "unat limit \<le> 2 ^ 30"
    and "\<And>y. later w (snd y) \<Longrightarrow> ends q (f y) (snd y)"
  shows "ends q (card_wait limit good w1 \<bind> f) w"
proof (rule ends_later [OF assms(1)], rule ends_bind [OF card_wait_returns])
  show "ticking (elapsed w1)" by (rule ticking_later [OF assms(1,2)])
  show "later w1 (snd y) \<Longrightarrow> ends q (f y) (snd y)" for y by (rule assms(4) [OF later_trans [OF assms(1)]])
qed (rule assms(3))

lemma ends_MMC_Command12:
  assumes "ticking (elapsed w)"
  shows "ends snd (MMC_Command12 w) w"
proof -
  define p where "p = (let (r, w) = MMC_Command CMD12 0 w in if r \<noteq> 0 then MMC_Command CMD12 0 w else (r, w))"
  have q: "later w (snd p)"
    using quiet_laters(9) [of w CMD12 0] later_trans [OF quiet_laters(9) quiet_laters(9)]
    by (simp add: p_def case_prod_beta)
  have "MMC_Command12 w = do { (ok, w) \<leftarrow> card_wait 500 (\<lambda>b. b = 0xFF) (snd p);
      if ok then Some (fst p, w) else Some (0, say (WARNING ''SPI:Card_CMD12 (STOP) timeout!'' []) w) }"
    unfolding MMC_Command12_def p_def Let_def case_prod_beta by simp
  moreover have "ends snd (card_wait 500 (\<lambda>b. b = 0xFF) (snd p) \<bind> (\<lambda>(ok, w).
      if ok then Some (fst p, w) else Some (0, say (WARNING ''SPI:Card_CMD12 (STOP) timeout!'' []) w))) w"
    by (rule ends_wait_then [OF q assms]) (simp_all add: case_prod_beta)
  ultimately show ?thesis by simp
qed

lemma later_GetStatus: "later w (snd (Card_GetStatus w))"
  unfolding Card_GetStatus_def Let_def case_prod_beta
  using quiet_laters(9) [of w CMD13 0] later_trans [OF quiet_laters(9) [of w CMD13 0] quiet_laters(3)]
  by (simp del: rSPI_sel)

lemma later_read_block: "later w (snd (read_block direct w))"
proof -
  have "quiet w (SPI_DisableFileIO (tx bs (SPI_EnableFileIO w)))" for bs
    unfolding SPI_DisableFileIO_def SPI_EnableFileIO_def
    by (rule quiet_trans [OF quiet_trans [OF quiet_emit quiet_tx] quiet_emit]) simp_all
  then have "quiet w (snd (if direct then ([], SPI_DisableFileIO (tx (replicate 512 0xFF) (SPI_EnableFileIO w)))
      else SPI_ReadBufferSingle (replicate 512 0xFF) w))" by (simp add: quiet_read)
  from quiet_later [OF quiet_trans [OF this quiet_tx]] show ?thesis
    by (simp only: read_block_def Let_def case_prod_beta snd_conv)
qed

lemma ends_read_blocks:
  "ticking (elapsed w) \<Longrightarrow> ends (snd \<circ> snd) (read_blocks direct sector n buf w) w"
proof (induction n arbitrary: buf w)
  case (Suc n)
  show ?case unfolding read_blocks.simps case_prod_beta Let_def
  proof (rule ends_wait_then [OF later_refl Suc.prems], simp)
    fix y :: "bool \<times> world" assume y: "later w (snd y)"
    have "ticking (elapsed (snd (read_block direct (snd y))))"
      by (rule ticking_later [OF later_trans [OF y later_read_block] Suc.prems])
    from ends_later [OF later_read_block Suc.IH [OF this]]
    show "ends (snd \<circ> snd) (if \<not> fst y
          then card_fail ''SPI:Card_ReadM - no data token! (lba=%lu)'' [MsgInt (unat sector)] buf (snd y)
          else read_blocks direct sector n (buf @ fst (read_block direct (snd y))) (snd (read_block direct (snd y))))
        (snd y)"
      by (intro ends_if later_card_fail later_refl)
  qed
qed simp

lemma ends_card_read:
  assumes "ticking (elapsed w)"
  shows "ends (snd \<circ> snd) (card_read c direct sector n w) w"
proof -
  have x: "ends (snd \<circ> snd) (do { (err, buf, w) \<leftarrow> read_blocks direct s (unat n) [] w;
      if err \<noteq> FF_ERR_NONE then Some (err, buf, w)
      else do {
        w \<leftarrow> (if n \<noteq> 1 then map_option snd (MMC_Command12 w) else Some w);
        let (ok, w) = Card_GetStatus w
        in if \<not> ok then card_fail tx' args buf w else Some (FF_ERR_NONE, buf, SPI_DisableCard w) } }) w"
    if "ticking (elapsed w)" for s tx' args w
  proof (rule ends_bind [OF ends_read_blocks [OF that]], unfold case_prod_beta, rule ends_if, simp, goal_cases)
    case (1 y)
    let ?w = "snd (snd y)"
    have l: "later w ?w" using 1 by simp
    have "ends id (if n \<noteq> 1 then map_option snd (MMC_Command12 ?w) else Some ?w) ?w"
      by (auto intro!: ends_map [OF ends_MMC_Command12] ticking_later [OF l that])
    then show ?case
      unfolding comp_def Let_def
    proof (rule ends_bind, unfold id_apply)
      fix v
      show "ends (\<lambda>x. snd (snd x)) (if \<not> fst (Card_GetStatus v) then card_fail tx' args (fst (snd y)) (snd (Card_GetStatus v))
          else Some (FF_ERR_NONE, fst (snd y), SPI_DisableCard (snd (Card_GetStatus v)))) v"
        using later_card_fail [OF later_GetStatus, of tx' args "fst (snd y)" v]
          later_trans [OF later_GetStatus quiet_laters(7)] by (simp add: comp_def)
    qed
  qed
  show ?thesis
    unfolding card_read_def Card_WaitXfer_def
  proof (unfold Let_def, rule ends_wait_then [OF quiet_laters(6) assms], simp, unfold case_prod_beta, goal_cases)
    case (1 y)
    note t = ticking_later [OF 1 assms]
    define cmd :: u8 where "cmd = (if n = 1 then CMD17 else CMD18)"
    define w1 where "w1 = snd (MMC_Command cmd (card_address c sector) (snd y))"
    have l: "later (snd y) w1" unfolding w1_def by (rule quiet_laters(9))
    note x1 = x [OF ticking_later [OF l t], unfolded case_prod_beta Let_def]
    show ?case unfolding cmd_def [symmetric] w1_def [symmetric]
      by (rule ends_if, rule later_card_fail, rule later_refl, rule ends_later [OF l], rule ends_if,
          rule later_card_fail, rule later_refl, rule x1)
  qed
qed

lemma ends_TriggerFillRead: "ticking (elapsed w) \<Longrightarrow> ends id (Card_TriggerFillRead c w) w"
  unfolding Card_TriggerFillRead_def by (rule ends_map [OF ends_card_read]) (auto simp: case_prod_beta)

lemma ends_ReadM:
  assumes "ticking (elapsed w)"
  shows "ends (snd \<circ> snd \<circ> snd) (Card_ReadM direct sector n c w) w"
  unfolding Card_ReadM_def
proof (rule ends_bind [where p = snd])
  show "ends snd (if writeStateActive c
      then map_option (Pair (c\<lparr>writeStateActive := False\<rparr>)) (Card_TriggerFillRead (c\<lparr>writeStateActive := False\<rparr>) w)
      else Some (c, w)) w"
    by (intro ends_if ends_map [OF ends_TriggerFillRead [OF assms]]) simp_all
  fix y :: "card \<times> world" assume y: "later w (snd y)"
  show "ends (snd \<circ> snd \<circ> snd) (case y of (c, w) \<Rightarrow> do { (err, buf, w) \<leftarrow> card_read c direct sector n w; Some (err, buf, c, w) })
      (snd y)"
    unfolding case_prod_beta by (rule ends_bind [OF ends_card_read [OF ticking_later [OF y assms]]]) simp
qed


lemma later_write_start: "later w (snd (write_start c sector n w))"
proof -
  note q = quiet_laters(9)
  define p where "p = (if cardType c \<noteq> CARDTYPE_MMC then MMC_Command CMD55 0 w else (0, w))"
  define w2 where "w2 = snd (MMC_Command CMD23 n (snd p))"
  define w3 where "w3 = snd (MMC_Command CMD25 sector w2)"
  have l: "later w (snd p)" "later w w2" "later w w3" "later w (snd (MMC_Command CMD24 sector w))"
    using q [of w CMD55 0] q later_trans [OF _ q] later_trans [OF later_trans [OF _ q] q]
    by (simp_all add: p_def w2_def w3_def)
  have "snd (write_start c sector n w) \<in> {snd (MMC_Command CMD24 sector w), snd p, w2, w3}"
    unfolding write_start_def Let_def case_prod_beta p_def [symmetric] w2_def [symmetric] w3_def [symmetric]
    by (simp split: if_split)
  with l show ?thesis by fastforce
qed

lemma ends_write_blocks:
  "ticking (elapsed w) \<Longrightarrow> ends (snd \<circ> snd) (write_blocks buf sector n k w) w"
proof (induction k arbitrary: buf w)
  case (Suc k)
  define w1 where "w1 = tx [0xFF, 0xFF] (tx (take 512 buf) (tx [0xFF, if n = 1 then 0xFE else 0xFC] w))"
  define w2 where "w2 = snd (rSPI 0xFF w1)"
  have l: "later w w2" unfolding w1_def w2_def
    by (rule quiet_later [OF quiet_trans [OF quiet_trans [OF quiet_tx quiet_trans [OF quiet_tx quiet_tx]] quiet_rSPI]])
  have e: "write_blocks buf sector n (Suc k) w = (let response = fst (rSPI 0xFF w1) AND 0x1F in
      if response \<noteq> 0x05
      then card_fail ''SPI:Card_WriteM - invalid status 0x%02X (lba=%lu)'' [MsgInt (unat response), MsgInt (unat sector)] () w2
      else do { (ready, w) \<leftarrow> card_wait 500 (\<lambda>b. b \<noteq> 0x00) w2;
                if \<not> ready then card_fail ''SPI:Card_WriteM - Loop timeout! (lba=%lu, %ld sectors)''
                          [MsgInt (unat sector), MsgInt (unat n)] () w
                else write_blocks (drop 512 buf) sector n k w })"
    unfolding write_blocks.simps Let_def case_prod_beta w1_def w2_def Card_WaitXfer_def ..
  show ?case unfolding e Let_def
  proof (rule ends_if, rule later_card_fail, rule l, rule ends_wait_then [OF l Suc.prems], simp)
    fix y :: "bool \<times> world" assume y: "later w (snd y)"
    show "ends (snd \<circ> snd) (case y of (ready, w) \<Rightarrow>
        if \<not> ready then card_fail ''SPI:Card_WriteM - Loop timeout! (lba=%lu, %ld sectors)''
                          [MsgInt (unat sector), MsgInt (unat n)] () w
        else write_blocks (drop 512 buf) sector n k w) (snd y)"
      unfolding case_prod_beta
      by (intro ends_if later_card_fail later_refl Suc.IH ticking_later [OF y Suc.prems])
  qed
qed simp

lemma ends_card_write:
  assumes "ticking (elapsed w)"
  shows "ends (snd \<circ> snd) (card_write c buf sector n w) w"
  unfolding card_write_def Card_WaitXfer_def
proof (unfold Let_def, rule ends_wait_then [OF quiet_laters(6) assms], simp, unfold case_prod_beta, goal_cases)
  case (1 y)
  note t = ticking_later [OF 1 assms]
  define r where "r = write_start c (card_address c sector) n (snd y)"
  have l: "later (snd y) (snd r)" unfolding r_def by (rule later_write_start)
  note t2 = ticking_later [OF l t]
  show ?case unfolding r_def [symmetric]
  proof (rule ends_if, rule later_card_fail, rule later_refl, rule ends_later [OF l], cases "fst r", goal_cases)
    case 1
    show ?case unfolding 1(2) option.case
    proof (rule ends_bind [OF ends_write_blocks [OF t2]], rule ends_if, simp add: comp_def, goal_cases)
      case (1 v)
      have t3: "ticking (elapsed (snd (snd v)))" using ticking_later [OF 1(2) t2] by simp
          show ?case
      proof (unfold comp_def, rule ends_wait_then [OF quiet_laters(4) t3], simp, goal_cases)
        case (1 z)
        show ?case
          using later_card_fail [OF later_GetStatus] later_trans [OF later_GetStatus quiet_laters(7)]
          by (auto simp: comp_def later_card_fail [unfolded comp_def])
      qed
    qed
  next
    case (2 a)
    then show ?case by (cases a) (simp add: later_card_fail)
  qed
qed

lemma ends_WriteM:
  assumes "ticking (elapsed w)"
  shows "ends (snd \<circ> snd) (Card_WriteM buf sector n c w) w"
  unfolding Card_WriteM_def
proof (rule ends_bind [where p = snd])
  show "ends snd (if \<not> writeStateActive c
      then map_option (Pair (c\<lparr>writeStateActive := True\<rparr>)) (Card_TriggerFillRead c w) else Some (c, w)) w"
    by (intro ends_if ends_map [OF ends_TriggerFillRead [OF assms]]) simp_all
  fix y :: "card \<times> world" assume y: "later w (snd y)"
  show "ends (snd \<circ> snd) (case y of (c, w) \<Rightarrow> do { (err, _, w) \<leftarrow> card_write c buf sector n w; Some (err, c, w) }) (snd y)"
    unfolding case_prod_beta by (rule ends_bind [OF ends_card_write [OF ticking_later [OF y assms]]]) simp
qed

lemma Timer_Wait_returns:
  assumes "ticking (elapsed w)" "unat t \<le> 2 ^ 30"
  shows "ends id (Timer_Wait t w) w"
proof -
  obtain d where d: "fst (Timer_Get t w) = of_nat d" "at_deadline 0 d (snd (Timer_Get t w))"
    using at_deadline_Get [OF assms(2)] .
  have "ends id (Timer_Wait_loop (of_nat d) w) w" if "ticking (elapsed w)" "at_deadline 0 d w" for w
    using that
  proof (rule deadline_loop [where late = 0], simp)
    fix w let ?w1 = "snd (Timer_Check (of_nat d) w)"
    assume n: "\<not> fst (Timer_Check (of_nat d) w)" and IH: "\<And>w'. quiet ?w1 w' \<Longrightarrow> ends id (Timer_Wait_loop (of_nat d) w') w'"
    from ends_later [OF later_Timer(2) IH [OF quiet_refl]] show "ends id (Timer_Wait_loop (of_nat d) w) w"
      using n by (subst Timer_Wait_loop.simps) (simp add: case_prod_beta del: Timer_Check_sel)
  next
    fix w assume "fst (Timer_Check (of_nat d) w)"
    then show "ends id (Timer_Wait_loop (of_nat d) w) w"
      by (subst Timer_Wait_loop.simps) (simp add: case_prod_beta del: Timer_Check_sel)
  qed
  then have "ends id (Timer_Wait_loop (of_nat d) (snd (Timer_Get t w))) (snd (Timer_Get t w))"
    using assms d(2) by simp
  from ends_later [OF later_Timer(1) this] show ?thesis unfolding Timer_Wait_def Let_def case_prod_beta d(1) .
qed

lemma init_loop_returns:
  assumes "\<And>w. quiet w (snd (body w))" "\<And>w. fst (body w) \<noteq> Some CARDTYPE_NONE"
    and "ticking (elapsed w)" "at_deadline late d w" "late \<le> 2 ^ 30"
  shows "\<exists>y. init_loop body (of_nat d) w = Some y \<and> later w (snd y) \<and>
    (fst y = CARDTYPE_NONE \<longrightarrow> at_deadline (late + 2 ^ 30) d (snd y))"
  using assms(3-5)
proof (rule deadline_loop)
  fix w let ?w1 = "snd (Timer_Check (of_nat d) w)"
  let ?P = "\<lambda>w. \<exists>y. init_loop body (of_nat d) w = Some y \<and> later w (snd y) \<and>
    (fst y = CARDTYPE_NONE \<longrightarrow> at_deadline (late + 2 ^ 30) d (snd y))"
  assume n: "\<not> fst (Timer_Check (of_nat d) w)" and IH: "\<And>w'. quiet ?w1 w' \<Longrightarrow> ?P w'"
  have l: "later w (snd (body ?w1))" by (rule later_trans [OF later_Timer(2) quiet_later [OF assms(1)]])
  show "?P w"
  proof (cases "fst (body ?w1)")
    case None
    then have "init_loop body (of_nat d) w = init_loop body (of_nat d) (snd (body ?w1))"
      using n by (subst init_loop.simps) (simp add: case_prod_beta del: Timer_Check_sel)
    then show ?thesis using IH [OF assms(1)] later_trans [OF l] by auto
  next
    case (Some t)
    then have "init_loop body (of_nat d) w = Some (t, snd (body ?w1))"
      using n by (subst init_loop.simps) (simp add: case_prod_beta del: Timer_Check_sel)
    moreover have "t \<noteq> CARDTYPE_NONE" using assms(2) [of ?w1] Some by simp
    ultimately show ?thesis using l by simp
  qed
next
  fix w assume "fst (Timer_Check (of_nat d) w)" "at_deadline (late + 2 ^ 30) d (snd (Timer_Check (of_nat d) w))"
  then show "\<exists>y. init_loop body (of_nat d) w = Some y \<and> later w (snd y) \<and>
    (fst y = CARDTYPE_NONE \<longrightarrow> at_deadline (late + 2 ^ 30) d (snd y))"
    by (subst init_loop.simps) (simp add: case_prod_beta del: Timer_Check_sel)
qed

lemma quiet_set_blocklen: "quiet w (set_blocklen w)"
  by (simp add: set_blocklen_def case_prod_beta quiet_MMC_Command)

lemma quiet_sdhc_body: "quiet w (snd (sdhc_body w))"
proof -
  note q = quiet_MMC_Command
  define w1 where "w1 = snd (MMC_Command CMD55 0 w)"
  define w2 where "w2 = snd (MMC_Command CMD41 (push_bit 30 1) w1)"
  define p3 where "p3 = MMC_Command CMD55 0 w2"
  define w4 where "w4 = (if fst p3 = 0x00 then snd (MMC_Command CMD42 0 (snd p3)) else snd p3)"
  define w5 where "w5 = snd (MMC_Command CMD58 0 w4)"
  define w6 where "w6 = snd (SPI_ReadBufferSingle (replicate 4 0xFF) w5)"
  have "quiet w w1" "quiet w1 w2" "quiet w2 (snd p3)" "quiet (snd p3) w4" "quiet w4 w5" "quiet w5 w6"
    by (simp_all add: w1_def w2_def p3_def w4_def w5_def w6_def q quiet_read del: SPI_ReadBufferSingle_sel)
  then have l: "quiet w w2" "quiet w w5" "quiet w w6" using quiet_trans by blast+
  have "snd (sdhc_body w) = (if fst (MMC_Command CMD55 0 w) \<noteq> 0x01 then w1
      else if fst (MMC_Command CMD41 (push_bit 30 1) w1) \<noteq> 0x00 then w2
      else if fst (MMC_Command CMD58 0 w4) = 0x00 then w6
      else say (WARNING ''SPI:Card_Init CMD58 (READ_OCR) failed!'' []) w5)"
    unfolding sdhc_body_def Let_def case_prod_beta w1_def w2_def p3_def w4_def w5_def w6_def
    by (simp only: if_distrib [of snd] snd_conv)
  then show ?thesis using l \<open>quiet w w1\<close> by simp
qed

lemma quiet_sd_mmc_body: "quiet w (snd (sd_body w))" "quiet w (snd (mmc_body w))"
  by (simp_all add: sd_body_def mmc_body_def case_prod_beta quiet_MMC_Command quiet_trans [OF quiet_MMC_Command quiet_MMC_Command]
      quiet_trans [OF quiet_trans [OF quiet_MMC_Command quiet_MMC_Command] quiet_set_blocklen]
      quiet_trans [OF quiet_MMC_Command quiet_set_blocklen])

lemma init_loop_result:
  "init_loop body timeout w = Some y \<Longrightarrow> fst y = CARDTYPE_NONE \<or> (\<exists>w. fst (body w) = Some (fst y))"
proof (induction body timeout w y rule: init_loop.raw_induct [rotated, consumes 1, case_names loop])
  case (loop rec body t w y)
  let ?w1 = "snd (Timer_Check t w)"
  show ?case
  proof (cases "fst (Timer_Check t w) \<or> fst (body ?w1) = None")
    case True
    with loop show ?thesis by (auto simp: Let_def case_prod_beta simp del: Timer_Check_sel split: if_splits)
  next
    case False
    with loop(2) have "fst (body ?w1) = Some (fst y)"
      by (auto simp: Let_def case_prod_beta simp del: Timer_Check_sel)
    then show ?thesis by blast
  qed
qed

lemma body_types:
  "fst (sdhc_body w) = Some t \<Longrightarrow> t = CARDTYPE_SDHC \<or> t = CARDTYPE_SD"
  "fst (sd_body w) = Some t \<Longrightarrow> t = CARDTYPE_SD" "fst (mmc_body w) = Some t \<Longrightarrow> t = CARDTYPE_MMC"
  by (auto simp: sdhc_body_def sd_body_def mmc_body_def Let_def case_prod_beta simp del: SPI_ReadBufferSingle_sel split: if_splits)

lemma body_not_NONE:
  "fst (sdhc_body w) \<noteq> Some CARDTYPE_NONE" "fst (sd_body w) \<noteq> Some CARDTYPE_NONE" "fst (mmc_body w) \<noteq> Some CARDTYPE_NONE"
  using body_types by fastforce+

text \<open>The first trial ends at most a little after the deadline, so the second one ends, too.\<close>

lemma try_sdhc_returns:
  assumes "ticking (elapsed w)" "at_deadline 0 d w"
  shows "\<exists>y. try_sdhc (of_nat d) w = Some y \<and> later w (snd y) \<and>
    (fst y = CARDTYPE_NONE \<longrightarrow> at_deadline (2 ^ 30) d (snd y))"
proof -
  define p1 where "p1 = MMC_Command CMD8 0x1AA w"
  define p2 where "p2 = SPI_ReadBufferSingle (replicate 4 0xFF) (snd p1)"
  have q: "quiet w (snd p1)" "quiet w (snd p2)"
    using quiet_MMC_Command quiet_trans [OF quiet_MMC_Command quiet_read] by (simp_all only: p1_def p2_def)
  have dl: "at_deadline 0 d (snd p1)" "at_deadline 0 d (snd p2)" by (rule at_deadline_quiet [OF assms(2)], rule q)+
  have "\<exists>y. init_loop sdhc_body (of_nat d) (snd p2) = Some y \<and> later (snd p2) (snd y) \<and>
      (fst y = CARDTYPE_NONE \<longrightarrow> at_deadline (0 + 2 ^ 30) d (snd y))"
    using ticking_later [OF quiet_later [OF q(2)] assms(1)] dl(2)
    by (intro init_loop_returns quiet_sdhc_body body_not_NONE) simp_all
  then obtain t v where i: "init_loop sdhc_body (of_nat d) (snd p2) = Some (t, v)" "later (snd p2) v"
    "t = CARDTYPE_NONE \<Longrightarrow> at_deadline (2 ^ 30) d v" by auto
  have d2: "at_deadline (2 ^ 30) d (snd p1)" "at_deadline (2 ^ 30) d (snd p2)"
    using at_deadline_late [OF dl(1)] at_deadline_late [OF dl(2)] by simp_all
  have say: "at_deadline (2 ^ 30) d (say m v) = at_deadline (2 ^ 30) d v" for m by (simp add: at_deadline_def)
  show ?thesis
    unfolding try_sdhc_def Let_def case_prod_beta p1_def [symmetric] p2_def [symmetric]
    using i later_trans [OF quiet_later [OF q(2)] i(2)] quiet_later [OF q(1)] quiet_later [OF q(2)] d2 say by simp
qed

lemma ends_try_sd_mmc:
  assumes "ticking (elapsed w)" "at_deadline (2 ^ 30) d w"
  shows "ends snd (try_sd_mmc (of_nat d) w) w"
proof -
  define w1 where "w1 = snd (MMC_Command CMD55 0 w)"
  define w2 where "w2 = snd (MMC_Command CMD41 0 w1)"
  have q: "quiet w w1" "quiet w w2"
    using quiet_MMC_Command quiet_trans [OF quiet_MMC_Command quiet_MMC_Command] by (simp_all only: w1_def w2_def)
  have l: "ends snd (init_loop sd_body (of_nat d) w2) w2" "ends snd (init_loop mmc_body (of_nat d) w1) w1"
    using init_loop_returns [OF quiet_sd_mmc_body(1) body_not_NONE(2) ticking_later [OF quiet_later [OF q(2)] assms(1)]
        at_deadline_quiet [OF assms(2) q(2)]]
      init_loop_returns [OF quiet_sd_mmc_body(2) body_not_NONE(3) ticking_later [OF quiet_later [OF q(1)] assms(1)]
        at_deadline_quiet [OF assms(2) q(1)]]
    unfolding ends_def by auto
  have e1: "ends snd (do { (t, w) \<leftarrow> init_loop sd_body (of_nat d) w2;
       Some (t, say (WARNING ''SPI:Card_Init SD card initialization timed out!'' []) w) }) w2"
    by (rule ends_bind [OF l(1)]) (simp add: case_prod_beta)
  have e2: "ends snd (do { (t, w) \<leftarrow> init_loop mmc_body (of_nat d) w1;
       Some (t, if t = CARDTYPE_NONE then say (WARNING ''SPI:Card_Init MMC card initialization timed out!'' []) w else w) }) w1"
    by (rule ends_bind [OF l(2)]) (simp add: case_prod_beta)
  show ?thesis
    unfolding try_sd_mmc_def Let_def case_prod_beta w1_def [symmetric] w2_def [symmetric]
    using ends_later [OF quiet_later [OF q(1)] e2 [unfolded case_prod_beta]]
      ends_later [OF quiet_later [OF q(2)] e1 [unfolded case_prod_beta]] quiet_later [OF q(2)]
    by simp
qed

lemma try_types:
  "try_sdhc timeout w = Some (t, w') \<Longrightarrow> t \<le> CARDTYPE_SDHC" "try_sd_mmc timeout w = Some (t, w') \<Longrightarrow> t \<le> CARDTYPE_SDHC"
  by (auto simp: try_sdhc_def try_sd_mmc_def Let_def case_prod_beta simp del: SPI_ReadBufferSingle_sel
      split: if_splits bind_splits dest!: init_loop_result dest: body_types)

text \<open>After an operation the card is deselected, with one more byte for it to let go of the bus.\<close>

definition released :: "world \<Rightarrow> bool" where
  "released w \<longleftrightarrow> (\<exists>h. trace w = h @ [Disable PortCard, Xfer 0xFF])"

lemma released_simps [simp]: "released (SPI_DisableCard w)" "released (say m w) = released w"
  by (simp_all add: released_def SPI_DisableCard_def)

lemma ends_TrySetHighSpeed:
  assumes "ticking (elapsed w)"
  shows "ends snd (Card_TrySetHighSpeed w) w"
proof -
  define p where "p = MMC_Command CMD6 0x80FFFFF1 (SPI_EnableCard w)"
  have l: "later w (snd p)" unfolding p_def by (rule later_trans [OF quiet_laters(6) quiet_laters(9)])
  show ?thesis
    unfolding Card_TrySetHighSpeed_def Let_def case_prod_beta p_def [symmetric]
  proof (rule ends_if, simp add: later_trans [OF l quiet_laters(7)], rule ends_wait_then [OF l assms], simp, goal_cases)
    case (1 y)
    define a where "a = snd (SPI_ReadBufferSingle (replicate 64 0xFF) (snd y))"
    have a: "quiet (snd y) (tx [0xFF, 0xFF] a)" unfolding a_def by (rule quiet_trans [OF quiet_read quiet_tx])
    then have "quiet (snd y) (if b then snd (rSPI 0xFF (tx [0xFF, 0xFF] a)) else tx [0xFF, 0xFF] a)" for b
      using quiet_trans [OF a quiet_rSPI] by (simp del: rSPI_sel tx.simps)
    from quiet_later [OF quiet_trans [OF this quiet_card(2)]] quiet_laters(7) [of "say m (snd y)" for m] show ?case
      unfolding a_def by (simp del: rSPI_sel tx.simps SPI_ReadBufferSingle_sel)
  qed
qed

lemma ends_ReadCID:
  assumes "ticking (elapsed w)"
  shows "ends id (ReadCID w) w"
proof -
  define p where "p = MMC_Command CMD10 0 (SPI_EnableCard w)"
  have l: "later w (snd p)" unfolding p_def by (rule later_trans [OF quiet_laters(6) quiet_laters(9)])
  have q: "later w (SPI_DisableCard (snd (SPI_ReadBufferSingle bs w)))" "later w (SPI_DisableCard (say m w))" for bs w m
    using quiet_later [OF quiet_trans [OF quiet_read quiet_card(2)]] quiet_laters(7) [of "say m w"] by simp_all
  show ?thesis
    unfolding ReadCID_def Let_def case_prod_beta p_def [symmetric]
    by (rule ends_if, simp add: later_trans [OF l q(2)], rule ends_wait_then [OF l assms], simp,
        simp add: q del: SPI_ReadBufferSingle_sel)
qed

lemma ends_GetCapacity:
  assumes "ticking (elapsed w)"
  shows "ends snd (Card_GetCapacity w) w"
proof -
  let ?w1 = "SPI_EnableCard w"
  define w2 where "w2 = snd (Timer_Get 100 ?w1)"
  define w3 where "w3 = snd (MMC_Command CMD9 0x000000 w2)"
  obtain d where d: "fst (Timer_Get 100 ?w1) = of_nat d" "at_deadline 0 d w2"
    unfolding w2_def by (rule at_deadline_Get [of 100 ?w1]) simp_all
  have l: "later w w2" unfolding w2_def by (rule later_trans [OF quiet_laters(6) later_Timer(1)])
  have l3: "later w w3" unfolding w3_def by (rule later_trans [OF l quiet_laters(9)])
  have "ends snd (card_wait_loop (\<lambda>b. b = 0xFE) (of_nat d) w3) w3"
    using ticking_later [OF l3 assms] at_deadline_quiet [OF d(2) quiet_MMC_Command]
    unfolding w3_def by (intro card_wait_loop_returns)
  then have "ends snd (do { (ok, w) \<leftarrow> card_wait_loop (\<lambda>b. b = 0xFE) (of_nat d) w3;
      if \<not> ok then Some (0, SPI_DisableCard (say (WARNING ''SPI:Card_CMD9 (SEND_CSD) timeout!'' []) w))
      else let (csd, w) = SPI_ReadBufferSingle (replicate 16 0xFF) w;
               w = SPI_DisableCard (tx [0xFF, 0xFF] w)
           in case csd_capacity csd of
                Some capacity \<Rightarrow> Some (capacity, w)
              | None \<Rightarrow> Some (0, say (WARNING ''CARD:Unknown CSD version!'' []) w) }) w3"
  proof (rule ends_bind, goal_cases)
    case (1 y)
    have "later (snd y) (SPI_DisableCard (say m (snd y)))" for m
      using quiet_laters(7) [of "say m (snd y)"] by simp
    moreover have "later (snd y) (SPI_DisableCard (tx [0xFF, 0xFF] (snd (SPI_ReadBufferSingle (replicate 16 0xFF) (snd y)))))"
      by (rule quiet_later [OF quiet_trans [OF quiet_trans [OF quiet_read quiet_tx] quiet_card(2)]])
    ultimately show ?case
      unfolding case_prod_beta Let_def by (simp del: tx.simps SPI_ReadBufferSingle_sel split: option.split)
  qed
  from ends_later [OF l3 this] show ?thesis
    unfolding Card_GetCapacity_def Let_def case_prod_beta d(1) w2_def [symmetric] w3_def [symmetric] .
qed


lemma ends_card_trials:
  assumes "ticking (elapsed w)"
  shows "ends snd (card_trials w) w"
proof -
  define w0 where "w0 = snd (MMC_Command CMD0 0 w)"
  define w1 where "w1 = snd (Timer_Get 1000 w0)"
  have l: "later w w0" "later w w1"
    unfolding w1_def w0_def using quiet_laters(9) later_trans [OF quiet_laters(9) later_Timer(1)] by simp_all
  obtain d where d: "fst (Timer_Get 1000 w0) = of_nat d" "at_deadline 0 d w1"
    unfolding w1_def by (rule at_deadline_Get [of 1000 w0]) simp_all
  have t: "ticking (elapsed w1)" by (rule ticking_later [OF l(2) assms])
  from try_sdhc_returns [OF t d(2)] obtain r v where
    v: "try_sdhc (of_nat d) w1 = Some (r, v)" "later w1 v" "r = CARDTYPE_NONE \<Longrightarrow> at_deadline (2 ^ 30) d v" by auto
  have "ends snd (if r = CARDTYPE_NONE then try_sd_mmc (of_nat d) v else Some (r, v)) v"
    using ends_try_sd_mmc [OF ticking_later [OF v(2) t]] v(3) by (intro ends_if) simp_all
  note e = ends_later [OF later_trans [OF l(2) v(2)] this]
  show ?thesis
    unfolding card_trials_def Let_def case_prod_beta w0_def [symmetric]
    by (rule ends_if, unfold d(1) w1_def [symmetric] v(1), simp only: bind.bind_lunit fst_conv snd_conv, rule e, simp add: l)
qed

lemma ends_card_ready: "ticking (elapsed w) \<Longrightarrow> ends id (card_ready t w) w"
  unfolding card_ready_def by (intro ends_if ends_map [OF ends_TrySetHighSpeed]) simp_all

lemma ends_TryInit:
  assumes "ticking (elapsed w)"
  shows "ends (snd \<circ> snd) (Card_TryInit c w) w"
proof -
  have l0: "later w (tx (replicate 10 0xFF) (SPI_DisableCard w))"
    by (rule later_trans [OF quiet_laters(7) quiet_laters(4)])
  show ?thesis unfolding Card_TryInit_def case_prod_beta
  proof (rule ends_later [OF l0], rule ends_bind [OF Timer_Wait_returns], rule ticking_later [OF l0 assms], simp, goal_cases)
    case (1 v)
    have "later w v" using 1(2) later_trans [OF l0] by simp
    then have tv: "ticking (elapsed (SPI_EnableCard v))"
      by (intro ticking_later [OF later_trans [OF _ quiet_laters(6)] assms])
    show ?case unfolding id_apply
    proof (rule ends_later [OF quiet_laters(6)], rule ends_bind [OF ends_card_trials [OF tv]], goal_cases)
      case (1 y)
      have "ticking (elapsed (SPI_DisableCard (snd y)))"
        by (rule ticking_later [OF later_trans [OF 1(2) quiet_laters(7)] tv])
      from ends_card_ready [OF this]
      have "ends (snd \<circ> snd) (card_ready (fst y) (SPI_DisableCard (snd y)) \<bind> (\<lambda>w. Some (fst y, c\<lparr>cardType := fst y\<rparr>, w)))
          (SPI_DisableCard (snd y))" by (rule ends_bind) simp
      from ends_later [OF quiet_laters(7) this] show ?case .
    qed
  qed
qed

lemma TryInit_type:
  "Card_TryInit c w = Some (t, c', w') \<Longrightarrow> t \<le> CARDTYPE_SDHC \<and> c' = c\<lparr>cardType := t\<rparr>"
  by (auto simp: Card_TryInit_def card_trials_def Let_def case_prod_beta split: if_splits bind_splits dest: try_types)

lemma card_attempts_returns:
  "ticking (elapsed w) \<Longrightarrow> n \<le> 3 \<Longrightarrow> n \<noteq> 0 \<or> cardType c = CARDTYPE_NONE \<Longrightarrow>
     \<exists>t c' w'. card_attempts n c w = Some (t, c', w') \<and> later w w' \<and> t \<le> CARDTYPE_SDHC \<and> cardType c' = t"
proof (induction n arbitrary: c w)
  case (Suc n)
  from ends_TryInit [OF Suc.prems(1), of c] obtain t c1 w1 where t: "Card_TryInit c w = Some (t, c1, w1)" "later w w1"
    by (auto simp: ends_def)
  note r = TryInit_type [OF t(1)] and k = ticking_later [OF t(2) Suc.prems(1)]
  show ?case
  proof (cases "t = CARDTYPE_NONE")
    case True
    let ?w2 = "say (WARNING ''SPI:Card_Init:Attempt %d failed!'' [MsgInt (2 - n)]) w1"
    have "ends id (Timer_Wait 100 ?w2) ?w2" using k by (intro Timer_Wait_returns) simp_all
    then obtain w3 where w3: "Timer_Wait 100 ?w2 = Some w3" "later w1 w3" by (auto simp: ends_def)
    have "cardType (c1\<lparr>cardDetected := False\<rparr>) = CARDTYPE_NONE" using r True by simp
    with Suc.IH [OF ticking_later [OF w3(2) k], of "c1\<lparr>cardDetected := False\<rparr>"] Suc.prems(2)
    obtain t' c' w' where "card_attempts n (c1\<lparr>cardDetected := False\<rparr>) w3 = Some (t', c', w')" "later w3 w'"
      "t' \<le> CARDTYPE_SDHC" "cardType c' = t'" by auto
    with t w3 True later_trans [OF t(2) later_trans [OF w3(2)]] show ?thesis by simp
  next
    case False
    from ends_ReadCID [OF k] obtain w2 where "ReadCID w1 = Some w2" "later w1 w2" by (auto simp: ends_def)
    with t False r later_trans [OF t(2)] show ?thesis by simp
  qed
qed simp

lemma ends_reset_attempts: "ticking (elapsed w) \<Longrightarrow> ends snd (reset_attempts n k w) w"
proof (induction n arbitrary: k w)
  case (Suc n)
  have l0: "later w (tx (replicate 10 0xFF) (SPI_DisableCard w))"
    by (rule later_trans [OF quiet_laters(7) quiet_laters(4)])
  show ?case unfolding reset_attempts.simps Let_def case_prod_beta
  proof (rule ends_later [OF l0], rule ends_bind [OF Timer_Wait_returns], rule ticking_later [OF l0 Suc.prems], simp, goal_cases)
    case (1 v)
    have "later w v" using 1(2) later_trans [OF l0] by simp
    moreover define u where "u = SPI_DisableCard (snd (MMC_Command CMD0 0 (SPI_EnableCard v)))"
    moreover have l: "later v u" unfolding u_def
      by (rule later_trans [OF later_trans [OF quiet_laters(6) quiet_laters(9)] quiet_laters(7)])
    ultimately have "ticking (elapsed u)" by (intro ticking_later [OF later_trans [OF _ l] Suc.prems])
    from ends_later [OF l Suc.IH [OF this]] show ?case by (simp add: u_def)
  qed
qed simp

lemma ends_Detect:
  assumes "ticking (elapsed w)"
  shows "ends (snd \<circ> snd) (Card_Detect supported pin c w) w"
proof -
  define w1 where "w1 = snd (Timer_Check (detect_delay c) w)"
  have l: "later w w1" by (simp add: w1_def del: Timer_Check_sel)
  show ?thesis
  proof (cases "pin \<or> supported \<or> cardDetected c \<or> \<not> fst (Timer_Check (detect_delay c) w)")
    case True
    then show ?thesis using l by (auto simp: Card_Detect_def w1_def case_prod_beta simp del: Timer_Check_sel)
  next
    case False
    have "ends (snd \<circ> snd) (Card_Detect supported pin c w) w1"
      unfolding Card_Detect_def Let_def case_prod_beta w1_def [symmetric] using False
      by (simp del: Timer_Check_sel Timer_Get_sel, intro ends_bind [OF ends_reset_attempts [OF ticking_later [OF l assms]]])
         (simp del: Timer_Get_sel)
    then show ?thesis by (rule ends_later [OF l])
  qed
qed

lemma card_fail_result:
  "card_fail txt' args x w = Some y \<Longrightarrow> fst y = FF_ERR_DEVICE_DRIVER_FAILED \<and> fst (snd y) = x \<and> released (snd (snd y))"
  by (auto simp: card_fail_def)

lemma length_read_block: "length (fst (read_block direct w)) = (if direct then 0 else 512)"
  by (simp add: read_block_def case_prod_beta)

lemma read_blocks_result:
  "read_blocks direct sector n buf w = Some (err, buf', w') \<Longrightarrow>
     (err = FF_ERR_NONE \<and> length buf' = length buf + (if direct then 0 else 512 * n)) \<or>
     (err = FF_ERR_DEVICE_DRIVER_FAILED \<and> released w')"
proof (induction n arbitrary: buf w)
  case (Suc n)
  from Suc.prems obtain ok w1 where w1: "card_wait 250 (\<lambda>b. b = 0xFE) w = Some (ok, w1)"
    by (auto split: bind_splits)
  show ?case
  proof (cases ok)
    case True
    then show ?thesis
      using Suc.prems w1 Suc.IH [of "buf @ fst (read_block direct w1)" "snd (read_block direct w1)"]
      by (auto simp: case_prod_beta length_read_block split: if_splits)
  qed (use Suc.prems w1 card_fail_result in fastforce)
qed simp

lemma card_read_result:
  assumes "card_read c direct sector n w = Some (err, buf, w')"
  shows "released w'" "err = FF_ERR_NONE \<or> err = FF_ERR_DEVICE_DRIVER_FAILED"
    "err = FF_ERR_NONE \<Longrightarrow> length buf = (if direct then 0 else 512 * unat n)"
proof -
  have "released w' \<and> (err = FF_ERR_NONE \<or> err = FF_ERR_DEVICE_DRIVER_FAILED) \<and>
      (err = FF_ERR_NONE \<longrightarrow> length buf = (if direct then 0 else 512 * unat n))"
    using assms unfolding card_read_def Let_def case_prod_beta
    by (auto simp del: read_blocks.simps split: bind_splits if_splits dest!: card_fail_result dest: read_blocks_result)
  then show "released w'" "err = FF_ERR_NONE \<or> err = FF_ERR_DEVICE_DRIVER_FAILED"
    "err = FF_ERR_NONE \<Longrightarrow> length buf = (if direct then 0 else 512 * unat n)" by simp_all
qed

lemma write_blocks_result:
  "write_blocks buf sector n k w = Some (err, u, w') \<Longrightarrow>
     err = FF_ERR_NONE \<or> (err = FF_ERR_DEVICE_DRIVER_FAILED \<and> released w')"
proof (induction k arbitrary: buf w)
  case (Suc k)
  then show ?case
    by (auto simp: Let_def case_prod_beta simp del: tx.simps rSPI_sel split: bind_splits if_splits dest!: card_fail_result)
qed simp

lemma card_write_result:
  assumes "card_write c buf sector n w = Some (err, u, w')"
  shows "released w'" "err = FF_ERR_NONE \<or> err = FF_ERR_DEVICE_DRIVER_FAILED"
proof -
  have "released w' \<and> (err = FF_ERR_NONE \<or> err = FF_ERR_DEVICE_DRIVER_FAILED)"
    using assms unfolding card_write_def Let_def case_prod_beta
    by (auto simp del: tx.simps write_blocks.simps split: bind_splits if_splits option.splits dest!: card_fail_result dest: write_blocks_result)
  then show "released w'" "err = FF_ERR_NONE \<or> err = FF_ERR_DEVICE_DRIVER_FAILED" by simp_all
qed



text \<open>A card that never answers (the bus stays high), with a clock that goes on.\<close>

definition dead_card :: world where
  "dead_card =
     \<lparr>trace = [], reply = (\<lambda>_. 0xFF), elapsed = (\<lambda>h. length (filter (\<lambda>e. e = Clock) h)), msgs = []\<rparr>"

definition new_card :: card where
  "new_card = \<lparr>cardType = CARDTYPE_NONE, cardDetected = False, writeStateActive = False, detect_delay = 0\<rparr>"

lemma dead_card_ticking: "ticking (elapsed dead_card)"
proof -
  have "Clock \<notin> set es \<Longrightarrow> filter (\<lambda>e. e = Clock) es = []" for es by (auto simp: filter_empty_conv)
  then show ?thesis by (simp add: dead_card_def ticking_def)
qed


subsection \<open>The checksum of a command\<close>

text \<open>
  Bit strings, the most significant bit first, as polynomials over the field with two elements, and
  the remainder of the division by \<open>x^7 + x^3 + 1\<close>, the long way.
\<close>

definition gen7 :: "bool list" where
  "gen7 = [False, False, False, True, False, False, True]"

definition xorl :: "bool list \<Rightarrow> bool list \<Rightarrow> bool list" where
  "xorl r xs = map2 (\<noteq>) r (take (length r) xs) @ drop (length r) xs"

lemma length_xorl [simp]: "length (xorl r xs) = length xs" if "length r \<le> length xs"
  using that by (simp add: xorl_def)

function poly_rem :: "bool list \<Rightarrow> bool list" where
  "poly_rem xs =
     (if length xs < 8 then xs
      else poly_rem (if hd xs then xorl gen7 (tl xs) else tl xs))"
  by pat_completeness auto
termination
  by (relation "measure length") (auto simp: gen7_def)

declare poly_rem.simps [simp del]

definition byte_bits :: "u8 \<Rightarrow> bool list" where
  "byte_bits b = map (bit b) [7, 6, 5, 4, 3, 2, 1, 0]"

text \<open>The register of the checksum, and what one bit does to it.\<close>

definition crc_reg :: "u8 \<Rightarrow> bool list" where
  "crc_reg crc = map (bit crc) [6, 5, 4, 3, 2, 1, 0]"

definition crc_step :: "bool list \<Rightarrow> bool \<Rightarrow> bool list" where
  "crc_step r b = (if hd r \<noteq> b then xorl gen7 (tl r @ [False]) else tl r @ [False])"

lemma and_0x80: "(c AND 0x80 \<noteq> 0) = bit (c :: u8) 7"
proof -
  have "c AND 0x80 = (if bit c 7 then 0x80 else 0)"
    by (rule u8_eqI) (auto simp: bit_and_iff)
  then show ?thesis by simp
qed

lemma bit_double: "bit (c * 2 :: u8) n \<longleftrightarrow> 0 < n \<and> n < 8 \<and> bit c (n - 1)"
proof -
  have "c * 2 = push_bit 1 c" by (simp add: push_bit_eq_mult)
  then show ?thesis unfolding bit_push_bit_iff [of 1 c, simplified] by (auto simp: bit_push_bit_iff)
qed

lemma crc_reg_bit: "crc_reg (crc_bit b crc) = crc_step (crc_reg crc) b"
proof -
  have e: "bit (0x09 :: u8) n = (n = 0 \<or> n = 3)" if "n < 8" for n
  proof -
    have "\<forall>n \<in> set [0..<8]. bit (0x09 :: u8) n = (n = 0 \<or> n = 3)" by code_simp
    then show ?thesis using that by simp
  qed
  show ?thesis
    by (simp only: crc_bit_def Let_def and_0x80)
       (auto simp: crc_reg_def crc_step_def xorl_def gen7_def bit_xor_iff bit_double e)
qed

lemma crc_bits_fold:
  "n \<le> 8 \<Longrightarrow> crc_reg (crc_bits n c crc) = foldl crc_step (crc_reg crc) (map (\<lambda>i. bit c (7 - i)) [0..<n])"
proof (induction n arbitrary: c crc)
  case (Suc n)
  have m: "map (\<lambda>i. bit (push_bit 1 c) (7 - i)) [0..<n] = map (\<lambda>i. bit c (7 - Suc i)) [0..<n]"
    using Suc.prems by (auto simp: bit_double)
  have n: "map (\<lambda>i. bit c (7 - i)) [0..<Suc n] = bit c 7 # map (\<lambda>i. bit c (7 - Suc i)) [0..<n]"
    by (simp add: upt_conv_Cons map_Suc_upt [symmetric] comp_def del: upt_Suc)
  have "crc_reg (crc_bits n (push_bit 1 c) (crc_bit (bit c 7) crc)) =
      foldl crc_step (crc_step (crc_reg crc) (bit c 7)) (map (\<lambda>i. bit c (7 - Suc i)) [0..<n])"
    unfolding m [symmetric] crc_reg_bit [symmetric] using Suc.prems by (intro Suc.IH) simp
  then show ?case unfolding n crc_bits.simps(2) and_0x80 foldl_Cons .
qed simp

lemma MMC_CRC_fold: "crc_reg (MMC_CRC c crc) = foldl crc_step (crc_reg crc) (byte_bits c)"
proof -
  have "byte_bits c = map (\<lambda>i. bit c (7 - i)) [0..<8]" by (simp add: byte_bits_def upt_rec)
  then show ?thesis by (simp add: MMC_CRC_def crc_bits_fold)
qed

lemma length_crc_step [simp]: "length r = 7 \<Longrightarrow> length (crc_step r b) = 7"
  by (simp add: crc_step_def gen7_def)

lemma xorl_step:
  assumes "length r = 7" "7 \<le> length q"
  shows "poly_rem (xorl r (b # q)) = poly_rem (xorl (crc_step r b) q)"
proof -
  obtain r6 r5 r4 r3 r2 r1 r0 where r: "r = [r6, r5, r4, r3, r2, r1, r0]"
    using assms(1) by (auto simp: eval_nat_numeral length_Suc_conv)
  obtain q6 q5 q4 q3 q2 q1 q0 qs where q: "q = q6 # q5 # q4 # q3 # q2 # q1 # q0 # qs"
    using assms(2) by (auto simp: eval_nat_numeral Suc_le_length_iff)
  show ?thesis
    by (subst poly_rem.simps) (auto simp: r q xorl_def crc_step_def gen7_def)
qed

lemma xorl_foldl:
  "length r = 7 \<Longrightarrow> 7 \<le> length q \<Longrightarrow> poly_rem (xorl r (bs @ q)) = poly_rem (xorl (foldl crc_step r bs) q)"
  by (induction bs arbitrary: r) (simp_all add: xorl_step)

lemma length_foldl_crc_step: "length r = 7 \<Longrightarrow> length (foldl crc_step r bs) = 7"
  by (induction bs arbitrary: r) simp_all

lemma xorl_zeros: "7 \<le> length q \<Longrightarrow> xorl (replicate 7 False) q = q"
  by (simp add: xorl_def list_eq_iff_nth_eq nth_append)

lemma poly_rem_register:
  assumes "7 \<le> length q"
  shows "poly_rem (bs @ q) = poly_rem (xorl (foldl crc_step (replicate 7 False) bs) q)"
  using xorl_foldl [of "replicate 7 False" q bs] assms by (simp add: xorl_zeros)

text \<open>
  C29. The six bytes of a command are a code word of the card's checksum: the command, the argument in
  big-endian order, and in the upper seven bits of the last byte the remainder of their division by
  \<open>x^7 + x^3 + 1\<close>, so that the division of the whole word leaves nothing; the last bit is set.
\<close>

theorem mmc_frame_code_word:
  "let f = mmc_frame cmd arg; bits = concat (map byte_bits f); msg = take 40 bits
   in take 5 f = cmd # be32 arg \<and> length bits = 48 \<and> last bits \<and>
      poly_rem (msg @ replicate 7 False) = butlast (byte_bits (last f)) \<and>
      poly_rem (butlast bits) = replicate 7 False"
proof -
  define crc where "crc = MMC_CRC (byte_of 0 arg) (MMC_CRC (byte_of 1 arg) (MMC_CRC (byte_of 2 arg)
      (MMC_CRC (byte_of 3 arg) (MMC_CRC cmd 0))))"
  have f: "mmc_frame cmd arg = cmd # be32 arg @ [push_bit 1 crc + 1]"
    by (simp add: mmc_frame_def crc_def be32_def)
  define msg where "msg = concat (map byte_bits (cmd # be32 arg))"
  have len: "length msg = 40" by (simp add: msg_def byte_bits_def be32_def)
  have "even (crc * 2)" using bit_double [of crc 0] by (simp add: bit_0)
  then have eq: "push_bit 1 crc + 1 = (crc * 2) OR 1" by (simp add: or_one_eq push_bit_eq_mult)
  have last: "byte_bits (push_bit 1 crc + 1) = crc_reg crc @ [True]"
    unfolding eq byte_bits_def bit_or_iff bit_double list.map by (simp add: crc_reg_def bit_1_iff)
  have fold: "crc_reg crc = foldl crc_step (replicate 7 False) msg"
  proof -
    have "crc_reg 0 = replicate 7 False" by (simp add: crc_reg_def eval_nat_numeral)
    then show ?thesis by (simp add: crc_def msg_def be32_def MMC_CRC_fold)
  qed
  have rl: "length (crc_reg crc) = 7" by (simp add: crc_reg_def)
  have bits: "concat (map byte_bits (mmc_frame cmd arg)) = msg @ crc_reg crc @ [True]"
  proof -
    have "concat (map byte_bits (cmd # be32 arg @ [x])) = msg @ byte_bits x" for x by (simp add: msg_def be32_def)
    then show ?thesis unfolding f last [symmetric] .
  qed
  have x0: "xorl r (replicate 7 False) = r" "xorl r r = replicate 7 False" if "length r = 7" for r
    using that by (simp_all add: xorl_def list_eq_iff_nth_eq)
  have "poly_rem (msg @ replicate 7 False) = crc_reg crc"
    using poly_rem_register [of "replicate 7 False" msg] x0 [OF rl] rl unfolding fold [symmetric]
    by (simp add: poly_rem.simps)
  moreover have "poly_rem (msg @ crc_reg crc) = replicate 7 False"
    using poly_rem_register [of "crc_reg crc" msg] x0 [OF rl] rl unfolding fold [symmetric]
    by (simp add: poly_rem.simps)
  ultimately show ?thesis
    unfolding Let_def bits unfolding f last_ConsR last_append using last
    by (simp add: len rl butlast_append be32_def del: push_bit_eq_mult)
qed

end
