(* ===== verification/CardDevice.thy ===== *)
theory CardDevice
  imports Card
begin

text \<open>
  A reference card, and the driver of \<open>card.c\<close> on it.  The reference card is an SD card in SPI mode, as
  the specification of the protocol describes it: it collects the six bytes of a command, queues its
  answer, streams sectors, and stores the blocks it receives.  It answers without delay and does not
  check the checksum, which is the default in SPI mode.
\<close>

datatype sdmode = SdIdle | SdStream u32 | SdToken u32 bool | SdReceive u32 bool "u8 list"

record sdcard =
  sectors_of :: "u32 \<Rightarrow> u8 list"
  high_capacity :: bool
  selected :: bool
  inframe :: "u8 list"
  outq :: "u8 list"
  sd_mode :: sdmode

definition sd_block :: "u8 list \<Rightarrow> u8 list" where
  "sd_block dat = 0xFE # dat @ [0xFF, 0xFF]"

text \<open>The byte it sends next, and the state after sending it.\<close>

definition sd_out :: "sdcard \<Rightarrow> u8" where
  "sd_out d =
     (if \<not> selected d then 0xFF
      else case outq d of
        x # _ \<Rightarrow> x
      | [] \<Rightarrow> (case sd_mode d of SdStream s \<Rightarrow> 0xFE | _ \<Rightarrow> 0xFF))"

definition sd_pop :: "sdcard \<Rightarrow> sdcard" where
  "sd_pop d =
     (case outq d of
        _ # xs \<Rightarrow> d\<lparr>outq := xs\<rparr>
      | [] \<Rightarrow> (case sd_mode d of
                 SdStream s \<Rightarrow> d\<lparr>outq := sectors_of d s @ [0xFF, 0xFF], sd_mode := SdStream (s + 1)\<rparr>
               | _ \<Rightarrow> d))"

definition sd_exec :: "sdcard \<Rightarrow> u8 \<Rightarrow> u32 \<Rightarrow> sdcard" where
  "sd_exec d cmd arg =
     (let s = (if high_capacity d then arg else drop_bit 9 arg)
      in if cmd = CMD13 then d\<lparr>outq := [0xFF, 0x00, 0x00]\<rparr>
         else if cmd = CMD17 then d\<lparr>outq := [0xFF, 0x00] @ sd_block (sectors_of d s)\<rparr>
         else if cmd = CMD18 then d\<lparr>outq := [0xFF, 0x00], sd_mode := SdStream s\<rparr>
         else if cmd = CMD12 then d\<lparr>outq := [0xFF, 0x00], sd_mode := SdIdle\<rparr>
         else if cmd = CMD24 then d\<lparr>outq := [0xFF, 0x00], sd_mode := SdToken s False\<rparr>
         else if cmd = CMD25 then d\<lparr>outq := [0xFF, 0x00], sd_mode := SdToken s True\<rparr>
         else if cmd = CMD55 \<or> cmd = CMD23 then d\<lparr>outq := [0xFF, 0x00]\<rparr>
         else d\<lparr>outq := [0xFF, 0x04]\<rparr>)"

text \<open>A byte on the bus: one byte out, one byte in.\<close>

definition sd_byte :: "sdcard \<Rightarrow> u8 \<Rightarrow> sdcard" where
  "sd_byte d b =
     (let d = sd_pop d
      in case sd_mode d of
           SdReceive s multi bs \<Rightarrow>
             (let bs = bs @ [b]
              in if length bs < 514 then d\<lparr>sd_mode := SdReceive s multi bs\<rparr>
                 else d\<lparr>sectors_of := (sectors_of d)(s := take 512 bs), outq := [0x05],
                        sd_mode := if multi then SdToken (s + 1) True else SdIdle\<rparr>)
         | SdToken s multi \<Rightarrow>
             (if b = (if multi then 0xFC else 0xFE) then d\<lparr>sd_mode := SdReceive s multi []\<rparr>
              else if multi \<and> b = 0xFD then d\<lparr>sd_mode := SdIdle\<rparr> else d)
         | _ \<Rightarrow>
             (if inframe d = [] \<and> b AND 0xC0 \<noteq> 0x40 then d
              else if length (inframe d) < 5 then d\<lparr>inframe := inframe d @ [b]\<rparr>
              else case inframe d of
                     [c, a3, a2, a1, a0] \<Rightarrow> sd_exec (d\<lparr>inframe := []\<rparr>) c (of_le32 a0 a1 a2 a3)
                   | _ \<Rightarrow> d))"

fun sd_event :: "sdcard \<Rightarrow> event \<Rightarrow> sdcard" where
  "sd_event d (Enable PortCard) = d\<lparr>selected := True\<rparr>"
| "sd_event d (Disable PortCard) = d\<lparr>selected := False, inframe := []\<rparr>"
| "sd_event d (Xfer b) = (if selected d then sd_byte d b else d)"
| "sd_event d _ = d"

text \<open>\<open>attached w d\<close>: the slave of \<open>w\<close> is a reference card, now in the state \<open>d\<close>.\<close>

definition sd_reply :: "sdcard \<Rightarrow> event list \<Rightarrow> u8" where
  "sd_reply d0 h = sd_out (foldl sd_event d0 (butlast h))"

definition attached :: "world \<Rightarrow> sdcard \<Rightarrow> bool" where
  "attached w d \<longleftrightarrow> (\<exists>d0. reply w = sd_reply d0 \<and> foldl sd_event d0 (trace w) = d)"

lemma attached_say [simp]: "attached (say m w) d = attached w d"
  by (simp add: attached_def)

lemma attached_emit: "attached w d \<Longrightarrow> attached (emit e w) (sd_event d e)"
  by (auto simp: attached_def)

lemma attached_rSPI:
  assumes "attached w d"
  shows "fst (rSPI b w) = sd_out d" "attached (snd (rSPI b w)) (sd_event d (Xfer b))"
  using assms by (auto simp: attached_def sd_reply_def)

lemma attached_Timer: "attached w d \<Longrightarrow> attached (snd (Timer_Get t w)) d" "attached w d \<Longrightarrow> attached (snd (Timer_Check t w)) d"
  by (auto simp: attached_def)

text \<open>Bytes \<open>0xFF\<close> only move the queue.\<close>

definition listening :: "sdcard \<Rightarrow> bool" where
  "listening d \<longleftrightarrow> selected d \<and> inframe d = [] \<and> (\<forall>s multi bs. sd_mode d \<noteq> SdReceive s multi bs)"

lemma sd_pop_sel [simp]:
  "selected (sd_pop d) = selected d" "inframe (sd_pop d) = inframe d"
  "high_capacity (sd_pop d) = high_capacity d" "sectors_of (sd_pop d) = sectors_of d"
  by (simp_all add: sd_pop_def split: list.splits sdmode.splits)

lemma sd_pop_mode: "sd_mode (sd_pop d) = sd_mode d \<or> (\<exists>s s'. sd_mode d = SdStream s \<and> sd_mode (sd_pop d) = SdStream s')"
  by (auto simp: sd_pop_def split: list.splits sdmode.splits)

lemma sd_pop_queue [simp]: "outq d = x # xs \<Longrightarrow> sd_pop d = d\<lparr>outq := xs\<rparr>"
  by (simp add: sd_pop_def)

lemma sd_pop_empty: "outq d = [] \<Longrightarrow> (\<And>s. sd_mode d \<noteq> SdStream s) \<Longrightarrow> sd_pop d = d"
  by (simp add: sd_pop_def split: sdmode.splits)

lemma listening_pop: "listening d \<Longrightarrow> listening (sd_pop d)"
  using sd_pop_mode [of d] by (auto simp: listening_def)

lemma sd_event_FF: "listening d \<Longrightarrow> sd_event d (Xfer 0xFF) = sd_pop d"
  using sd_pop_mode [of d] by (cases "sd_mode d") (auto simp: listening_def sd_byte_def)

lemma rSPI_listening:
  assumes "attached w d" "listening d"
  obtains w' where "rSPI 0xFF w = (sd_out d, w')" "attached w' (sd_pop d)"
  using attached_rSPI [OF assms(1), of "0xFF"] sd_event_FF [OF assms(2)] that [of "snd (rSPI 0xFF w)"]
  by (simp add: prod_eq_iff del: rSPI_sel sd_event.simps)

lemma rSPI_queue:
  assumes "attached w d" "listening d" "outq d = x # xs"
  obtains w' where "rSPI 0xFF w = (x, w')" "attached w' (d\<lparr>outq := xs\<rparr>)"
  using rSPI_listening [OF assms(1,2)] assms(2,3) by (auto simp: sd_out_def listening_def)

lemma rSPI_silent:
  assumes "attached w d" "listening d" "outq d = []" "\<And>s. sd_mode d \<noteq> SdStream s"
  obtains w' where "rSPI 0xFF w = (0xFF, w')" "attached w' d"
proof -
  have "sd_out d = 0xFF" "sd_pop d = d"
    using assms(2-4) sd_pop_empty by (auto simp: sd_out_def split: sdmode.splits)
  then show ?thesis using rSPI_listening [OF assms(1,2)] that by metis
qed

lemma listening_outq [simp]: "listening (d\<lparr>outq := xs\<rparr>) = listening d"
  by (simp add: listening_def)

lemma read_queue:
  "attached w d \<Longrightarrow> listening d \<Longrightarrow> outq d = dat @ rest \<Longrightarrow>
     \<exists>w'. SPI_ReadBufferSingle (replicate (length dat) 0xFF) w = (dat, w') \<and> attached w' (d\<lparr>outq := rest\<rparr>)"
proof (induction dat arbitrary: w d)
  case Nil
  have "d = d\<lparr>outq := rest\<rparr>" using Nil(3) by (cases d) simp
  with Nil(1) show ?case by simp
next
  case (Cons x dat)
  then obtain w1 where w1: "rSPI 0xFF w = (x, w1)" "attached w1 (d\<lparr>outq := dat @ rest\<rparr>)"
    using rSPI_queue [OF Cons.prems(1,2), of x "dat @ rest"] by auto
  from Cons.IH [OF w1(2)] Cons.prems(2) obtain w2 where
    "SPI_ReadBufferSingle (replicate (length dat) 0xFF) w1 = (dat, w2)" "attached w2 (d\<lparr>outq := rest\<rparr>)" by auto
  then show ?case by (simp add: w1(1))
qed

lemma tx_queue:
  assumes "attached w d" "listening d" "outq d = dat @ rest"
  shows "attached (tx (replicate (length dat) 0xFF) w) (d\<lparr>outq := rest\<rparr>)"
  using assms
proof (induction dat arbitrary: w d)
  case (Cons x dat)
  then obtain w1 where w1: "rSPI 0xFF w = (x, w1)" "attached w1 (d\<lparr>outq := dat @ rest\<rparr>)"
    using rSPI_queue [OF Cons.prems(1,2), of x "dat @ rest"] by auto
  from Cons.IH [OF w1(2)] Cons.prems(2) show ?case by (simp add: w1(1))
next
  case Nil
  have "d = d\<lparr>outq := rest\<rparr>" using Nil(3) by (cases d) simp
  with Nil(1) show ?case by simp
qed

text \<open>A command: the frame is taken in whatever is being sent.\<close>

lemma attached_tx: "attached w d \<Longrightarrow> attached (tx bs w) (foldl (\<lambda>d b. sd_event d (Xfer b)) d bs)"
proof (induction bs arbitrary: w d)
  case (Cons b bs)
  then show ?case using Cons.IH [OF attached_rSPI(2) [OF Cons.prems]] by (simp del: rSPI_sel sd_event.simps)
qed simp

lemma of_le32_be32: "of_le32 (byte_of 0 v) (byte_of 1 v) (byte_of 2 v) (byte_of 3 v) = v"
  by (rule of_le32_le32)

definition taking :: "sdcard \<Rightarrow> bool" where
  "taking d \<longleftrightarrow> selected d \<and> (sd_mode d = SdIdle \<or> (\<exists>s. sd_mode d = SdStream s))"

lemma sd_byte_frame:
  assumes "taking d" "inframe d \<noteq> [] \<or> b AND 0xC0 = 0x40" "length (inframe d) < 5"
  shows "\<exists>d'. sd_event d (Xfer b) = d'\<lparr>inframe := inframe d @ [b]\<rparr> \<and> taking d' \<and> inframe d' = [] \<and>
    high_capacity d' = high_capacity d \<and> sectors_of d' = sectors_of d \<and>
    (sd_mode d = SdIdle \<and> outq d = [] \<longrightarrow> d' = d\<lparr>inframe := []\<rparr>)"
proof (intro exI conjI)
  show "sd_event d (Xfer b) = (sd_pop d)\<lparr>inframe := []\<rparr>\<lparr>inframe := inframe d @ [b]\<rparr>"
    using assms sd_pop_mode [of d] by (cases "sd_mode d") (auto simp: taking_def sd_byte_def)
  show "taking ((sd_pop d)\<lparr>inframe := []\<rparr>)" using assms(1) sd_pop_mode [of d] by (auto simp: taking_def)
qed (auto simp: sd_pop_empty)

lemma sd_frame_prefix:
  assumes "taking d" "inframe d = []" "cmd AND 0xC0 = 0x40"
  shows "length bs \<le> 4 \<Longrightarrow> \<exists>d'. foldl (\<lambda>d b. sd_event d (Xfer b)) d (cmd # bs) = d'\<lparr>inframe := cmd # bs\<rparr> \<and>
    taking d' \<and> inframe d' = [] \<and> high_capacity d' = high_capacity d \<and> sectors_of d' = sectors_of d \<and>
    (sd_mode d = SdIdle \<and> outq d = [] \<longrightarrow> d' = d)"
proof (induction bs rule: rev_induct)
  case Nil
  have "d\<lparr>inframe := []\<rparr> = d" using assms(2) by simp
  with sd_byte_frame [of d cmd] assms show ?case by (auto simp del: sd_event.simps)
next
  case (snoc b bs)
  then obtain d1 where d1: "foldl (\<lambda>d b. sd_event d (Xfer b)) d (cmd # bs) = d1\<lparr>inframe := cmd # bs\<rparr>"
    "taking d1" "inframe d1 = []" "high_capacity d1 = high_capacity d" "sectors_of d1 = sectors_of d"
    "sd_mode d = SdIdle \<and> outq d = [] \<longrightarrow> d1 = d" by (auto simp del: sd_event.simps)
  have t: "taking (d1\<lparr>inframe := cmd # bs\<rparr>)" using d1(2) by (simp add: taking_def)
  from sd_byte_frame [OF t, of b] snoc.prems obtain d2 where
    "sd_event (d1\<lparr>inframe := cmd # bs\<rparr>) (Xfer b) = d2\<lparr>inframe := cmd # bs @ [b]\<rparr>"
    "taking d2" "inframe d2 = []" "high_capacity d2 = high_capacity d1" "sectors_of d2 = sectors_of d1"
    "sd_mode d1 = SdIdle \<and> outq d1 = [] \<longrightarrow> d2 = d1\<lparr>inframe := []\<rparr>" by auto
  moreover have "d1\<lparr>inframe := []\<rparr> = d1" using d1(3) by simp
  ultimately show ?case using d1 by (intro exI [of _ d2]) (auto simp del: sd_event.simps)
qed

lemma sd_frame:
  assumes "attached w d" "taking d" "inframe d = []" "cmd AND 0xC0 = 0x40"
  shows "\<exists>d'. attached (tx (mmc_frame cmd arg) w) (sd_exec d' cmd arg) \<and>
    taking d' \<and> inframe d' = [] \<and> high_capacity d' = high_capacity d \<and> sectors_of d' = sectors_of d \<and>
    (sd_mode d = SdIdle \<and> outq d = [] \<longrightarrow> d' = d)"
proof -
  obtain crc where f: "mmc_frame cmd arg = (cmd # [byte_of 3 arg, byte_of 2 arg, byte_of 1 arg, byte_of 0 arg]) @ [crc]"
    by (simp add: mmc_frame_def Let_def)
  from sd_frame_prefix [OF assms(2-4), of "[byte_of 3 arg, byte_of 2 arg, byte_of 1 arg, byte_of 0 arg]"] obtain d1 where
    d1: "foldl (\<lambda>d b. sd_event d (Xfer b)) d (cmd # [byte_of 3 arg, byte_of 2 arg, byte_of 1 arg, byte_of 0 arg])
      = d1\<lparr>inframe := [cmd, byte_of 3 arg, byte_of 2 arg, byte_of 1 arg, byte_of 0 arg]\<rparr>"
    "taking d1" "inframe d1 = []" "high_capacity d1 = high_capacity d" "sectors_of d1 = sectors_of d"
    "sd_mode d = SdIdle \<and> outq d = [] \<longrightarrow> d1 = d" by (auto simp del: sd_event.simps)
  let ?e = "d1\<lparr>inframe := [cmd, byte_of 3 arg, byte_of 2 arg, byte_of 1 arg, byte_of 0 arg]\<rparr>"
  have p: "(sd_pop ?e)\<lparr>inframe := []\<rparr> = sd_pop d1"
    using d1(3) by (simp add: sd_pop_def split: list.splits sdmode.splits)
  have "sd_event ?e (Xfer crc) = sd_exec ((sd_pop ?e)\<lparr>inframe := []\<rparr>) cmd arg"
    using d1(2) sd_pop_mode [of ?e]
    by (cases "sd_mode d1") (auto simp: taking_def sd_byte_def of_le32_le32 [unfolded One_nat_def])
  then have "attached (tx (mmc_frame cmd arg) w) (sd_exec (sd_pop d1) cmd arg)"
    using attached_tx [OF assms(1), of "mmc_frame cmd arg"]
    unfolding f foldl_append d1(1) p by (simp del: sd_event.simps)
  moreover have "taking (sd_pop d1)" using d1(2) sd_pop_mode [of d1] by (auto simp: taking_def)
  ultimately show ?thesis using d1(3-6) by (intro exI [of _ "sd_pop d1"]) (auto simp: sd_pop_empty)
qed

text \<open>The answer to a command that the card takes when it is idle.\<close>

lemma mmc_poll_answer:
  assumes "attached w d" "listening d" "outq d = [0xFF, r] @ rest" "r \<noteq> 0xFF"
  shows "\<exists>w'. mmc_poll (\<lambda>r. r = 0xFF) 100 w = (r, w') \<and> attached w' (d\<lparr>outq := rest\<rparr>)"
proof -
  obtain w1 where w1: "rSPI 0xFF w = (0xFF, w1)" "attached w1 (d\<lparr>outq := r # rest\<rparr>)"
    using rSPI_queue [OF assms(1,2), of "0xFF" "r # rest"] assms(3) by auto
  obtain w2 where w2: "rSPI 0xFF w1 = (r, w2)" "attached w2 (d\<lparr>outq := rest\<rparr>)"
    using rSPI_queue [OF w1(2), of r rest] assms(2) by auto
  have n: "(100 :: nat) = Suc (Suc 98)" by simp
  have "mmc_poll (\<lambda>r. r = 0xFF) 100 w = (r, w2)"
    unfolding n mmc_poll.simps(2) w1(1) w2(1) Let_def prod.case using assms(4) by simp
  with w2 show ?thesis by blast
qed

definition sd_idle :: "sdcard \<Rightarrow> bool" where
  "sd_idle d \<longleftrightarrow> selected d \<and> inframe d = [] \<and> outq d = [] \<and> sd_mode d = SdIdle"

lemma MMC_Command_idle:
  assumes "attached w d" "sd_idle d" "cmd AND 0xC0 = 0x40"
    and "outq (sd_exec d cmd arg) = [0xFF, r] @ rest" "r \<noteq> 0xFF" "listening (sd_exec d cmd arg)"
  shows "\<exists>w'. MMC_Command cmd arg w = (r, w') \<and> attached w' ((sd_exec d cmd arg)\<lparr>outq := rest\<rparr>)"
proof -
  have d: "listening d" "taking d" "inframe d = []" "outq d = []" "sd_mode d = SdIdle"
    using assms(2) by (simp_all add: sd_idle_def listening_def taking_def)
  obtain w1 where w1: "rSPI 0xFF w = (0xFF, w1)" "attached w1 d"
    using rSPI_silent [OF assms(1) d(1,4)] d(5) by auto
  have n: "(100 :: nat) = Suc 99" by simp
  have fl: "mmc_poll (\<lambda>r. r \<noteq> 0xFF) 100 w = (0xFF, w1)"
    unfolding n mmc_poll.simps(2) w1(1) Let_def prod.case by simp
  have "attached (tx (mmc_frame cmd arg) w1) (sd_exec d cmd arg)"
    using sd_frame [OF w1(2) d(2,3) assms(3), of arg] d(4,5) by auto
  from mmc_poll_answer [OF this assms(6,4,5)] fl show ?thesis by (simp add: MMC_Command_def)
qed

text \<open>The commands that the driver gives an idle card.\<close>

lemma sd_idle_simps: "sd_idle d \<Longrightarrow> listening d \<and> taking d \<and> inframe d = [] \<and> outq d = [] \<and> sd_mode d = SdIdle \<and> selected d"
  by (simp add: sd_idle_def listening_def taking_def)

lemma sd_idle_outq: "sd_idle d \<Longrightarrow> d\<lparr>outq := []\<rparr> = d"
  by (cases d) (simp add: sd_idle_def)

lemma cmd_simple:
  assumes "attached w d" "sd_idle d" "cmd = CMD55 \<or> cmd = CMD23"
  shows "\<exists>w'. MMC_Command cmd arg w = (0, w') \<and> attached w' d"
proof -
  have e: "sd_exec d cmd arg = d\<lparr>outq := [0xFF, 0x00]\<rparr>"
    unfolding sd_exec_def Let_def by (rule disjE [OF assms(3)]) (hypsubst, simp)+
  have "listening (sd_exec d cmd arg)" using sd_idle_simps [OF assms(2)] by (simp add: e)
  moreover have "cmd AND 0xC0 = 0x40" by (rule disjE [OF assms(3)]) (hypsubst, simp)+
  ultimately show ?thesis
    using MMC_Command_idle [OF assms(1,2), of cmd arg 0 "[]"] sd_idle_outq [OF assms(2)] by (simp add: e)
qed

lemma Card_GetStatus_idle:
  assumes "attached w d" "sd_idle d"
  shows "\<exists>w'. Card_GetStatus w = (True, w') \<and> attached w' d"
proof -
  have e: "sd_exec d CMD13 0 = d\<lparr>outq := [0xFF, 0x00, 0x00]\<rparr>" by (simp add: sd_exec_def)
  note i = sd_idle_simps [OF assms(2)]
  have "listening (sd_exec d CMD13 0)" using i by (simp add: e)
  then obtain w1 where w1: "MMC_Command CMD13 0 w = (0, w1)" "attached w1 (d\<lparr>outq := [0x00]\<rparr>)"
    using MMC_Command_idle [OF assms, of CMD13 0 0 "[0x00]"] by (auto simp: e)
  obtain w2 where w2: "rSPI 0xFF w1 = (0x00, w2)" "attached w2 (d\<lparr>outq := []\<rparr>)"
    using rSPI_queue [OF w1(2), of "0x00" "[]"] i by auto
  show ?thesis using w1(1) w2 sd_idle_outq [OF assms(2)] by (simp add: Card_GetStatus_def)
qed

lemma card_wait_now:
  assumes "attached w d" "listening d" "good (sd_out d)"
  shows "\<exists>w'. card_wait limit good w = Some (True, w') \<and> attached w' (sd_pop d)"
proof -
  let ?w1 = "snd (Timer_Get limit w)"
  obtain w2 where w2: "rSPI 0xFF ?w1 = (sd_out d, w2)" "attached w2 (sd_pop d)"
    using rSPI_listening [OF attached_Timer(1) [OF assms(1)] assms(2)] .
  have "card_wait_loop good t ?w1 = Some (True, w2)" for t
    using assms(3) by (subst card_wait_loop.simps) (simp add: w2(1))
  with w2(2) show ?thesis by (simp add: card_wait_def case_prod_beta del: Timer_Get_sel)
qed

lemma Card_WaitXfer_idle:
  assumes "attached w d" "listening d" "outq d = []" "\<And>s. sd_mode d \<noteq> SdStream s"
  shows "\<exists>w'. Card_WaitXfer w = Some (True, w') \<and> attached w' d"
proof -
  have "sd_out d = 0xFF" "sd_pop d = d"
    using assms sd_pop_empty by (auto simp: sd_out_def split: sdmode.splits)
  then show ?thesis using card_wait_now [OF assms(1,2), of "\<lambda>b. b \<noteq> 0x00" 500] by (simp add: Card_WaitXfer_def)
qed

text \<open>Reading blocks.\<close>

lemma read_block_queue:
  assumes "attached w d" "listening d" "outq d = dat @ [0xFF, 0xFF] @ rest" "length dat = 512"
  shows "\<exists>w'. read_block False w = (dat, w') \<and> attached w' (d\<lparr>outq := rest\<rparr>)"
proof -
  obtain w1 where w1: "SPI_ReadBufferSingle (replicate 512 0xFF) w = (dat, w1)" "attached w1 (d\<lparr>outq := [0xFF, 0xFF] @ rest\<rparr>)"
    using read_queue [OF assms(1,2,3)] assms(4) by auto
  have "attached (tx (replicate (length [0xFF, 0xFF :: u8]) 0xFF) w1) (d\<lparr>outq := [0xFF, 0xFF] @ rest\<rparr>\<lparr>outq := rest\<rparr>)"
    by (rule tx_queue [OF w1(2)]) (use assms(2) in simp_all)
  moreover have "replicate (length [0xFF, 0xFF :: u8]) 0xFF = [0xFF, 0xFF :: u8]" by (simp add: numeral_2_eq_2)
  ultimately have "attached (tx [0xFF, 0xFF] w1) (d\<lparr>outq := rest\<rparr>)" by simp
  then show ?thesis unfolding read_block_def w1(1) by (simp add: w1(1) del: tx.simps)
qed

definition good_sectors :: "sdcard \<Rightarrow> bool" where
  "good_sectors d \<longleftrightarrow> (\<forall>s. length (sectors_of d s) = 512)"

lemma read_one:
  assumes "attached w d" "listening d" "outq d = sd_block dat" "length dat = 512"
  shows "\<exists>w'. read_blocks False sector 1 buf w = Some (FF_ERR_NONE, buf @ dat, w') \<and> attached w' (d\<lparr>outq := []\<rparr>)"
proof -
  have o: "sd_out d = 0xFE" using assms by (simp add: sd_out_def sd_block_def listening_def)
  obtain w1 where w1: "card_wait 250 (\<lambda>b. b = 0xFE) w = Some (True, w1)" "attached w1 (sd_pop d)"
    using card_wait_now [OF assms(1,2), of "\<lambda>b. b = 0xFE" 250] o by auto
  have p: "sd_pop d = d\<lparr>outq := dat @ [0xFF, 0xFF] @ []\<rparr>" using assms(3) by (simp add: sd_block_def)
  obtain w2 where w2: "read_block False w1 = (dat, w2)" "attached w2 (d\<lparr>outq := []\<rparr>)"
    using read_block_queue [OF w1(2), of dat "[]"] assms(2,4) by (auto simp: p)
  show ?thesis using w2 by (simp add: w1(1))
qed

lemma read_stream:
  "attached w d \<Longrightarrow> listening d \<Longrightarrow> outq d = [] \<Longrightarrow> sd_mode d = SdStream s \<Longrightarrow> good_sectors d \<Longrightarrow>
     \<exists>w'. read_blocks False sector n buf w
        = Some (FF_ERR_NONE, buf @ concat (map (\<lambda>i. sectors_of d (s + of_nat i)) [0..<n]), w') \<and>
      attached w' (d\<lparr>sd_mode := SdStream (s + of_nat n)\<rparr>)"
proof (induction n arbitrary: w d s buf)
  case 0
  have "d = d\<lparr>sd_mode := SdStream s\<rparr>" using 0(4) by (cases d) simp
  with 0(1) show ?case by simp
next
  case (Suc n)
  have o: "sd_out d = 0xFE" using Suc.prems by (simp add: sd_out_def listening_def)
  let ?dat = "sectors_of d s" and ?d1 = "d\<lparr>sd_mode := SdStream (s + 1)\<rparr>"
  obtain w1 where w1: "card_wait 250 (\<lambda>b. b = 0xFE) w = Some (True, w1)" "attached w1 (sd_pop d)"
    using card_wait_now [OF Suc.prems(1,2), of "\<lambda>b. b = 0xFE" 250] o by auto
  have p: "sd_pop d = ?d1\<lparr>outq := ?dat @ [0xFF, 0xFF] @ []\<rparr>" using Suc.prems(3,4) by (simp add: sd_pop_def)
  have l: "listening ?d1" using Suc.prems(2) by (simp add: listening_def)
  have len: "length ?dat = 512" using Suc.prems(5) by (simp add: good_sectors_def)
  have q: "?d1\<lparr>outq := []\<rparr> = ?d1" using Suc.prems(3) by (cases d) simp
  obtain w2 where w2: "read_block False w1 = (?dat, w2)" "attached w2 ?d1"
    using read_block_queue [OF w1(2), of ?dat "[]"] l len by (auto simp: p q)
  have g: "good_sectors ?d1" using Suc.prems(5) by (simp add: good_sectors_def)
  have e: "[0..<Suc n] = 0 # map Suc [0..<n]" by (simp add: map_Suc_upt upt_conv_Cons del: upt_Suc)
  from Suc.IH [OF w2(2) l _ _ g, of "s + 1" "buf @ ?dat"] Suc.prems(3) obtain w3 where
    "read_blocks False sector n (buf @ ?dat) w2
      = Some (FF_ERR_NONE, (buf @ ?dat) @ concat (map (\<lambda>i. sectors_of d (s + 1 + of_nat i)) [0..<n]), w3)"
    "attached w3 (d\<lparr>sd_mode := SdStream (s + 1 + of_nat n)\<rparr>)" by auto
  then show ?case by (simp add: w1(1) w2(1) e comp_def algebra_simps del: upt_Suc)
qed

text \<open>Stopping a stream.\<close>

lemma poll_stream:
  "attached w d \<Longrightarrow> listening d \<Longrightarrow> sd_mode d = SdStream s \<Longrightarrow>
     \<exists>r w' d' s'. mmc_poll again n w = (r, w') \<and> attached w' d' \<and> listening d' \<and> sd_mode d' = SdStream s' \<and>
       sectors_of d' = sectors_of d \<and> high_capacity d' = high_capacity d"
proof (induction n arbitrary: w d s)
  case 0
  obtain w1 where "rSPI 0xFF w = (sd_out d, w1)" "attached w1 (sd_pop d)" using rSPI_listening [OF 0(1,2)] .
  with 0 show ?case using listening_pop [OF 0(2)] sd_pop_mode [of d] by auto
next
  case (Suc n)
  obtain w1 where w1: "rSPI 0xFF w = (sd_out d, w1)" "attached w1 (sd_pop d)" using rSPI_listening [OF Suc.prems(1,2)] .
  obtain s1 where s1: "sd_mode (sd_pop d) = SdStream s1" using Suc.prems(3) sd_pop_mode [of d] by auto
  from Suc.IH [OF w1(2) listening_pop [OF Suc.prems(2)] s1] w1 listening_pop [OF Suc.prems(2)] s1 show ?case
    by (cases "again (sd_out d)") auto
qed

lemma MMC_Command12_stream:
  assumes "attached w d" "listening d" "sd_mode d = SdStream s"
  shows "\<exists>w' d'. MMC_Command12 w = Some (0, w') \<and> attached w' d' \<and> sd_idle d' \<and>
    sectors_of d' = sectors_of d \<and> high_capacity d' = high_capacity d"
proof -
  obtain r w1 d1 s1 where w1: "mmc_poll (\<lambda>r. r \<noteq> 0xFF) 100 w = (r, w1)" "attached w1 d1" "listening d1"
    "sd_mode d1 = SdStream s1" "sectors_of d1 = sectors_of d" "high_capacity d1 = high_capacity d"
    using poll_stream [OF assms] by blast
  have "taking d1" "inframe d1 = []" using w1(3,4) by (simp_all add: listening_def taking_def)
  from sd_frame [OF w1(2) this, of CMD12 0] obtain d2 where
    d2: "attached (tx (mmc_frame CMD12 0) w1) (sd_exec d2 CMD12 0)" "taking d2" "inframe d2 = []"
      "sectors_of d2 = sectors_of d" "high_capacity d2 = high_capacity d" using w1 by auto
  let ?d3 = "d2\<lparr>outq := [], sd_mode := SdIdle\<rparr>"
  have e: "sd_exec d2 CMD12 0 = ?d3\<lparr>outq := [0xFF, 0x00] @ []\<rparr>" by (simp add: sd_exec_def)
  have i: "sd_idle ?d3" using d2(2,3) by (simp add: sd_idle_def taking_def)
  have li: "listening (sd_exec d2 CMD12 0)" using d2(2,3) by (simp add: e listening_def taking_def)
  have e3: "(sd_exec d2 CMD12 0)\<lparr>outq := []\<rparr> = ?d3" by (simp add: e)
  have o: "outq (sd_exec d2 CMD12 0) = [0xFF, 0] @ []" by (simp add: e)
  from mmc_poll_answer [OF d2(1) li o] obtain w3 where
    w3: "mmc_poll (\<lambda>r. r = 0xFF) 100 (tx (mmc_frame CMD12 0) w1) = (0, w3)" "attached w3 ?d3" unfolding e3 by auto
  have c: "MMC_Command CMD12 0 w = (0, w3)" using w1(1) w3(1) by (simp add: MMC_Command_def)
  have "sd_out ?d3 = 0xFF" "sd_pop ?d3 = ?d3" by (simp_all add: sd_out_def sd_pop_def)
  then obtain w4 where w4: "card_wait 500 (\<lambda>b. b = 0xFF) w3 = Some (True, w4)" "attached w4 ?d3"
    using card_wait_now [OF w3(2), of "\<lambda>b. b = 0xFF" 500] sd_idle_simps [OF i] by auto
  then have "MMC_Command12 w = Some (0, w4)" by (simp add: MMC_Command12_def c)
  with w4(2) i d2(4,5) show ?thesis by auto
qed

subsection \<open>The driver on the reference card\<close>

text \<open>
  Between the operations the card is deselected and idle.  \<open>fits c d s\<close>: the driver has found the kind of
  card that it is, and its command can name the sector \<open>s\<close>.
\<close>

definition sd_rest :: "sdcard \<Rightarrow> bool" where
  "sd_rest d \<longleftrightarrow> \<not> selected d \<and> inframe d = [] \<and> outq d = [] \<and> sd_mode d = SdIdle"

definition fits :: "card \<Rightarrow> sdcard \<Rightarrow> u32 \<Rightarrow> bool" where
  "fits c d s \<longleftrightarrow> high_capacity d = (cardType c = CARDTYPE_SDHC) \<and> (high_capacity d \<or> unat s < 2 ^ 23)"

lemma drop_push_sector: "unat (s :: u32) < 2 ^ 23 \<Longrightarrow> drop_bit 9 (push_bit 9 s) = s"
proof -
  assume a: "unat s < 2 ^ 23"
  have "unat (push_bit 9 s) = unat s * 2 ^ 9"
    using a by (simp add: push_bit_eq_mult unat_word_ariths)
  then have "unat (drop_bit 9 (push_bit 9 s)) = unat s"
    by (simp add: drop_bit_eq_div unat_div)
  then show ?thesis by (simp add: word_unat_eq_iff)
qed

lemma card_address_fits:
  assumes "fits c d s"
  shows "(if high_capacity d then card_address c s else drop_bit 9 (card_address c s)) = s"
  using assms drop_push_sector [of s] by (auto simp: fits_def card_address_def simp del: push_bit_eq_mult)

lemma SPI_EnableCard_rest:
  assumes "attached w d" "sd_rest d"
  shows "attached (SPI_EnableCard w) (d\<lparr>selected := True\<rparr>)" "sd_idle (d\<lparr>selected := True\<rparr>)"
  using attached_emit [OF assms(1), of "Enable PortCard"] assms(2)
  by (simp_all add: SPI_EnableCard_def sd_rest_def sd_idle_def)

lemma SPI_DisableCard_idle:
  assumes "attached w d" "sd_idle d"
  shows "attached (SPI_DisableCard w) (d\<lparr>selected := False\<rparr>)" "sd_rest (d\<lparr>selected := False\<rparr>)"
proof -
  have e: "sd_event d (Disable PortCard) = d\<lparr>selected := False\<rparr>" using assms(2) by (cases d) (simp add: sd_idle_def)
  have "attached (emit (Disable PortCard) w) (d\<lparr>selected := False\<rparr>)"
    using attached_emit [OF assms(1), of "Disable PortCard"] unfolding e .
  from attached_rSPI(2) [OF this, of "0xFF"] show "attached (SPI_DisableCard w) (d\<lparr>selected := False\<rparr>)"
    by (simp add: SPI_DisableCard_def)
  show "sd_rest (d\<lparr>selected := False\<rparr>)" using assms(2) by (simp add: sd_rest_def sd_idle_def)
qed

definition sectors_from :: "sdcard \<Rightarrow> u32 \<Rightarrow> nat \<Rightarrow> u8 list" where
  "sectors_from d s n = concat (map (\<lambda>i. sectors_of d (s + of_nat i)) [0..<n])"

text \<open>The transfer of a read, from the command to the stop command.\<close>

lemma read_single:
  assumes "attached w d" "sd_idle d" "good_sectors d" "fits c d s"
  obtains w1 w2 where "MMC_Command CMD17 (card_address c s) w = (0, w1)"
    "read_blocks False (card_address c s) 1 [] w1 = Some (FF_ERR_NONE, sectors_from d s 1, w2)" "attached w2 d"
proof -
  note i = sd_idle_simps [OF assms(2)]
  let ?e = "sd_exec d CMD17 (card_address c s)"
  have e: "?e = d\<lparr>outq := [0xFF, 0x00] @ sd_block (sectors_of d s)\<rparr>"
    using card_address_fits [OF assms(4)] by (simp add: sd_exec_def)
  have li: "listening ?e" unfolding e using i by simp
  obtain w1 where w1: "MMC_Command CMD17 (card_address c s) w = (0, w1)"
    "attached w1 (d\<lparr>outq := sd_block (sectors_of d s)\<rparr>)"
    using MMC_Command_idle [OF assms(1,2) _ _ _ li, of 0 "sd_block (sectors_of d s)"] by (auto simp: e)
  obtain w2 where "read_blocks False (card_address c s) 1 [] w1 = Some (FF_ERR_NONE, sectors_from d s 1, w2)"
    "attached w2 d"
    using read_one [OF w1(2), of "sectors_of d s" "card_address c s" "[]"] i assms(3) sd_idle_outq [OF assms(2)]
    by (auto simp: good_sectors_def sectors_from_def)
  with w1 that show ?thesis by blast
qed

lemma read_many:
  assumes "attached w d" "sd_idle d" "good_sectors d" "fits c d s"
  obtains w1 w2 w3 where "MMC_Command CMD18 (card_address c s) w = (0, w1)"
    "read_blocks False (card_address c s) n [] w1 = Some (FF_ERR_NONE, sectors_from d s n, w2)"
    "MMC_Command12 w2 = Some (0, w3)" "attached w3 d"
proof -
  note i = sd_idle_simps [OF assms(2)]
  let ?e = "sd_exec d CMD18 (card_address c s)"
  have e: "?e = d\<lparr>outq := [0xFF, 0x00], sd_mode := SdStream s\<rparr>"
    using card_address_fits [OF assms(4)] by (simp add: sd_exec_def)
  have li: "listening ?e" unfolding e using i by (simp add: listening_def)
  let ?d1 = "d\<lparr>sd_mode := SdStream s\<rparr>"
  have q: "?e\<lparr>outq := []\<rparr> = ?d1" unfolding e using i by (cases d) simp
  obtain w1 where w1: "MMC_Command CMD18 (card_address c s) w = (0, w1)" "attached w1 ?d1"
    using MMC_Command_idle [OF assms(1,2) _ _ _ li, of 0 "[]"] unfolding q by (auto simp: e)
  have l1: "listening ?d1" "good_sectors ?d1" using i assms(3) by (simp_all add: listening_def good_sectors_def)
  obtain w2 where w2: "read_blocks False (card_address c s) n [] w1 = Some (FF_ERR_NONE, sectors_from d s n, w2)"
    "attached w2 (?d1\<lparr>sd_mode := SdStream (s + of_nat n)\<rparr>)"
    using read_stream [OF w1(2) l1(1) _ _ l1(2), of s "card_address c s" n "[]"] i by (auto simp: sectors_from_def)
  let ?d2 = "?d1\<lparr>sd_mode := SdStream (s + of_nat n)\<rparr>"
  have "listening ?d2" using l1(1) by (simp add: listening_def)
  from MMC_Command12_stream [OF w2(2) this, of "s + of_nat n"] obtain w3 d3 where
    w3: "MMC_Command12 w2 = Some (0, w3)" "attached w3 d3" "sd_idle d3" "sectors_of d3 = sectors_of d"
      "high_capacity d3 = high_capacity d" by auto
  have "d3 = d" using w3(3-5) assms(2) by (cases d; cases d3) (simp add: sd_idle_def)
  with w1(1) w2(1) w3(1,2) that show ?thesis by blast
qed

lemma card_read_rest:
  assumes "attached w d" "sd_rest d" "good_sectors d" "fits c d s"
  shows "\<exists>w'. card_read c False s n w = Some (FF_ERR_NONE, sectors_from d s (unat n), w') \<and> attached w' d"
proof -
  let ?d = "d\<lparr>selected := True\<rparr>"
  note E = SPI_EnableCard_rest [OF assms(1,2)]
  note i = sd_idle_simps [OF E(2)]
  have g: "good_sectors ?d" "fits c ?d s" "sectors_from ?d = sectors_from d"
    using assms(3,4) by (auto simp: good_sectors_def fits_def sectors_from_def fun_eq_iff)
  obtain w1 where w1: "Card_WaitXfer (SPI_EnableCard w) = Some (True, w1)" "attached w1 ?d"
    using Card_WaitXfer_idle [OF E(1)] i by auto
  have "\<exists>w2 w3 w4. MMC_Command (if n = 1 then CMD17 else CMD18) (card_address c s) w1 = (0, w2) \<and>
      read_blocks False (card_address c s) (unat n) [] w2 = Some (FF_ERR_NONE, sectors_from d s (unat n), w3) \<and>
      (if n \<noteq> 1 then map_option snd (MMC_Command12 w3) else Some w3) = Some w4 \<and> attached w4 ?d"
  proof (cases "n = 1")
    case True
    obtain w2 w3 where "MMC_Command CMD17 (card_address c s) w1 = (0, w2)"
      "read_blocks False (card_address c s) 1 [] w2 = Some (FF_ERR_NONE, sectors_from d s 1, w3)" "attached w3 ?d"
      using read_single [OF w1(2) E(2) g(1,2)] unfolding g(3) by metis
    with True show ?thesis by (auto simp del: read_blocks.simps)
  next
    case False
    obtain w2 w3 w4 where "MMC_Command CMD18 (card_address c s) w1 = (0, w2)"
      "read_blocks False (card_address c s) (unat n) [] w2 = Some (FF_ERR_NONE, sectors_from d s (unat n), w3)"
      "MMC_Command12 w3 = Some (0, w4)" "attached w4 ?d"
      using read_many [OF w1(2) E(2) g(1,2)] unfolding g(3) by metis
    with False show ?thesis by (auto simp del: read_blocks.simps)
  qed
  then obtain w2 w3 w4 where t: "MMC_Command (if n = 1 then CMD17 else CMD18) (card_address c s) w1 = (0, w2)"
      "read_blocks False (card_address c s) (unat n) [] w2 = Some (FF_ERR_NONE, sectors_from d s (unat n), w3)"
      "(if n \<noteq> 1 then map_option snd (MMC_Command12 w3) else Some w3) = Some w4" "attached w4 ?d" by blast
  obtain w5 where w5: "Card_GetStatus w4 = (True, w5)" "attached w5 ?d"
    using Card_GetStatus_idle [OF t(4) E(2)] by blast
  have "card_read c False s n w = Some (FF_ERR_NONE, sectors_from d s (unat n), SPI_DisableCard w5)"
    unfolding card_read_def Let_def w1(1) by (simp add: t(1,2,3) w5(1) del: read_blocks.simps)
  moreover have "attached (SPI_DisableCard w5) d"
  proof -
    have "?d\<lparr>selected := False\<rparr> = d" using assms(2) by (cases d) (simp add: sd_rest_def)
    with SPI_DisableCard_idle(1) [OF w5(2) E(2)] show ?thesis by simp
  qed
  ultimately show ?thesis by blast
qed

text \<open>Writing blocks.\<close>

definition sd_token :: "sdcard \<Rightarrow> u32 \<Rightarrow> bool \<Rightarrow> bool" where
  "sd_token d s multi \<longleftrightarrow> selected d \<and> inframe d = [] \<and> outq d = [] \<and> sd_mode d = SdToken s multi"

lemma sd_receive:
  assumes "selected d" "outq d = []" "sd_mode d = SdReceive s multi bs" "length bs + length ys < 514"
  shows "foldl (\<lambda>d b. sd_event d (Xfer b)) d ys = d\<lparr>sd_mode := SdReceive s multi (bs @ ys)\<rparr>"
  using assms
proof (induction ys arbitrary: d bs)
  case (Cons y ys)
  have "sd_pop d = d" using Cons.prems(2,3) by (intro sd_pop_empty) auto
  with Cons.prems have "sd_event d (Xfer y) = d\<lparr>sd_mode := SdReceive s multi (bs @ [y])\<rparr>" by (simp add: sd_byte_def)
  with Cons.IH [of "d\<lparr>sd_mode := SdReceive s multi (bs @ [y])\<rparr>" "bs @ [y]"] Cons.prems show ?case by simp
next
  case Nil
  then have "d\<lparr>sd_mode := SdReceive s multi bs\<rparr> = d" by (cases d) simp
  then show ?case by simp
qed

lemma sd_block_in:
  assumes "attached w d" "sd_token d s multi" "length dat = 512"
  shows "attached (tx [0xFF, 0xFF] (tx dat (tx [0xFF, if multi then 0xFC else 0xFE] w)))
    (d\<lparr>sectors_of := (sectors_of d)(s := dat), outq := [0x05],
       sd_mode := if multi then SdToken (s + 1) True else SdIdle\<rparr>)"
proof -
  let ?d1 = "d\<lparr>sd_mode := SdReceive s multi []\<rparr>"
  note t = assms(2) [unfolded sd_token_def]
  have p: "sd_pop d = d" using t by (intro sd_pop_empty) auto
  have "foldl (\<lambda>d b. sd_event d (Xfer b)) d [0xFF, if multi then 0xFC else 0xFE] = ?d1"
    using t p by (simp add: sd_byte_def)
  with attached_tx [OF assms(1)] have w1: "attached (tx [0xFF, if multi then 0xFC else 0xFE] w) ?d1" by metis
  let ?d2 = "d\<lparr>sd_mode := SdReceive s multi dat\<rparr>"
  have "foldl (\<lambda>d b. sd_event d (Xfer b)) ?d1 dat = ?d2"
    using sd_receive [of ?d1 s multi "[]" dat] t assms(3) by simp
  with attached_tx [OF w1] have w2: "attached (tx dat (tx [0xFF, if multi then 0xFC else 0xFE] w)) ?d2" by metis
  let ?d3 = "d\<lparr>sd_mode := SdReceive s multi (dat @ [0xFF])\<rparr>"
  have "sd_event ?d2 (Xfer 0xFF) = ?d3"
    using sd_receive [of ?d2 s multi dat "[0xFF]"] t assms(3) by simp
  moreover have "sd_pop ?d3 = ?d3" using t by (intro sd_pop_empty) auto
  then have "sd_event ?d3 (Xfer 0xFF) = d\<lparr>sectors_of := (sectors_of d)(s := dat), outq := [0x05],
       sd_mode := if multi then SdToken (s + 1) True else SdIdle\<rparr>"
    using t assms(3) by (simp add: sd_byte_def)
  ultimately have "foldl (\<lambda>d b. sd_event d (Xfer b)) ?d2 [0xFF, 0xFF] = d\<lparr>sectors_of := (sectors_of d)(s := dat), outq := [0x05],
       sd_mode := if multi then SdToken (s + 1) True else SdIdle\<rparr>" by (simp del: sd_event.simps)
  with attached_tx [OF w2] show ?thesis by metis
qed

fun store :: "(u32 \<Rightarrow> u8 list) \<Rightarrow> u32 \<Rightarrow> nat \<Rightarrow> u8 list \<Rightarrow> u32 \<Rightarrow> u8 list" where
  "store f s 0 dat = f"
| "store f s (Suc n) dat = store (f(s := take 512 dat)) (s + 1) n (drop 512 dat)"

text \<open>What the write leaves: a further block follows as long as there are any.\<close>

definition written :: "sdcard \<Rightarrow> u32 \<Rightarrow> bool \<Rightarrow> nat \<Rightarrow> u8 list \<Rightarrow> sdcard" where
  "written d s multi n dat =
     d\<lparr>sectors_of := store (sectors_of d) s n dat, sd_mode := if multi then SdToken (s + of_nat n) True else SdIdle\<rparr>"

lemma write_block_step:
  assumes "attached w d" "sd_token d s (m \<noteq> 1)" "512 \<le> length dat"
  shows "\<exists>w'. write_blocks dat sector m (Suc n) w = write_blocks (drop 512 dat) sector m n w' \<and>
    attached w' (written d s (m \<noteq> 1) 1 dat)"
proof -
  let ?d1 = "d\<lparr>sectors_of := (sectors_of d)(s := take 512 dat), outq := [0x05],
       sd_mode := if m \<noteq> 1 then SdToken (s + 1) True else SdIdle\<rparr>"
  let ?w = "tx [0xFF, 0xFF] (tx (take 512 dat) (tx [0xFF, if m \<noteq> 1 then 0xFC else 0xFE] w))"
  note t = assms(2) [unfolded sd_token_def]
  have w1: "attached ?w ?d1" using sd_block_in [OF assms(1,2), of "take 512 dat"] assms(3) by simp
  have tok: "(if m = 1 then 0xFE else 0xFC) = (if m \<noteq> 1 then 0xFC else (0xFE :: u8))" by simp
  have l: "listening ?d1" using t by (simp add: listening_def)
  obtain w2 where w2: "rSPI 0xFF ?w = (0x05, w2)" "attached w2 (?d1\<lparr>outq := []\<rparr>)"
    using rSPI_queue [OF w1 l, of "0x05" "[]"] by auto
  have e: "?d1\<lparr>outq := []\<rparr> = written d s (m \<noteq> 1) 1 dat" using t by (cases d) (simp add: written_def)
  have "listening (written d s (m \<noteq> 1) 1 dat)" "outq (written d s (m \<noteq> 1) 1 dat) = []"
    "\<And>x. sd_mode (written d s (m \<noteq> 1) 1 dat) \<noteq> SdStream x"
    using t by (auto simp: listening_def written_def)
  from Card_WaitXfer_idle [OF w2(2) [unfolded e] this] obtain w3 where
    w3: "Card_WaitXfer w2 = Some (True, w3)" "attached w3 (written d s (m \<noteq> 1) 1 dat)" by auto
  have "write_blocks dat sector m (Suc n) w = write_blocks (drop 512 dat) sector m n w3"
    unfolding write_blocks.simps(2) Let_def tok w2(1) prod.case w3(1) by (simp add: w3(1))
  with w3(2) show ?thesis by blast
qed

lemma write_blocks_token:
  "attached w d \<Longrightarrow> sd_token d s (m \<noteq> 1) \<Longrightarrow> 512 * n \<le> length dat \<Longrightarrow> m = 1 \<longrightarrow> n = 1 \<Longrightarrow>
     \<exists>w'. write_blocks dat sector m n w = Some (FF_ERR_NONE, (), w') \<and> attached w' (written d s (m \<noteq> 1) n dat)"
proof (induction n arbitrary: w d s dat)
  case 0
  then have "written d s (m \<noteq> 1) 0 dat = d" by (cases d) (simp add: written_def sd_token_def)
  with 0 show ?case by simp
next
  case (Suc n)
  have "512 \<le> length dat" using Suc.prems(3) by simp
  from write_block_step [OF Suc.prems(1,2) this, of sector n] obtain w1 where
    w1: "write_blocks dat sector m (Suc n) w = write_blocks (drop 512 dat) sector m n w1"
      "attached w1 (written d s (m \<noteq> 1) 1 dat)" by blast
  show ?case
  proof (cases "m = 1")
    case True
    with w1 Suc.prems(4) show ?thesis by simp
  next
    case False
    have "sd_token (written d s (m \<noteq> 1) 1 dat) (s + 1) (m \<noteq> 1)"
      using Suc.prems(2) False by (simp add: sd_token_def written_def)
    moreover have "512 * n \<le> length (drop 512 dat)" "m = 1 \<longrightarrow> n = 1" using Suc.prems(3) False by simp_all
    ultimately obtain w2 where
      w2: "write_blocks (drop 512 dat) sector m n w1 = Some (FF_ERR_NONE, (), w2)"
      "attached w2 (written (written d s (m \<noteq> 1) 1 dat) (s + 1) (m \<noteq> 1) n (drop 512 dat))"
      using Suc.IH [OF w1(2), of "s + 1" "drop 512 dat"] by blast
    moreover have "written (written d s (m \<noteq> 1) 1 dat) (s + 1) (m \<noteq> 1) n (drop 512 dat) = written d s (m \<noteq> 1) (Suc n) dat"
      using False by (simp add: written_def algebra_simps)
    ultimately show ?thesis unfolding w1(1) by auto
  qed
qed

lemma write_start_idle:
  assumes "attached w d" "sd_idle d" "fits c d s"
  shows "\<exists>w'. write_start c (card_address c s) n w = (None, w') \<and> attached w' (d\<lparr>sd_mode := SdToken s (n \<noteq> 1)\<rparr>)"
proof -
  note i = sd_idle_simps [OF assms(2)]
  have cmd: "\<exists>w'. MMC_Command cmd (card_address c s) w = (0, w') \<and> attached w' (d\<lparr>sd_mode := SdToken s multi\<rparr>)"
    if w: "attached w d" and c: "cmd = (if multi then CMD25 else CMD24)" for w cmd multi
  proof -
    have e: "sd_exec d cmd (card_address c s) = d\<lparr>outq := [0xFF, 0x00], sd_mode := SdToken s multi\<rparr>"
      using card_address_fits [OF assms(3)] by (cases multi) (simp_all add: sd_exec_def c)
    have li: "listening (sd_exec d cmd (card_address c s))" unfolding e using i by (simp add: listening_def)
    have q: "(sd_exec d cmd (card_address c s))\<lparr>outq := []\<rparr> = d\<lparr>sd_mode := SdToken s multi\<rparr>"
      unfolding e using i by (cases d) simp
    have b: "cmd AND 0xC0 = 0x40" by (cases multi) (simp_all add: c)
    show ?thesis using MMC_Command_idle [OF w assms(2) b _ _ li, of 0 "[]"] unfolding q by (auto simp: e)
  qed
  show ?thesis
  proof (cases "n = 1")
    case True
    obtain w' where "MMC_Command CMD24 (card_address c s) w = (0, w')" "attached w' (d\<lparr>sd_mode := SdToken s False\<rparr>)"
      using cmd [OF assms(1), of CMD24 False] by auto
    with True show ?thesis by (simp add: write_start_def)
  next
    case False
    have "\<exists>w'. (if cardType c \<noteq> CARDTYPE_MMC then MMC_Command CMD55 0 w else (0, w)) = (0, w') \<and> attached w' d"
      using cmd_simple [OF assms(1,2), of CMD55 0] assms(1) by simp
    then obtain w1 where w1: "(if cardType c \<noteq> CARDTYPE_MMC then MMC_Command CMD55 0 w else (0, w)) = (0, w1)" "attached w1 d"
      by blast
    obtain w2 where w2: "MMC_Command CMD23 n w1 = (0, w2)" "attached w2 d"
      using cmd_simple [OF w1(2) assms(2), of CMD23 n] by auto
    obtain w3 where "MMC_Command CMD25 (card_address c s) w2 = (0, w3)" "attached w3 (d\<lparr>sd_mode := SdToken s True\<rparr>)"
      using cmd [OF w2(2), of CMD25 True] by auto
    with False show ?thesis unfolding write_start_def Let_def w1(1) prod.case by (simp add: w2(1))
  qed
qed

lemma written_stop:
  assumes "attached w (written d s (n \<noteq> 1) k dat)" "sd_idle d"
  shows "attached (tx [if n = 1 then 0xFF else 0xFD, 0xFF] w) (d\<lparr>sectors_of := store (sectors_of d) s k dat\<rparr>)"
    "sd_idle (d\<lparr>sectors_of := store (sectors_of d) s k dat\<rparr>)"
proof -
  note i = sd_idle_simps [OF assms(2)]
  let ?e = "written d s (n \<noteq> 1) k dat" and ?f = "d\<lparr>sectors_of := store (sectors_of d) s k dat\<rparr>"
  have p: "sd_pop ?e = ?e" "sd_pop ?f = ?f" using i by (intro sd_pop_empty; auto simp: written_def)+
  have f: "?f\<lparr>sd_mode := SdIdle\<rparr> = ?f" using i by (cases d) simp
  have "sd_event ?e (Xfer (if n = 1 then 0xFF else 0xFD)) = ?f"
    using i p f by (simp add: sd_byte_def written_def)
  moreover have "sd_event ?f (Xfer 0xFF) = ?f" using i p by (simp add: sd_byte_def)
  ultimately have "foldl (\<lambda>d b. sd_event d (Xfer b)) ?e [if n = 1 then 0xFF else 0xFD, 0xFF] = ?f"
    by (simp del: sd_event.simps)
  with attached_tx [OF assms(1)] show "attached (tx [if n = 1 then 0xFF else 0xFD, 0xFF] w) ?f" by metis
  show "sd_idle ?f" using assms(2) by (simp add: sd_idle_def)
qed

lemma card_write_rest:
  assumes "attached w d" "sd_rest d" "fits c d s" "512 * unat n \<le> length dat"
  shows "\<exists>w'. card_write c dat s n w = Some (FF_ERR_NONE, (), w') \<and>
    attached w' (d\<lparr>sectors_of := store (sectors_of d) s (unat n) dat\<rparr>)"
proof -
  let ?d = "d\<lparr>selected := True\<rparr>" and ?S = "store (sectors_of d) s (unat n) dat"
  note E = SPI_EnableCard_rest [OF assms(1,2)]
  note i = sd_idle_simps [OF E(2)]
  have g: "fits c ?d s" using assms(3) by (auto simp: fits_def)
  obtain w1 where w1: "Card_WaitXfer (SPI_EnableCard w) = Some (True, w1)" "attached w1 ?d"
    using Card_WaitXfer_idle [OF E(1)] i by auto
  obtain w2 where w2: "write_start c (card_address c s) n w1 = (None, w2)" "attached w2 (?d\<lparr>sd_mode := SdToken s (n \<noteq> 1)\<rparr>)"
    using write_start_idle [OF w1(2) E(2) g] by blast
  let ?e = "?d\<lparr>sd_mode := SdToken s (n \<noteq> 1)\<rparr>"
  have tok: "sd_token ?e s (n \<noteq> 1)" using i by (simp add: sd_token_def)
  have e: "written ?e s (n \<noteq> 1) (unat n) dat = written ?d s (n \<noteq> 1) (unat n) dat" by (simp add: written_def)
  obtain w3 where w3: "write_blocks dat (card_address c s) n (unat n) w2 = Some (FF_ERR_NONE, (), w3)"
    "attached w3 (written ?d s (n \<noteq> 1) (unat n) dat)"
    using write_blocks_token [OF w2(2) tok assms(4), of "card_address c s"] unfolding e by auto
  let ?f = "?d\<lparr>sectors_of := ?S\<rparr>" and ?w = "tx [if n = 1 then 0xFF else 0xFD, 0xFF] w3"
  have st: "attached ?w ?f" "sd_idle ?f" using written_stop [OF w3(2) E(2)] by simp_all
  obtain w4 where w4: "Card_WaitXfer ?w = Some (True, w4)" "attached w4 ?f"
    using Card_WaitXfer_idle [OF st(1)] sd_idle_simps [OF st(2)] by auto
  obtain w5 where w5: "Card_GetStatus w4 = (True, w5)" "attached w5 ?f"
    using Card_GetStatus_idle [OF w4(2) st(2)] by blast
  have "card_write c dat s n w = Some (FF_ERR_NONE, (), SPI_DisableCard w5)"
    unfolding card_write_def Let_def w1(1) by (simp add: w2(1) w3(1) w4(1) w5(1) del: write_blocks.simps tx.simps)
  moreover have "?f\<lparr>selected := False\<rparr> = d\<lparr>sectors_of := ?S\<rparr>" using assms(2) by (cases d) (simp add: sd_rest_def)
  ultimately show ?thesis using SPI_DisableCard_idle(1) [OF w5(2) st(2)] by auto
qed

text \<open>What is stored is what is read.\<close>

lemma store_outside: "n \<le> unat (x - s) \<Longrightarrow> store f s n dat x = f x"
proof (induction n arbitrary: f s dat)
  case (Suc n)
  then have "x \<noteq> s" by auto
  then have "unat (x - (s + 1)) = unat (x - s) - 1"
    using unat_minus_one [of "x - s"] by (simp add: algebra_simps)
  with Suc \<open>x \<noteq> s\<close> show ?case by simp
qed simp

lemma store_inside:
  "k < n \<Longrightarrow> n < 2 ^ 32 \<Longrightarrow> store f s n dat (s + of_nat k) = take 512 (drop (512 * k) dat)"
proof (induction n arbitrary: f s dat k)
  case (Suc n)
  show ?case
  proof (cases k)
    case 0
    have "unat (s - (s + 1)) = 2 ^ 32 - 1" by (simp add: unsigned_minus_1_eq_mask mask_eq_exp_minus_1)
    then show ?thesis using Suc.prems store_outside [of n s "s + 1"] 0 by simp
  next
    case (Suc j)
    then show ?thesis using Suc.IH [of j "f(s := take 512 dat)" "s + 1" "drop 512 dat"] Suc.prems
      by (simp add: algebra_simps del: fun_upd_apply)
  qed
qed simp

lemma blocks_concat: "512 * n \<le> length (dat :: 'a list) \<Longrightarrow> concat (map (\<lambda>k. take 512 (drop (512 * k) dat)) [0..<n]) = take (512 * n) dat"
proof (induction n)
  case (Suc n)
  have "take (512 * Suc n) dat = take (512 * n) dat @ take 512 (drop (512 * n) dat)"
    by (metis mult_Suc_right add.commute take_add)
  with Suc show ?case by simp
qed simp

lemma store_read:
  assumes "n < 2 ^ 32" "512 * n \<le> length dat"
  shows "sectors_from (d\<lparr>sectors_of := store f s n dat\<rparr>) s n = take (512 * n) dat"
proof -
  have "map (\<lambda>k. store f s n dat (s + of_nat k)) [0..<n] = map (\<lambda>k. take 512 (drop (512 * k) dat)) [0..<n]"
    by (rule map_cong [OF refl]) (use assms(1) in \<open>auto intro: store_inside\<close>)
  then show ?thesis using blocks_concat [OF assms(2)] unfolding sectors_from_def by (simp del: map_eq_conv)
qed

lemma store_good:
  "good_sectors d \<Longrightarrow> 512 * n \<le> length dat \<Longrightarrow> good_sectors (d\<lparr>sectors_of := store (sectors_of d) s n dat\<rparr>)"
proof -
  have "\<forall>x. length (f x) = 512 \<Longrightarrow> 512 * n \<le> length dat \<Longrightarrow> \<forall>x. length (store f s n dat x) = 512" for f
    by (induction n arbitrary: f s dat) auto
  then show "good_sectors d \<Longrightarrow> 512 * n \<le> length dat \<Longrightarrow> ?thesis" by (simp add: good_sectors_def)
qed

lemma Card_WriteM_rest:
  assumes "attached w d" "sd_rest d" "good_sectors d" "fits c d s" "512 * unat n \<le> length dat"
  shows "\<exists>w'. Card_WriteM dat s n c w = Some (FF_ERR_NONE, c\<lparr>writeStateActive := True\<rparr>, w') \<and>
    attached w' (d\<lparr>sectors_of := store (sectors_of d) s (unat n) dat\<rparr>)"
proof -
  have f: "fits c d 0" "fits (c\<lparr>writeStateActive := True\<rparr>) d s" using assms(4) by (auto simp: fits_def)
  have same: "c = c\<lparr>writeStateActive := True\<rparr>" if "writeStateActive c" using that by simp
  have "\<exists>w1. (if \<not> writeStateActive c
                      then map_option (Pair (c\<lparr>writeStateActive := True\<rparr>)) (Card_TriggerFillRead c w)
                      else Some (c, w)) = Some (c\<lparr>writeStateActive := True\<rparr>, w1) \<and> attached w1 d"
    using card_read_rest [OF assms(1-3) f(1), of 1] assms(1) same by (auto simp: Card_TriggerFillRead_def)
  then obtain w1 where w1: "(if \<not> writeStateActive c
                      then map_option (Pair (c\<lparr>writeStateActive := True\<rparr>)) (Card_TriggerFillRead c w)
                      else Some (c, w)) = Some (c\<lparr>writeStateActive := True\<rparr>, w1)" "attached w1 d" by blast
  obtain w2 where "card_write (c\<lparr>writeStateActive := True\<rparr>) dat s n w1 = Some (FF_ERR_NONE, (), w2)"
    "attached w2 (d\<lparr>sectors_of := store (sectors_of d) s (unat n) dat\<rparr>)"
    using card_write_rest [OF w1(2) assms(2) f(2) assms(5)] by blast
  then show ?thesis unfolding Card_WriteM_def w1(1) by simp
qed

lemma Card_ReadM_rest:
  assumes "attached w d" "sd_rest d" "good_sectors d" "fits c d s"
  shows "\<exists>w'. Card_ReadM False s n c w = Some (FF_ERR_NONE, sectors_from d s (unat n), c\<lparr>writeStateActive := False\<rparr>, w') \<and>
    attached w' d"
proof -
  let ?c = "c\<lparr>writeStateActive := False\<rparr>"
  have f: "fits ?c d 0" "fits ?c d s" using assms(4) by (auto simp: fits_def)
  have same: "c = ?c" if "\<not> writeStateActive c" using that by simp
  have "\<exists>w1. (if writeStateActive c then map_option (Pair ?c) (Card_TriggerFillRead ?c w) else Some (c, w)) = Some (?c, w1)
      \<and> attached w1 d"
    using card_read_rest [OF assms(1-3) f(1), of 1] assms(1) same by (auto simp: Card_TriggerFillRead_def)
  then obtain w1 where w1:
    "(if writeStateActive c then map_option (Pair ?c) (Card_TriggerFillRead ?c w) else Some (c, w)) = Some (?c, w1)"
    "attached w1 d" by blast
  obtain w2 where "card_read ?c False s n w1 = Some (FF_ERR_NONE, sectors_from d s (unat n), w2)" "attached w2 d"
    using card_read_rest [OF w1(2) assms(2,3) f(2)] by blast
  then show ?thesis unfolding Card_ReadM_def w1(1) by simp
qed

text \<open>
  C1. On an SD card that behaves as specified (deselected and idle, with 512-byte sectors, the driver
  knowing its kind, and below 2^23 sectors when it is addressed in bytes), writing n sectors and
  reading n sectors back succeeds and gives the data that was written, whatever the driver did before;
  no other sector of the card is changed, and the card is left deselected and idle.
\<close>

theorem Card_write_read:
  assumes "attached w d" "sd_rest d" "good_sectors d" "fits c d s" "length dat = 512 * unat n"
  shows "\<exists>c1 w1 c2 w2 d'.
    Card_WriteM dat s n c w = Some (FF_ERR_NONE, c1, w1) \<and>
    Card_ReadM False s n c1 w1 = Some (FF_ERR_NONE, dat, c2, w2) \<and>
    attached w2 d' \<and> sd_rest d' \<and>
    (\<forall>x. unat n \<le> unat (x - s) \<longrightarrow> sectors_of d' x = sectors_of d x)"
proof -
  let ?d = "d\<lparr>sectors_of := store (sectors_of d) s (unat n) dat\<rparr>"
  have n: "512 * unat n \<le> length dat" using assms(5) by simp
  obtain w1 where w1: "Card_WriteM dat s n c w = Some (FF_ERR_NONE, c\<lparr>writeStateActive := True\<rparr>, w1)" "attached w1 ?d"
    using Card_WriteM_rest [OF assms(1-4) n] by blast
  have r: "sd_rest ?d" "fits (c\<lparr>writeStateActive := True\<rparr>) ?d s" using assms(2,4) by (auto simp: sd_rest_def fits_def)
  have "unat n < 2 ^ 32" using unsigned_less [of n] by simp
  then have "sectors_from ?d s (unat n) = dat" using store_read [OF _ n] assms(5) by simp
  with Card_ReadM_rest [OF w1(2) r(1) store_good [OF assms(3) n] r(2), of n] obtain w2 where w2:
    "Card_ReadM False s n (c\<lparr>writeStateActive := True\<rparr>) w1
      = Some (FF_ERR_NONE, dat, c\<lparr>writeStateActive := True\<rparr>\<lparr>writeStateActive := False\<rparr>, w2)" "attached w2 ?d" by metis
  have "\<forall>x. unat n \<le> unat (x - s) \<longrightarrow> sectors_of ?d x = sectors_of d x" by (simp add: store_outside)
  with w1(1) w2 r(1) show ?thesis by blast
qed

definition blank_card :: sdcard where
  "blank_card = \<lparr>sectors_of = \<lambda>s. replicate 512 0, high_capacity = True, selected = False, inframe = [], outq = [], sd_mode = SdIdle\<rparr>"

definition card_world :: "sdcard \<Rightarrow> world" where
  "card_world d = \<lparr>trace = [], reply = sd_reply d, elapsed = length, msgs = []\<rparr>"

lemma Card_write_read_witness:
  "\<exists>c1 w1 c2 w2. Card_WriteM (replicate 1024 7) 5 2 (new_card\<lparr>cardType := CARDTYPE_SDHC\<rparr>) (card_world blank_card) = Some (FF_ERR_NONE, c1, w1) \<and>
    Card_ReadM False 5 2 c1 w1 = Some (FF_ERR_NONE, replicate 1024 7, c2, w2)"
proof -
  have "attached (card_world blank_card) blank_card" by (simp add: attached_def card_world_def)
  moreover have "sd_rest blank_card" "good_sectors blank_card" "fits (new_card\<lparr>cardType := CARDTYPE_SDHC\<rparr>) blank_card 5"
    by (simp_all add: sd_rest_def good_sectors_def fits_def blank_card_def new_card_def)
  ultimately show ?thesis
    using Card_write_read [of "card_world blank_card" blank_card "new_card\<lparr>cardType := CARDTYPE_SDHC\<rparr>" 5 "replicate 1024 7" 2]
    by auto
qed

end
