(* ===== verification/Hardfile.thy ===== *)
theory Hardfile
  imports Drive Card
begin

text \<open>
  Hard disk images, the first part of \<open>fileio_drv08_ata.c\<close>: the geometry of an image, the table that
  finds the cluster of a position, the rigid disk block area that is made up for an image without one,
  and the insertion.  The commands of the disk are in theory \<open>Drv08\<close>.

  The seek moves the file pointer and the current cluster of the open file by itself, so the file
  operations here also keep the cluster.  A file whose cluster does not belong to its file pointer is
  outside the contract of FatFs: using it is \<open>None\<close>, as is an access beyond a table.  Assertions are
  compiled out (\<open>debuglevel\<close> is 0).
\<close>

abbreviation DRV08_BLK_SIZE :: nat where "DRV08_BLK_SIZE \<equiv> 512"
abbreviation (input) no_cluster :: u32 where "no_cluster \<equiv> 0xFFFFFFFF"

subsection \<open>File operations that keep the current cluster\<close>

text \<open>The current cluster is the one of the byte before the file pointer.\<close>

definition clust_ok :: "FIL \<Rightarrow> bool" where
  "clust_ok f \<longleftrightarrow> fptr f = 0 \<or> clust f = chain f ((fptr f - 1) div csize f)"

definition clust_sync :: "FIL \<Rightarrow> FIL" where
  "clust_sync f = (if fptr f = 0 then f else f\<lparr>clust := chain f ((fptr f - 1) div csize f)\<rparr>)"

definition c_seek :: "FIL \<Rightarrow> u64 \<Rightarrow> (u32 \<times> FIL) option" where
  "c_seek f ofs =
     (if \<not> clust_ok f then None
      else let (err, f) = FF_Seek f (uint ofs) FF_SEEK_SET in Some (err, clust_sync f))"

definition c_read :: "FIL \<Rightarrow> u32 \<Rightarrow> u32 \<Rightarrow> (u8 list \<times> FIL) option" where
  "c_read f sz n =
     (if \<not> clust_ok f then None else let (dat, f) = FF_Read f sz n in Some (dat, clust_sync f))"

definition c_read_direct :: "FIL \<Rightarrow> u32 \<Rightarrow> u32 \<Rightarrow> world \<Rightarrow> (nat \<times> FIL \<times> world) option" where
  "c_read_direct f sz n w =
     (if \<not> clust_ok f then None
      else do { (k, f, w) \<leftarrow> FF_ReadDirect f sz n w; Some (k, clust_sync f, w) })"

definition c_write :: "FIL \<Rightarrow> u32 \<Rightarrow> u32 \<Rightarrow> u8 list \<Rightarrow> (nat \<times> FIL) option" where
  "c_write f sz n buf =
     (if \<not> clust_ok f then None else let (k, f) = FF_Write f sz n buf in Some (k, clust_sync f))"

subsection \<open>Geometry\<close>

text \<open>Whether a number of cylinders is acceptable, for the size of the image and the number of heads.\<close>

definition cylinders_fit :: "u64 \<Rightarrow> u32 \<Rightarrow> u32 \<Rightarrow> bool" where
  "cylinders_fit fsize head cyl =
     (if fsize \<le> 512 * 1024 * 1024 then cyl \<le> 1023
      else if cyl < 16383 then True
      else if cyl < 32767 \<and> head \<ge> 5 then True
      else cyl \<le> 65535)"

text \<open>The two loops, over the heads 4 to 16 and the sectors per track; 17 heads when none fits.\<close>

fun geometry_heads :: "u64 \<Rightarrow> u32 \<Rightarrow> u32 \<Rightarrow> u32 list \<Rightarrow> u32 \<Rightarrow> u32 \<times> u32" where
  "geometry_heads fsize nsec spt [] cyl = (cyl, 17)"
| "geometry_heads fsize nsec spt (head # hs) cyl =
     (let cyl = nsec div (head * spt)
      in if cylinders_fit fsize head cyl then (cyl, head) else geometry_heads fsize nsec spt hs cyl)"

fun geometry_spt :: "u64 \<Rightarrow> u32 \<Rightarrow> u32 list \<Rightarrow> u32 \<times> u32 \<times> u32 \<Rightarrow> u32 \<times> u32 \<times> u32" where
  "geometry_spt fsize nsec [] chs = chs"
| "geometry_spt fsize nsec (spt # sptt) chs =
     (let (cyl, head) = geometry_heads fsize nsec spt [4, 5, 6, 7, 8, 9, 10, 11, 12, 13, 14, 15, 16] (fst chs)
      in if head \<le> 16 then (cyl, head, spt) else geometry_spt fsize nsec sptt (cyl, head, spt))"

definition GetHardfileGeometry :: "drv08_desc \<Rightarrow> drv08_desc" where
  "GetHardfileGeometry dsc =
     (let fsize = file_size08 dsc
      in if fsize = 0 then dsc
         else let (cyl, head, spt) = geometry_spt fsize (ucast (fsize div 512)) [63, 127, 255] (0, 0, 0)
              in dsc\<lparr>cylinders := ucast cyl, heads := ucast head, sectors := ucast spt, sectors_per_block := 0\<rparr>)"

subsection \<open>The cluster table\<close>

text \<open>
  The step of the table: the least power of two, at least \<open>2 ^ 16\<close>, that is not below a 1024th of the
  size (which is below \<open>2 ^ 54\<close>, so the doubling does not wrap; the last two conditions are there for the
  termination proof).
\<close>

function index_step :: "u64 \<Rightarrow> u64 \<Rightarrow> u32 \<Rightarrow> u32" where
  "index_step i j k = (if j < i \<and> j < push_bit 63 1 \<and> j \<noteq> 0 then index_step i (push_bit 1 j) (k + 1) else k)"
  by pat_completeness auto
termination
proof (relation "measure (\<lambda>(i, j, k). 2 ^ 63 - unat j)")
  fix i j :: u64 and k :: u32
  assume "j < i \<and> j < push_bit 63 1 \<and> j \<noteq> 0"
  then have j: "unat j < 2 ^ 63" "0 < unat j" by (auto simp: word_less_nat_alt unat_gt_0)
  then have "unat (push_bit 1 j) = 2 * unat j"
    by (simp add: push_bit_eq_mult unat_word_ariths)
  with j show "((i, push_bit 1 j, k + 1), i, j, k) \<in> measure (\<lambda>(i, j, k). 2 ^ 63 - unat j)" by simp
qed simp

declare index_step.simps [simp del]

definition BuildHardfileIndex :: "drv08_desc \<Rightarrow> drv08_desc" where
  "BuildHardfileIndex dsc =
     dsc\<lparr>index_size := index_step (drop_bit 10 (file_size08 dsc)) (push_bit 16 1) 16,
         index := replicate 1024 no_cluster, mru_lba := 0xFFFFFFFF\<rparr>"

text \<open>The last known entry at or before an index, or entry 0.\<close>

fun index_start :: "u32 list \<Rightarrow> nat \<Rightarrow> nat" where
  "index_start ix 0 = 0"
| "index_start ix (Suc start) = (if ix ! Suc start \<noteq> no_cluster then Suc start else index_start ix start)"

text \<open>Filling the unknown entries, one seek for each.\<close>

fun index_fill :: "u64 \<Rightarrow> nat list \<Rightarrow> u64 \<Rightarrow> u32 list \<Rightarrow> FIL \<Rightarrow> (u32 list \<times> FIL) option" where
  "index_fill step [] filepos ix f = Some (ix, f)"
| "index_fill step (i # is) filepos ix f =
     (if ix ! i \<noteq> no_cluster then index_fill step is (filepos + step) ix f
      else do { (_, f) \<leftarrow> c_seek f filepos;
                index_fill step is (filepos + step) (ix[i := clust f]) f })"

text \<open>
  Moving the file to a known position before the seek: the one that was used last, or the one of the
  table.  A shift by the whole width and an index beyond the table are \<open>None\<close>.
\<close>

definition seek_cluster :: "drv08_desc \<Rightarrow> u32 \<Rightarrow> FIL \<Rightarrow> (u32 list \<times> FIL) option" where
  "seek_cluster dsc lba f =
     (let f = (if lba = mru_lba dsc
               then f\<lparr>fptr := unat (push_bit 9 (mru_lba dsc)), clust := mru_cluster dsc\<rparr> else f);
          lba_byte = push_bit 9 (ucast lba) :: u64;
          newCluster = of_nat (unat lba_byte div csize f) :: u32;
          currentCluster = of_nat (fptr f div csize f) :: u32;
          k = unat (index_size dsc);
          idx = unat (ucast (drop_bit (k - 9) lba) :: u16)
      in if k < 9 \<or> 31 \<le> k \<or> 1024 \<le> idx then None
         else if newCluster < currentCluster \<or> newCluster > currentCluster + 1 \<or> index dsc ! idx = no_cluster
         then let pos = lba_byte AND NOT (mask k);
                  start = index_start (index dsc) idx;
                  step = push_bit k 1
              in do { (ix, f) \<leftarrow> (if index dsc ! idx = no_cluster
                                 then index_fill step [start..<Suc idx] (of_nat start * step) (index dsc) f
                                 else Some (index dsc, f));
                      Some (ix, f\<lparr>fptr := unat pos, clust := ix ! idx\<rparr>) }
         else Some (index dsc, f))"

abbreviation FF_ERR_SEEK_BOUNDS :: u32 where "FF_ERR_SEEK_BOUNDS \<equiv> 0x83120017"

definition HardFileSeek :: "fch \<Rightarrow> drv08_desc \<Rightarrow> u32 \<Rightarrow> world \<Rightarrow> (u32 \<times> fch \<times> drv08_desc \<times> world) option" where
  "HardFileSeek pDrive dsc lba w =
     (if format08 dsc = MMC then Some (0, pDrive, dsc, w)
      else let (time, w) = Timer_Get 0 w
      in if format08 dsc = HDF_NAKED \<and> lba < lba_offset dsc then Some (FF_ERR_SEEK_BOUNDS, pDrive, dsc, w)
      else case fSource pDrive of
             None \<Rightarrow> None
           | Some f \<Rightarrow>
               let lba = (if format08 dsc = HDF_NAKED then lba - lba_offset dsc else lba)
               in do { (ix, f) \<leftarrow> seek_cluster dsc lba f;
                       (err, f) \<leftarrow> c_seek f (push_bit 9 (ucast lba));
                       let dsc = dsc\<lparr>index := ix, mru_lba := of_nat (fptr f div 512), mru_cluster := clust f\<rparr>;
                           (time, w) = Timer_Get 0 w
                       in Some (err, pDrive\<lparr>fSource := Some f\<rparr>, dsc, w) })"

subsection \<open>The rigid disk block area\<close>

text \<open>A block of 512 bytes, and storing big-endian values and strings in it.\<close>

definition put_bytes :: "nat \<Rightarrow> u8 list \<Rightarrow> u8 list \<Rightarrow> u8 list" where
  "put_bytes ofs bs blk = splice blk ofs bs"

definition WRITE_BE_32B :: "nat \<Rightarrow> u32 \<Rightarrow> u8 list \<Rightarrow> u8 list" where
  "WRITE_BE_32B ofs val = put_bytes ofs (be32 val)"

definition READ_BE_32B :: "u8 list \<Rightarrow> nat \<Rightarrow> u32" where
  "READ_BE_32B blk ofs = of_le32 (blk ! (ofs + 3)) (blk ! (ofs + 2)) (blk ! (ofs + 1)) (blk ! ofs)"

definition put_fields :: "(nat \<times> u32) list \<Rightarrow> u8 list \<Rightarrow> u8 list" where
  "put_fields vals blk = fold (\<lambda>(ofs, val). WRITE_BE_32B ofs val) vals blk"

definition put_string :: "nat \<Rightarrow> string \<Rightarrow> u8 list \<Rightarrow> u8 list" where
  "put_string ofs s = put_bytes ofs (map of_char (s @ [NUL]))"

definition CalcBEsum :: "u8 list \<Rightarrow> u32 \<Rightarrow> u32" where
  "CalcBEsum block numlongs =
     (let numlongs = (if numlongs > 128 then 128 else numlongs)
      in sum_list (map (\<lambda>i. READ_BE_32B block (4 * i)) [0..<unat numlongs]))"

text \<open>The number of longs is the second one of a block, the checksum the third.\<close>

definition put_checksum :: "u8 list \<Rightarrow> u8 list" where
  "put_checksum blk =
     (let chksum = CalcBEsum blk (READ_BE_32B blk 4) in WRITE_BE_32B 8 (NOT chksum + 1) blk)"

abbreviation IDNAME_RIGIDDISK :: u32 where "IDNAME_RIGIDDISK \<equiv> 0x5244534B"
abbreviation IDNAME_PARTITION :: u32 where "IDNAME_PARTITION \<equiv> 0x50415254"
abbreviation IDNAME_FILESYSHEADER :: u32 where "IDNAME_FILESYSHEADER \<equiv> 0x46534844"

definition partition_offset :: u32 where "partition_offset = 2"

definition rdsk_block :: "drv08_desc \<Rightarrow> u8 list" where
  "rdsk_block dsc =
     put_checksum
       (put_string 184 ''1.0'' (put_string 168 ''Naked'' (put_string 160 ''Replay''
         (put_fields
           [(0, IDNAME_RIGIDDISK), (4, 0x40), (12, 0x7), (16, 512), (20, 0x12), (24, 0xFFFFFFFF),
            (28, 0x01), (32, 0x02), (36, 0xFFFFFFFF),
            (64, ucast (cylinders dsc)), (68, ucast (sectors dsc)), (72, ucast (heads dsc)), (76, 0x01),
            (80, ucast (cylinders dsc)), (96, ucast (cylinders dsc)), (100, ucast (cylinders dsc)), (104, 0x03),
            (128, 0), (132, lba_offset dsc - 1), (136, partition_offset), (140, ucast (cylinders dsc) - 1),
            (144, ucast (sectors dsc) * ucast (heads dsc)), (152, 0x03)]
           (replicate 512 0)))))"

definition part_block :: "drv08_desc \<Rightarrow> u8 \<Rightarrow> u8 list" where
  "part_block dsc drive_number =
     put_checksum
       (put_fields
         [(128, 0x10), (132, 128), (140, ucast (heads dsc)), (144, 0x01), (148, ucast (sectors dsc)), (152, 0x02),
          (164, 2), (168, ucast (cylinders dsc) - 1), (172, 0x1E), (180, 0x1FE00), (184, 0x7FFFFFFE), (188, 0),
          (192, hdf_dostype dsc)]
         (put_bytes 41 [of_char (CHR ''0'') + drive_number] (put_string 37 ''FPGA0'' (put_bytes 36 [5]
           (put_fields [(0, IDNAME_PARTITION), (4, 0x40), (12, 0x07), (16, 0xFFFFFFFF), (20, 1)]
             (replicate 512 0))))))"

definition fshd_block :: "drv08_desc \<Rightarrow> u8 list" where
  "fshd_block dsc =
     put_checksum
       (put_fields
         [(0, IDNAME_FILESYSHEADER), (4, 0x40), (12, 0x07), (16, 0xFFFFFFFF), (32, hdf_dostype dsc),
          (36, 0x00280001), (40, 0x00000180), (72, 0xFFFFFFFF), (76, 0xFFFFFFFF)]
         (replicate 512 0))"

text \<open>The last number of a list that divides, or what there was before.\<close>

definition last_divisor :: "u32 \<Rightarrow> u32 list \<Rightarrow> u16 \<Rightarrow> u16" where
  "last_divisor n ds old = foldl (\<lambda>r d. if n mod d = 0 then ucast d else r) old ds"

definition rdb_sectors :: "u32 list" where "rdb_sectors = map (\<lambda>i. of_nat (2 * i + 1)) [0..<127]"
definition rdb_heads :: "u32 list" where "rdb_heads = map of_nat [4..<16]"

definition CreateRDB :: "drv08_desc \<Rightarrow> u8 \<Rightarrow> drv08_desc option" where
  "CreateRDB dsc drive_number =
     (let lba = ucast (file_size08 dsc div 512) :: u32;
          dsc = dsc\<lparr>sectors := last_divisor lba rdb_sectors (sectors dsc)\<rparr>
      in if sectors dsc = 0 then None
         else let lba = lba div ucast (sectors dsc);
                  dsc = dsc\<lparr>heads := last_divisor lba rdb_heads (heads dsc)\<rparr>
              in if heads dsc = 0 then None
                 else let lba = lba div ucast (heads dsc);
                          dsc = dsc\<lparr>cylinders := ucast lba\<rparr>;
                          dsc = dsc\<lparr>lba_offset := ucast (sectors dsc) * ucast (heads dsc) * partition_offset\<rparr>;
                          dsc = dsc\<lparr>cylinders := cylinders dsc + ucast partition_offset\<rparr>
                      in Some (dsc\<lparr>hdf_rdb := [rdsk_block dsc, part_block dsc drive_number, fshd_block dsc]\<rparr>))"

subsection \<open>Insertion\<close>

text \<open>
  The type of an image: the first 16 blocks are searched for a rigid disk block or the boot block of
  an Amiga file system.  A short read leaves the rest of the block buffer, which is on the stack and
  starts with arbitrary bytes.
\<close>

definition has_tag :: "string \<Rightarrow> u8 list \<Rightarrow> bool" where
  "has_tag s bs \<longleftrightarrow> take (length s) bs = map of_char s"

fun scan_blocks :: "nat \<Rightarrow> u8 list \<Rightarrow> FIL \<Rightarrow> (u8 list option \<times> u8 list \<times> FIL) option" where
  "scan_blocks 0 fbuf f = Some (None, fbuf, f)"
| "scan_blocks (Suc n) fbuf f =
     do { (dat, f) \<leftarrow> c_read f 512 1;
          let fbuf = fill fbuf dat
          in if has_tag ''RDSK'' fbuf \<or> has_tag ''DOS'' fbuf \<or> has_tag ''PFS'' fbuf \<or> has_tag ''SFS'' fbuf
             then Some (Some fbuf, fbuf, f) else scan_blocks n fbuf f }"

definition GetHardfileType :: "u8 list \<Rightarrow> drv08_desc \<Rightarrow> FIL \<Rightarrow> world \<Rightarrow> (drv08_desc \<times> FIL \<times> world) option" where
  "GetHardfileType fbuf dsc f w =
     do { (_, f) \<leftarrow> c_seek f 0;
          (found, fbuf, f) \<leftarrow> scan_blocks 16 fbuf f;
          case found of
            Some blk \<Rightarrow>
              if has_tag ''RDSK'' blk then Some (dsc, f, say (INFO ''Drv08:RDB OK'' []) w)
              else let dostype = READ_BE_32B blk 0
                   in Some (dsc\<lparr>format08 := HDF_NAKED, hdf_dostype := dostype\<rparr>, f,
                            say (WARNING ''Drv08:RDB MISSING - %08x'' [MsgInt (unat dostype)]) w)
          | None \<Rightarrow>
              do { (_, f) \<leftarrow> c_seek f (0x10 * 2048);
                   (dat, f) \<leftarrow> c_read f 512 1;
                   Some (dsc, f,
                     if has_tag ''CD00'' (drop 1 (fill fbuf dat)) then say (INFO ''Drv08:ISO9660 OK'' []) w
                     else say (WARNING ''Drv08:Unknown HDF format'' []) w) } }"

text \<open>The geometry of a card or of a partition; a division by zero is \<open>None\<close>.\<close>

definition last_divisor64 :: "u64 \<Rightarrow> u64 list \<Rightarrow> u16 \<Rightarrow> u16" where
  "last_divisor64 n ds old = foldl (\<lambda>r d. if n mod d = 0 then ucast d else r) old ds"

definition mmc_geometry :: "u64 \<Rightarrow> (u16 \<times> u16 \<times> u16) option" where
  "mmc_geometry lba =
     (let sec = last_divisor64 lba (map of_nat [1..<255]) 0;
          lba = lba div ucast sec;
          head = last_divisor64 lba (map of_nat [4..<16]) 0
      in if head = 0 then None else Some (ucast (lba div ucast head), head, sec))"

text \<open>
  The start and the size of a partition of the card, from its master boot record; the whole card when
  there is none.
\<close>

definition mbr_partition :: "u8 \<Rightarrow> u8 list \<Rightarrow> u64 \<Rightarrow> world \<Rightarrow> u32 \<times> u64 \<times> world" where
  "mbr_partition p fbuf lba w =
     (if fbuf ! 0x1FE = 0x55 \<and> fbuf ! 0x1FF = 0xAA
      then let entry = 0x1BE + 16 * unat p;
               stat = fbuf ! entry; lba_start = le32_at fbuf (entry + 8); num_sectors = le32_at fbuf (entry + 12)
           in if (stat = 0x00 \<or> stat = 0x80) \<and> 0 < lba_start \<and> ucast lba_start < lba
                 \<and> 0 < num_sectors \<and> ucast num_sectors < lba
              then (lba_start, ucast num_sectors AND NOT 0xFF, w)
              else (0, lba, say (WARNING ''MMC Partition #%d not found!'' [MsgInt (unat p)]) w)
      else (0, lba, w))"

definition mmc_size :: "u8 \<Rightarrow> card \<Rightarrow> world \<Rightarrow> (u32 \<times> u64 \<times> card \<times> world) option" where
  "mmc_size p c w =
     do { (capacity, w) \<leftarrow> Card_GetCapacity w;
          let lba = capacity div 512
          in if p = 0 then Some (0, lba, c, w)
             else do { (err, fbuf, c, w) \<leftarrow> Card_ReadM False 0 1 c w;
                       if err = FF_ERR_NONE
                       then let (offset, lba, w) = mbr_partition p fbuf lba w in Some (offset, lba, c, w)
                       else Some (0, lba, c, w) } }"

definition say_size :: "u32 \<Rightarrow> u32 \<Rightarrow> drv08_desc \<Rightarrow> world \<Rightarrow> world" where
  "say_size n mb dsc w =
     say (INFO ''CHS : %u.%u.%u --> %lu MB''
            [MsgInt (unat (cylinders dsc)), MsgInt (unat (heads dsc)), MsgInt (unat (sectors dsc)),
             MsgInt (unat (drop_bit 11 (ucast (cylinders dsc) * ucast (heads dsc) * ucast (sectors dsc) :: u32)))])
       (say (INFO ''SIZE: %lu sectors (%lu MB)'' [MsgInt (unat n), MsgInt (unat mb)]) w)"

definition zero_drv08_desc :: drv08_desc where
  "zero_drv08_desc =
     \<lparr>format08 = XXX08, file_size08 = 0, cylinders = 0, heads = 0, sectors = 0, sectors_per_block = 0,
      index = replicate 1024 0, index_size = 0, mru_lba = 0, mru_cluster = 0,
      hdf_rdb = replicate 3 (replicate 512 0), hdf_dostype = 0, lba_offset = 0\<rparr>"

definition mmc_insert :: "string \<Rightarrow> drv08_desc \<Rightarrow> card \<Rightarrow> world \<Rightarrow> (drv08_desc \<times> card \<times> world) option" where
  "mmc_insert ext dsc c w =
     (let p = (if deref (drop 4 ext) = NUL then 0 else of_char (deref (drop 4 ext)) - of_char (CHR ''0'')) :: u8;
          p = (if p > 3 then 0 else p)
      in do { (offset, lba, c, w) \<leftarrow> mmc_size p c w;
              (cyl, head, sec) \<leftarrow> mmc_geometry lba;
              let dsc = dsc\<lparr>format08 := MMC, lba_offset := offset, file_size08 := ucast (ucast lba :: u32),
                            cylinders := cyl, heads := head, sectors := sec\<rparr>;
                  n = ucast lba :: u32
              in Some (dsc, c, say_size n (drop_bit 11 n) dsc w) })"

text \<open>The common part for image files.\<close>

definition hardfile_insert ::
  "u8 list \<Rightarrow> u8 \<Rightarrow> u32 \<Rightarrow> drv08_desc \<Rightarrow> FIL \<Rightarrow> world \<Rightarrow> (drv08_desc \<times> FIL \<times> world) option" where
  "hardfile_insert fbuf drive_number time dsc f w =
     do { (dsc, f, w) \<leftarrow> GetHardfileType fbuf dsc f w;
          let dsc = BuildHardfileIndex (GetHardfileGeometry dsc); (now, w) = Timer_Get 0 w
          in do { dsc \<leftarrow> (if format08 dsc = HDF_NAKED then CreateRDB dsc drive_number else Some dsc);
                  let w = say_size (ucast (file_size08 dsc div 512)) (ucast (drop_bit 20 (file_size08 dsc))) dsc w
                  in Some (dsc, f, say (INFO ''Opened in %lu ms'' [MsgInt (unat (now - time))]) w) } }"

text \<open>The memory allocation and the uninitialised buffer are arguments.\<close>

definition Drv08_InsertInit ::
  "bool \<Rightarrow> u8 list \<Rightarrow> nat \<Rightarrow> nat \<Rightarrow> fch \<Rightarrow> string \<Rightarrow> card \<Rightarrow> world \<Rightarrow> (u8 \<times> fch \<times> card \<times> world) option" where
  "Drv08_InsertInit alloc fbuf ch drive_number pDrive ext c w =
     (let (time, w) = Timer_Get 0 w
      in if \<not> alloc
         then Some (1, pDrive\<lparr>pDesc := None\<rparr>, c, say (WARNING ''Drv08:Failed to allocate memory.'' []) w)
         else if strncasecmp ext ''HDF'' 3 = 0 \<or> strncasecmp ext ''?MMC'' 4 \<noteq> 0 \<and> strncasecmp ext ''ISO'' 3 = 0
         then (case fSource pDrive of
                 None \<Rightarrow> None
               | Some f \<Rightarrow>
                   let iso = (strncasecmp ext ''HDF'' 3 \<noteq> 0);
                       dsc = zero_drv08_desc\<lparr>format08 := if iso then ISO else HDF, file_size08 := FF_Size f\<rparr>;
                       pDrive = (if iso then pDrive\<lparr>status := status pDrive OR FILEIO_STAT_READONLY\<rparr> else pDrive)
                   in do { (dsc, f, w) \<leftarrow> hardfile_insert fbuf (of_nat drive_number) time dsc f w;
                           Some (0, pDrive\<lparr>pDesc := Some (Desc08 dsc), fSource := Some f\<rparr>, c, w) })
         else if strncasecmp ext ''?MMC'' 4 = 0
         then do { (dsc, c, w) \<leftarrow> mmc_insert ext zero_drv08_desc c w;
                   Some (0, pDrive\<lparr>pDesc := Some (Desc08 dsc)\<rparr>, c, w) }
         else Some (1, pDrive\<lparr>pDesc := Some (Desc08 zero_drv08_desc)\<rparr>, c,
                    say (WARNING ''Drv08:Unsupported format.'' []) w))"

subsection \<open>The made-up blocks have valid checksums\<close>

lemma length_put_bytes [simp]: "ofs + length bs \<le> length blk \<Longrightarrow> length (put_bytes ofs bs blk) = length blk"
  by (simp add: put_bytes_def splice_def)

lemma nth_put_bytes:
  "ofs + length bs \<le> length blk \<Longrightarrow> i < length blk \<Longrightarrow>
     put_bytes ofs bs blk ! i = (if ofs \<le> i \<and> i < ofs + length bs then bs ! (i - ofs) else blk ! i)"
  by (auto simp: put_bytes_def splice_def nth_append min_def)

lemma length_WRITE_BE_32B [simp]: "ofs + 4 \<le> length blk \<Longrightarrow> length (WRITE_BE_32B ofs v blk) = length blk"
  by (simp add: WRITE_BE_32B_def)

lemma READ_put_bytes:
  "ofs + length bs \<le> length blk \<Longrightarrow> p + 4 \<le> length blk \<Longrightarrow> p + 4 \<le> ofs \<or> ofs + length bs \<le> p \<Longrightarrow>
     READ_BE_32B (put_bytes ofs bs blk) p = READ_BE_32B blk p"
  by (auto simp: READ_BE_32B_def nth_put_bytes)

lemma READ_WRITE_same: "p + 4 \<le> length blk \<Longrightarrow> READ_BE_32B (WRITE_BE_32B p v blk) p = v"
  by (simp add: READ_BE_32B_def WRITE_BE_32B_def nth_put_bytes be32_def of_le32_le32 numeral_3_eq_3 [symmetric]
      nth_Cons' of_le32_le32 [unfolded One_nat_def])

lemma READ_WRITE_other:
  "ofs + 4 \<le> length blk \<Longrightarrow> p + 4 \<le> length blk \<Longrightarrow> p + 4 \<le> ofs \<or> ofs + 4 \<le> p \<Longrightarrow>
     READ_BE_32B (WRITE_BE_32B ofs v blk) p = READ_BE_32B blk p"
  by (simp add: WRITE_BE_32B_def READ_put_bytes)

lemma put_fields_simps:
  "put_fields [] blk = blk" "put_fields ((ofs, v) # vs) blk = put_fields vs (WRITE_BE_32B ofs v blk)"
  by (simp_all add: put_fields_def)

lemma sum_list_update:
  fixes f g :: "nat \<Rightarrow> u32"
  assumes "k < n" "\<And>i. i < n \<Longrightarrow> i \<noteq> k \<Longrightarrow> g i = f i"
  shows "sum_list (map g [0..<n]) + f k = sum_list (map f [0..<n]) + g k"
proof -
  have s: "[0..<n] = [0..<k] @ k # [Suc k..<n]"
    using assms(1) by (metis less_imp_le_nat upt_add_eq_append upt_conv_Cons le_add_diff_inverse le0)
  have "map g [0..<k] = map f [0..<k]" "map g [Suc k..<n] = map f [Suc k..<n]"
    using assms by auto
  then show ?thesis unfolding s by (simp del: map_eq_conv)
qed

lemma put_checksum_sum:
  assumes "length blk = 512" "READ_BE_32B blk 4 = n" "READ_BE_32B blk 8 = 0" "2 < n"
  shows "CalcBEsum (put_checksum blk) n = 0"
proof -
  let ?n = "unat (if n > 128 then 128 else n)" and ?s = "CalcBEsum blk n"
  let ?f = "\<lambda>i. READ_BE_32B blk (4 * i)" and ?g = "\<lambda>i. READ_BE_32B (WRITE_BE_32B 8 (- ?s) blk) (4 * i)"
  have n: "2 < ?n" "?n \<le> 128" using assms(4) by (auto simp: word_less_nat_alt)
  have gf: "?g i = ?f i" if "i < ?n" "i \<noteq> 2" for i
    using that n(2) assms(1) by (intro READ_WRITE_other) auto
  have "sum_list (map ?g [0..<?n]) + ?f 2 = sum_list (map ?f [0..<?n]) + ?g 2"
    by (rule sum_list_update [OF n(1)]) (rule gf)
  moreover have "?g 2 = - ?s" using assms(1) READ_WRITE_same [of 8 blk "- ?s"] by simp
  moreover have "sum_list (map ?f [0..<?n]) = ?s" by (simp only: CalcBEsum_def Let_def)
  ultimately have "sum_list (map ?g [0..<?n]) = 0" using assms(3) by simp
  moreover have "put_checksum blk = WRITE_BE_32B 8 (- ?s) blk"
    using assms(2) by (simp add: put_checksum_def Let_def minus_eq_not_plus_1)
  ultimately show ?thesis by (simp only: CalcBEsum_def Let_def)
qed

lemma length_put_checksum [simp]: "length blk = 512 \<Longrightarrow> length (put_checksum blk) = 512"
  by (simp add: put_checksum_def Let_def)

lemma READ_zero: "p + 4 \<le> n \<Longrightarrow> READ_BE_32B (replicate n 0) p = 0"
  by (simp add: READ_BE_32B_def of_le32_def)

text \<open>A block with its size and an empty checksum, and what keeps that.\<close>

definition open_block :: "u8 list \<Rightarrow> u32 \<Rightarrow> bool" where
  "open_block blk n \<longleftrightarrow> length blk = 512 \<and> READ_BE_32B blk 4 = n \<and> READ_BE_32B blk 8 = 0"

lemma open_block_bytes:
  "open_block blk n \<Longrightarrow> 12 \<le> ofs \<Longrightarrow> ofs + length bs \<le> 512 \<Longrightarrow> open_block (put_bytes ofs bs blk) n"
  by (simp add: open_block_def READ_put_bytes)

lemma open_block_string:
  "open_block blk n \<Longrightarrow> 12 \<le> ofs \<Longrightarrow> ofs + length s < 512 \<Longrightarrow> open_block (put_string ofs s blk) n"
  by (simp add: put_string_def open_block_bytes)

lemma open_block_fields:
  "open_block blk n \<Longrightarrow> list_all (\<lambda>(ofs, v). 12 \<le> ofs \<and> ofs + 4 \<le> 512) vs \<Longrightarrow> open_block (put_fields vs blk) n"
  by (induction vs arbitrary: blk) (auto simp: put_fields_simps WRITE_BE_32B_def open_block_bytes)

lemma open_block_new:
  "list_all (\<lambda>(ofs, v). 12 \<le> ofs \<and> ofs + 4 \<le> 512) vs \<Longrightarrow>
     open_block (put_fields ((0, v) # (4, n) # vs) (replicate 512 0)) n"
  unfolding put_fields_simps
  by (rule open_block_fields) (simp add: open_block_def READ_WRITE_same READ_WRITE_other READ_zero)

lemma rdb_block:
  "open_block blk 0x40 \<Longrightarrow> length (put_checksum blk) = 512 \<and> CalcBEsum (put_checksum blk) 0x40 = 0"
  using put_checksum_sum [of blk "0x40"] by (simp add: open_block_def)

lemma rdb_blocks_ok:
  "length (rdsk_block dsc) = 512 \<and> CalcBEsum (rdsk_block dsc) 0x40 = 0"
  "length (part_block dsc n) = 512 \<and> CalcBEsum (part_block dsc n) 0x40 = 0"
  "length (fshd_block dsc) = 512 \<and> CalcBEsum (fshd_block dsc) 0x40 = 0"
  unfolding rdsk_block_def part_block_def fshd_block_def
  by (intro rdb_block open_block_string open_block_bytes open_block_fields open_block_new; simp)+

lemma last_divisor_cases:
  "last_divisor n ds old = old \<or> (\<exists>d\<in>set ds. last_divisor n ds old = ucast d \<and> n mod d = 0)"
proof (induction ds arbitrary: old)
  case (Cons d ds)
  from Cons [of "if n mod d = 0 then ucast d else old"] show ?case
    by (auto simp: last_divisor_def split: if_splits)
qed (simp add: last_divisor_def)

lemma last_divisor_set:
  assumes "ds \<noteq> []" "hd ds = 1"
  shows "last_divisor n ds old \<in> ucast ` set ds"
proof -
  have "last_divisor n ds old = last_divisor n (tl ds) 1"
    using assms by (cases ds) (auto simp: last_divisor_def)
  then show ?thesis using last_divisor_cases [of n "tl ds" 1] assms by (cases ds) auto
qed

lemma length_put_fields:
  "length blk = 512 \<Longrightarrow> list_all (\<lambda>(ofs, v). ofs + 4 \<le> 512) vs \<Longrightarrow> length (put_fields vs blk) = 512"
  by (induction vs arbitrary: blk) (auto simp: put_fields_simps)

text \<open>A field has the value that was written to it last.\<close>

lemma READ_put_fields:
  "length blk = 512 \<Longrightarrow> list_all (\<lambda>(ofs, v). ofs mod 4 = 0 \<and> ofs + 4 \<le> 512) vs \<Longrightarrow> p mod 4 = 0 \<Longrightarrow> p + 4 \<le> 512 \<Longrightarrow>
     READ_BE_32B (put_fields vs blk) p = (case map_of (rev vs) p of None \<Rightarrow> READ_BE_32B blk p | Some v \<Rightarrow> v)"
proof (induction vs arbitrary: blk)
  case (Cons a vs)
  obtain ofs v where a: "a = (ofs, v)" by (cases a)
  have "ofs mod 4 = 0" "p mod 4 = 0" using Cons.prems(2,3) a by simp_all
  then have "ofs \<noteq> p \<Longrightarrow> p + 4 \<le> ofs \<or> ofs + 4 \<le> p" by presburger
  then have "READ_BE_32B (WRITE_BE_32B ofs v blk) p = (if ofs = p then v else READ_BE_32B blk p)"
    using Cons.prems a by (auto simp: READ_WRITE_same READ_WRITE_other)
  moreover have "READ_BE_32B (put_fields vs (WRITE_BE_32B ofs v blk)) p
      = (case map_of (rev vs) p of None \<Rightarrow> READ_BE_32B (WRITE_BE_32B ofs v blk) p | Some v \<Rightarrow> v)"
    using Cons.prems a by (intro Cons.IH) auto
  ultimately show ?case by (auto simp: a put_fields_simps map_add_def split: option.splits)
qed (simp add: put_fields_simps)

lemma READ_part_block:
  "READ_BE_32B (part_block d n) 164 = 2" "READ_BE_32B (part_block d n) 168 = ucast (cylinders d) - 1"
proof -
  obtain b where b: "part_block d n = put_checksum (put_fields
      [(128, 0x10), (132, 128), (140, ucast (heads d)), (144, 0x01), (148, ucast (sectors d)), (152, 0x02),
       (164, 2), (168, ucast (cylinders d) - 1), (172, 0x1E), (180, 0x1FE00), (184, 0x7FFFFFFE), (188, 0),
       (192, hdf_dostype d)] b)" and l: "length b = 512"
    by (rule that [of "put_bytes 41 [of_char (CHR ''0'') + n] (put_string 37 ''FPGA0'' (put_bytes 36 [5]
      (put_fields [(0, IDNAME_PARTITION), (4, 0x40), (12, 0x07), (16, 0xFFFFFFFF), (20, 1)] (replicate 512 0))))"])
      (simp_all add: part_block_def put_string_def length_put_fields)
  have c: "READ_BE_32B (put_checksum blk) p = READ_BE_32B blk p" if "length blk = 512" "12 \<le> p" "p + 4 \<le> 512" for blk p
    using that by (simp add: put_checksum_def Let_def READ_WRITE_other)
  show "READ_BE_32B (part_block d n) 164 = 2" "READ_BE_32B (part_block d n) 168 = ucast (cylinders d) - 1"
    unfolding b by (subst c; simp add: READ_put_fields l length_put_fields)+
qed

lemma CreateRDB_parts:
  assumes "CreateRDB dsc n = Some d"
  obtains c :: u32 where "unat (sectors d) \<le> 253" "sectors d \<noteq> 0" "heads d \<noteq> 0" "file_size08 d = file_size08 dsc"
    "c = ucast (file_size08 dsc div 512) div ucast (sectors d) div ucast (heads d)"
    "cylinders d = ucast c + 2" "lba_offset d = ucast (sectors d) * ucast (heads d) * 2"
    "hdf_rdb d = [rdsk_block d, part_block d n, fshd_block d]"
proof -
  have same: "rdsk_block (d\<lparr>hdf_rdb := b\<rparr>) = rdsk_block d" "part_block (d\<lparr>hdf_rdb := b\<rparr>) m = part_block d m"
    "fshd_block (d\<lparr>hdf_rdb := b\<rparr>) = fshd_block d" for d :: drv08_desc and b m
    by (simp_all add: rdsk_block_def part_block_def fshd_block_def)
  define s where "s = last_divisor (ucast (file_size08 dsc div 512)) rdb_sectors (sectors dsc)"
  define h where "h = last_divisor (ucast (file_size08 dsc div 512) div ucast s) rdb_heads (heads dsc)"
  define c where "c = (ucast (file_size08 dsc div 512) :: u32) div ucast s div ucast h"
  define d1 where "d1 = dsc\<lparr>sectors := s, heads := h, lba_offset := ucast s * ucast h * 2, cylinders := ucast c + 2\<rparr>"
  have "s \<in> ucast ` set rdb_sectors" unfolding s_def by (rule last_divisor_set) (simp_all add: rdb_sectors_def upt_rec)
  then have s253: "unat s \<le> 253" by (auto simp: rdb_sectors_def unat_ucast_mod unat_word_ariths unat_of_nat_less)
  have "s \<noteq> 0" "h \<noteq> 0" "d = d1\<lparr>hdf_rdb := [rdsk_block d1, part_block d1 n, fshd_block d1]\<rparr>"
    using assms unfolding d1_def c_def h_def s_def
    by (auto simp: CreateRDB_def Let_def partition_offset_def split: if_splits)
  then show ?thesis by (intro that [of c]) (simp_all add: d1_def same c_def s253)
qed



subsection \<open>The geometry covers the image\<close>

lemma geometry_heads_cases:
  "geometry_heads fsize nsec spt hs cyl = (c, h) \<Longrightarrow>
     h \<in> set hs \<and> c = nsec div (h * spt) \<and> cylinders_fit fsize h c \<or>
     h = 17 \<and> (\<forall>h\<in>set hs. \<not> cylinders_fit fsize h (nsec div (h * spt)))"
proof (induction hs arbitrary: cyl)
  case (Cons h' hs)
  then show ?case by (cases "cylinders_fit fsize h' (nsec div (h' * spt))") (auto simp: Let_def)
qed simp

lemma geometry_spt_cases:
  "geometry_spt fsize nsec spts chs = (c, h, s) \<Longrightarrow> spts \<noteq> [] \<Longrightarrow>
     s \<in> set spts \<and> 4 \<le> h \<and> h \<le> 16 \<and> c = nsec div (h * s) \<and> cylinders_fit fsize h c \<or>
     h = 17 \<and> (\<forall>s\<in>set spts. \<not> cylinders_fit fsize 16 (nsec div (16 * s)))"
proof (induction spts arbitrary: chs)
  case (Cons s' spts)
  let ?hs = "[4, 5, 6, 7, 8, 9, 10, 11, 12, 13, 14, 15, 16] :: u32 list"
  obtain c' h' where r: "geometry_heads fsize nsec s' ?hs (fst chs) = (c', h')" by (cases "geometry_heads fsize nsec s' ?hs (fst chs)")
  have hs: "\<forall>h\<in>set ?hs. 4 \<le> h \<and> h \<le> 16" by simp
  from geometry_heads_cases [OF r] show ?case
  proof
    assume a: "h' \<in> set ?hs \<and> c' = nsec div (h' * s') \<and> cylinders_fit fsize h' c'"
    then have h': "4 \<le> h'" "h' \<le> 16" using hs by blast+
    then show ?thesis using Cons.prems r a by (auto simp: Let_def)
  next
    assume a: "h' = 17 \<and> (\<forall>h\<in>set ?hs. \<not> cylinders_fit fsize h (nsec div (h * s')))"
    then have n: "geometry_spt fsize nsec spts (c', 17, s') = (c, h, s)" using Cons.prems r by (simp add: Let_def)
    have "\<not> cylinders_fit fsize 16 (nsec div (16 * s'))" using a by simp
    with Cons.IH [OF n] n show ?thesis by (cases "spts = []") auto
  qed
qed simp

text \<open>
  C22. For a non-empty image that is not larger than the largest disk that can be addressed (65535
  cylinders of 16 heads with 255 sectors), the geometry is one that the ATA interface can express, it
  has no more than 1023 cylinders up to 512 MB, and it covers the image except for a part of the last
  cylinder.
\<close>

theorem GetHardfileGeometry_bounds:
  assumes "file_size08 dsc \<noteq> 0" "unat (file_size08 dsc) div 512 \<le> 65535 * 4080"
  shows "let d = GetHardfileGeometry dsc; C = unat (cylinders d); H = unat (heads d); S = unat (sectors d);
      n = unat (file_size08 dsc) div 512
    in 4 \<le> H \<and> H \<le> 16 \<and> S \<in> {63, 127, 255} \<and> (unat (file_size08 dsc) \<le> 2 ^ 29 \<longrightarrow> C \<le> 1023) \<and>
       C * H * S \<le> n \<and> n < (C + 1) * H * S"
proof -
  let ?n = "unat (file_size08 dsc) div 512" and ?w = "ucast (file_size08 dsc div 512) :: u32"
  have w: "unat ?w = ?n" using assms(2) by (simp add: unat_ucast_mod unat_div)
  obtain c h s where r: "geometry_spt (file_size08 dsc) ?w [63, 127, 255] (0, 0, 0) = (c, h, s)"
    by (cases "geometry_spt (file_size08 dsc) ?w [63, 127, 255] (0, 0, 0)")
  have big: "cylinders_fit (file_size08 dsc) 16 (?w div (16 * 255))"
  proof -
    have u: "unat (?w div 4080) = ?n div 4080" by (simp add: unat_div w)
    have "?n div 4080 \<le> 65535" using assms(2) by (simp add: div_le_mono [where k = 4080, of ?n "65535 * 4080", simplified])
    then have le: "?w div (16 * 255) \<le> 65535" by (simp add: word_le_nat_alt u)
    have "unat (file_size08 dsc) \<le> 2 ^ 29 \<Longrightarrow> ?n div 4080 \<le> 1023" by (auto simp: div_mult2_eq [symmetric])
    then have "file_size08 dsc \<le> 512 * 1024 * 1024 \<Longrightarrow> ?w div (16 * 255) \<le> 1023"
      by (simp add: word_le_nat_alt u)
    with le show ?thesis by (auto simp: cylinders_fit_def)
  qed
  with geometry_spt_cases [OF r] have g: "s \<in> {63, 127, 255}" "4 \<le> h" "h \<le> 16" "c = ?w div (h * s)"
    "cylinders_fit (file_size08 dsc) h c" by auto
  have s: "unat s \<in> {63, 127, 255}" using g(1) by auto
  have h: "4 \<le> unat h" "unat h \<le> 16" using g(2,3) by (simp_all add: word_le_nat_alt)
  have hs: "unat (h * s) = unat h * unat s" using h s by (auto simp: unat_word_ariths)
  have c: "unat c = ?n div (unat h * unat s)" by (simp add: g(4) unat_div hs w)
  have c2: "c \<le> 65535" "unat (file_size08 dsc) \<le> 2 ^ 29 \<Longrightarrow> c \<le> 1023"
    using g(5) by (auto simp: cylinders_fit_def word_le_nat_alt word_less_nat_alt split: if_splits)
  have c3: "unat (file_size08 dsc) \<le> 2 ^ 29 \<Longrightarrow> unat c \<le> 1023" using c2(2) by (simp add: word_le_nat_alt)
  let ?d = "GetHardfileGeometry dsc"
  have d: "unat (cylinders ?d) = unat c" "unat (heads ?d) = unat h" "unat (sectors ?d) = unat s"
    using assms(1) r c2(1) h s by (auto simp: GetHardfileGeometry_def unat_ucast_mod word_le_nat_alt)
  have p: "0 < unat h * unat s" using h s by auto
  have "?n div (unat h * unat s) * (unat h * unat s) \<le> ?n" by (rule div_times_less_eq_dividend)
  moreover have "?n < (?n div (unat h * unat s) + 1) * (unat h * unat s)"
    using p by (metis Suc_eq_plus1 dividend_less_div_times add.commute mult_Suc)
  ultimately show ?thesis unfolding Let_def d using h s c3 by (simp add: c [symmetric] algebra_simps)
qed

lemma GetHardfileGeometry_bounds_witness:
  "let d = GetHardfileGeometry (zero_drv08_desc\<lparr>file_size08 := 268435456\<rparr>)
   in 4 \<le> unat (heads d) \<and> unat (heads d) \<le> 16 \<and> unat (cylinders d) \<le> 1023"
  using GetHardfileGeometry_bounds [of "zero_drv08_desc\<lparr>file_size08 := 268435456\<rparr>"] by (simp add: Let_def)

subsection \<open>The index of a sector\<close>

lemma index_step_le:
  assumes "unat i < 2 ^ 54" "unat j = 2 ^ unat k" "unat k \<le> 54"
  shows "\<exists>m. unat (index_step i j k) = m \<and> unat k \<le> m \<and> m \<le> 54 \<and> unat i \<le> 2 ^ m \<and> (unat k < m \<longrightarrow> 2 ^ m < 2 * unat i)"
  using assms
proof (induction i j k rule: index_step.induct)
  case (1 i j k)
  show ?case
  proof (cases "j < i")
    case True
    have lt: "2 ^ unat k < unat i" using True 1(3) by (simp add: word_less_nat_alt)
    have k54: "unat k < 54"
    proof (rule ccontr)
      assume "\<not> unat k < 54"
      then have "(2 :: nat) ^ 54 \<le> 2 ^ unat k" by (intro power_increasing) auto
      with lt 1(2) show False by linarith
    qed
    have jb: "unat j < 2 ^ 54" using lt 1(2,3) by linarith
    have j: "j < push_bit 63 1" "j \<noteq> 0" using jb 1(3) by (auto simp: word_less_nat_alt)
    have j2: "unat (push_bit 1 j) = 2 * unat j" using jb by (simp add: push_bit_eq_mult unat_word_ariths)
    have k1: "unat (k + 1) = unat k + 1" using k54 by (simp add: unat_word_ariths)
    have e: "index_step i j k = index_step i (push_bit 1 j) (k + 1)"
      using True j by (simp add: index_step.simps [of i j k])
    from 1(1) [OF _ 1(2)] True j j2 k1 k54 1(3) obtain m where
      m: "unat (index_step i (push_bit 1 j) (k + 1)) = m" "unat k + 1 \<le> m" "m \<le> 54" "unat i \<le> 2 ^ m"
        "unat k + 1 < m \<longrightarrow> 2 ^ m < 2 * unat i" by auto
    have "2 ^ m < 2 * unat i"
    proof (cases "unat k + 1 < m")
      case False
      with m(2) have "m = unat k + 1" by simp
      with lt show ?thesis by simp
    qed (use m(5) in simp)
    with m show ?thesis unfolding e by auto
  next
    case False
    then have "index_step i j k = k" by (simp add: index_step.simps [of i j k])
    moreover have "unat i \<le> 2 ^ unat k" using False 1(3) by (simp add: word_less_nat_alt not_less)
    ultimately show ?thesis using 1(4) by auto
  qed
qed

lemma BuildHardfileIndex_size:
  "\<exists>k. unat (index_size (BuildHardfileIndex dsc)) = k \<and> 16 \<le> k \<and> k \<le> 54 \<and> unat (file_size08 dsc) < 2 ^ (k + 10) + 1024 \<and>
     (16 < k \<longrightarrow> 2 ^ k < 2 * (unat (file_size08 dsc) div 1024))"
proof -
  let ?i = "drop_bit 10 (file_size08 dsc)"
  have i: "unat ?i = unat (file_size08 dsc) div 1024" by (simp add: drop_bit_eq_div unat_div)
  have "unat (file_size08 dsc) < 2 ^ 64" using unat_bound [of "file_size08 dsc"] by simp
  then have "unat ?i < 2 ^ 54" by (simp add: i less_mult_imp_div_less)
  from index_step_le [OF this, of "push_bit 16 1" 16] obtain k where
    k: "unat (index_step ?i (push_bit 16 1) 16) = k" "16 \<le> k" "k \<le> 54" "unat (file_size08 dsc) div 1024 \<le> 2 ^ k"
      "16 < k \<longrightarrow> 2 ^ k < 2 * (unat (file_size08 dsc) div 1024)" by (auto simp: i)
  have a: "unat (file_size08 dsc) < 2 ^ (k + 10) + 1024" using k(4) by (simp add: power_add) 
  with a k show ?thesis by (auto simp: BuildHardfileIndex_def)
qed



subsection \<open>Seeking\<close>

text \<open>What the table and the last position know is true of the file.\<close>

definition at_cluster :: "FIL \<Rightarrow> nat \<Rightarrow> u32 \<Rightarrow> bool" where
  "at_cluster f pos cl \<longleftrightarrow> pos = 0 \<or> cl = chain f ((pos - 1) div csize f)"

definition seek_inv :: "drv08_desc \<Rightarrow> FIL \<Rightarrow> bool" where
  "seek_inv dsc f \<longleftrightarrow>
     length (index dsc) = 1024 \<and> 16 \<le> unat (index_size dsc) \<and> unat (index_size dsc) < 31 \<and>
     (\<forall>i<1024. index dsc ! i = no_cluster \<or> at_cluster f (i * 2 ^ unat (index_size dsc)) (index dsc ! i)) \<and>
     (mru_lba dsc = 0xFFFFFFFF \<or> at_cluster f (512 * unat (mru_lba dsc)) (mru_cluster dsc))"

lemma clust_ok_at: "clust_ok f \<longleftrightarrow> at_cluster f (fptr f) (clust f)"
  by (simp add: clust_ok_def at_cluster_def)

lemma at_cluster_moved [simp]:
  "at_cluster (f\<lparr>fptr := p\<rparr>) = at_cluster f" "at_cluster (f\<lparr>clust := c\<rparr>) = at_cluster f"
  by (simp_all add: at_cluster_def fun_eq_iff)

lemma healthy_clust [simp]: "healthy (f\<lparr>clust := c\<rparr>) = healthy f" "f_size (f\<lparr>clust := c\<rparr>) = f_size f"
  by (simp_all add: healthy_def file_ok_def f_size_def)

lemma c_seek_healthy:
  assumes "healthy f" "clust_ok f" "unat ofs \<le> f_size f" "f_size f < 2 ^ 64"
  shows "\<exists>cl. c_seek f ofs = Some (0, f\<lparr>fptr := unat ofs, clust := cl\<rparr>) \<and> at_cluster f (unat ofs) cl"
proof -
  have "FF_Seek f (uint ofs) FF_SEEK_SET = (0, f\<lparr>fptr := unat ofs\<rparr>)"
    using FF_Seek_healthy [OF assms(1), of "uint ofs"] assms(3,4) by simp
  then have "c_seek f ofs = Some (0, clust_sync (f\<lparr>fptr := unat ofs\<rparr>))"
    using assms(2) by (simp add: c_seek_def)
  moreover have "clust_sync (f\<lparr>fptr := unat ofs\<rparr>) = f\<lparr>fptr := unat ofs, clust := clust (clust_sync (f\<lparr>fptr := unat ofs\<rparr>))\<rparr>"
    by (simp add: clust_sync_def)
  moreover have "at_cluster f (unat ofs) (clust (clust_sync (f\<lparr>fptr := unat ofs\<rparr>)))"
    by (simp add: clust_sync_def at_cluster_def)
  ultimately show ?thesis by metis
qed

lemma index_fill_correct:
  assumes "healthy f" "clust_ok f" "f_size f < 2 ^ 64" "k < 31"
    and "a \<le> b" "b \<le> 1024" "a < b \<Longrightarrow> (b - 1) * 2 ^ k \<le> f_size f" "length ix = 1024"
    and "\<forall>i<1024. ix ! i = no_cluster \<or> at_cluster f (i * 2 ^ k) (ix ! i)"
  shows "\<exists>ix' p cl. index_fill (push_bit k 1) [a..<b] (of_nat a * push_bit k 1) ix f = Some (ix', f\<lparr>fptr := p, clust := cl\<rparr>) \<and>
    at_cluster f p cl \<and> p \<le> f_size f \<and> length ix' = 1024 \<and>
    (\<forall>i<1024. ix' ! i = no_cluster \<or> at_cluster f (i * 2 ^ k) (ix' ! i)) \<and>
    (\<forall>i. a \<le> i \<longrightarrow> i < b \<longrightarrow> at_cluster f (i * 2 ^ k) (ix' ! i)) \<and> (\<forall>i<a. ix' ! i = ix ! i)"
  using assms
proof (induction "b - a" arbitrary: a ix f)
  case 0
  then have "f\<lparr>fptr := fptr f, clust := clust f\<rparr> = f" "[a..<b] = []" by simp_all
  with 0 show ?case by (auto simp: clust_ok_at healthy_def file_ok_def intro!: exI [of _ "fptr f"] exI [of _ "clust f"])
next
  case (Suc n)
  let ?st = "push_bit k 1 :: u64"
  have ab: "a < b" "a < 1024" using Suc by simp_all
  have u: "[a..<b] = a # [Suc a..<b]" using ab(1) by (rule upt_conv_Cons)
  have next': "of_nat a * ?st + ?st = of_nat (Suc a) * ?st" by (simp add: algebra_simps)
  have st: "unat (2 ^ k :: u64) = 2 ^ k" using Suc.prems(4) by (simp add: unat_pow2)
  have "a * 2 ^ k < 1024 * 2 ^ 31" using ab(2) Suc.prems(4) by (intro mult_strict_mono power_strict_increasing) auto
  then have ofs: "unat (of_nat a * ?st) = a * 2 ^ k"
    using ab(2) by (simp add: unat_word_ariths st unat_of_nat_less)
  have "a * 2 ^ k \<le> (b - 1) * 2 ^ k" using ab(1) by (intro mult_le_mono1) simp
  then have in_file: "a * 2 ^ k \<le> f_size f" using Suc.prems(7) [OF ab(1)] by (rule le_trans)
  have hyp: "n = b - Suc a" using Suc.hyps(2) by simp
  obtain ix0 f0 where st0: "index_fill ?st (a # [Suc a..<b]) (of_nat a * ?st) ix f = index_fill ?st [Suc a..<b] (of_nat (Suc a) * ?st) ix0 f0"
    "healthy f0" "clust_ok f0" "\<exists>p cl. f0 = f\<lparr>fptr := p, clust := cl\<rparr>" "length ix0 = 1024" "at_cluster f (a * 2 ^ k) (ix0 ! a)"
    "\<forall>i<1024. i \<noteq> a \<longrightarrow> ix0 ! i = ix ! i"
  proof (cases "ix ! a = no_cluster")
    case False
    then have q1: "index_fill ?st (a # [Suc a..<b]) (of_nat a * ?st) ix f = index_fill ?st [Suc a..<b] (of_nat (Suc a) * ?st) ix f"
      unfolding next' [symmetric] by simp
    have q2: "\<exists>p cl. f = f\<lparr>fptr := p, clust := cl\<rparr>" by (rule exI [of _ "fptr f"], rule exI [of _ "clust f"]) simp
    have q3: "at_cluster f (a * 2 ^ k) (ix ! a)" using False Suc.prems(9) ab(2) by blast
    show ?thesis by (rule that [OF q1 Suc.prems(1,2) q2 Suc.prems(8) q3]) simp
  next
    case True
    obtain cl where cl: "c_seek f (of_nat a * ?st) = Some (0, f\<lparr>fptr := a * 2 ^ k, clust := cl\<rparr>)" "at_cluster f (a * 2 ^ k) cl"
      using c_seek_healthy [OF Suc.prems(1,2) _ Suc.prems(3), of "of_nat a * ?st"] in_file unfolding ofs by auto
    let ?f = "f\<lparr>fptr := a * 2 ^ k, clust := cl\<rparr>"
    have q1: "index_fill ?st (a # [Suc a..<b]) (of_nat a * ?st) ix f
        = index_fill ?st [Suc a..<b] (of_nat (Suc a) * ?st) (ix[a := cl]) ?f"
      unfolding next' [symmetric] index_fill.simps cl(1) using True by simp
    have q2: "healthy ?f" "clust_ok ?f" using Suc.prems(1) in_file cl(2) by (simp_all add: clust_ok_at)
    have q3: "\<exists>p c. ?f = f\<lparr>fptr := p, clust := c\<rparr>" by blast
    have q4: "length (ix[a := cl]) = 1024" "at_cluster f (a * 2 ^ k) (ix[a := cl] ! a)" using Suc.prems(8) ab(2) cl(2) by simp_all
    show ?thesis by (rule that [OF q1 q2 q3 q4]) simp
  qed
  then obtain p0 c0 where f0: "f0 = f\<lparr>fptr := p0, clust := c0\<rparr>" by blast
  have same: "f_size f0 = f_size f" "at_cluster f0 = at_cluster f" by (simp_all add: f0)
  have h1: "\<forall>i<1024. ix0 ! i = no_cluster \<or> at_cluster f0 (i * 2 ^ k) (ix0 ! i)"
    using Suc.prems(9) st0(6,7) unfolding same by metis
  have h2: "f_size f0 < 2 ^ 64" "Suc a \<le> b" "Suc a < b \<Longrightarrow> (b - 1) * 2 ^ k \<le> f_size f0"
    using Suc.prems(3,7) ab(1) by (simp_all add: same)
  from Suc.hyps(1) [OF hyp st0(2,3) h2(1) Suc.prems(4) h2(2) Suc.prems(6) h2(3) st0(5) h1] obtain ix' p cl where
      r: "index_fill ?st [Suc a..<b] (of_nat (Suc a) * ?st) ix0 f0 = Some (ix', f0\<lparr>fptr := p, clust := cl\<rparr>)"
      "at_cluster f p cl" "p \<le> f_size f" "length ix' = 1024"
      "\<forall>i<1024. ix' ! i = no_cluster \<or> at_cluster f (i * 2 ^ k) (ix' ! i)"
      "\<forall>i. Suc a \<le> i \<longrightarrow> i < b \<longrightarrow> at_cluster f (i * 2 ^ k) (ix' ! i)" "\<forall>i<Suc a. ix' ! i = ix0 ! i"
    unfolding same by blast
  have "f0\<lparr>fptr := p, clust := cl\<rparr> = f\<lparr>fptr := p, clust := cl\<rparr>" by (simp add: f0)
  moreover have "\<forall>i. a \<le> i \<longrightarrow> i < b \<longrightarrow> at_cluster f (i * 2 ^ k) (ix' ! i)"
    using r(6,7) st0(6) by (metis lessI le_neq_implies_less Suc_leI)
  moreover have "\<forall>i<a. ix' ! i = ix ! i" using r(7) st0(7) ab(2) by simp
  ultimately show ?case using r(1-5) st0(1) unfolding u by metis
qed

lemma index_start_le: "index_start ix n \<le> n"
  by (induction n) auto

lemma and_not_mask: "(w :: 'a :: len word) AND NOT (mask k) = push_bit k (drop_bit k w)"
  by (rule bit_word_eqI) (auto simp: bit_and_iff bit_not_iff bit_mask_iff bit_push_bit_iff bit_drop_bit_eq)

lemma unat_lba_byte: "unat (push_bit 9 (ucast (lba :: u32)) :: u64) = 512 * unat lba"
  using unat_bound [of lba] by (simp add: unat_push_bit del: push_bit_eq_mult)

lemma table_pos:
  assumes "9 \<le> k" "k < 31"
  shows "unat ((push_bit 9 (ucast (lba :: u32)) :: u64) AND NOT (mask k)) = unat lba div 2 ^ (k - 9) * 2 ^ k"
proof -
  have "unat (drop_bit k (push_bit 9 (ucast lba) :: u64)) = 512 * unat lba div 2 ^ k"
    by (simp only: unat_drop_bit unat_lba_byte)
  also have "\<dots> = unat lba div 2 ^ (k - 9)"
  proof -
    have "(2 :: nat) ^ k = 512 * 2 ^ (k - 9)" using assms(1) power_add [of "2 :: nat" 9 "k - 9"] by simp
    then show ?thesis by simp
  qed
  finally have d: "unat (drop_bit k (push_bit 9 (ucast lba) :: u64)) = unat lba div 2 ^ (k - 9)" .
  have "unat lba div 2 ^ (k - 9) * 2 ^ k < 2 ^ 64"
  proof -
    have "unat lba < 2 ^ 32" using unat_bound [of lba] by simp
    then have "unat lba div 2 ^ (k - 9) < 2 ^ 32" by (rule le_less_trans [OF div_le_dividend])
    then have "unat lba div 2 ^ (k - 9) * 2 ^ k < 2 ^ 32 * 2 ^ 31"
      using assms(2) by (intro mult_strict_mono power_strict_increasing) auto
    then show ?thesis by simp
  qed
  then show ?thesis unfolding and_not_mask unat_push_bit d by simp
qed

lemma seek_cluster_correct:
  assumes "healthy f" "clust_ok f" "seek_inv dsc f" "512 * unat lba \<le> f_size f" "f_size f < 2 ^ 32"
    and idx: "unat lba div 2 ^ (unat (index_size dsc) - 9) < 1024"
  shows "\<exists>ix p cl. seek_cluster dsc lba f = Some (ix, f\<lparr>fptr := p, clust := cl\<rparr>) \<and> p \<le> f_size f \<and>
    at_cluster f p cl \<and> seek_inv (dsc\<lparr>index := ix\<rparr>) f"
proof -
  let ?k = "unat (index_size dsc)" and ?i = "unat lba div 2 ^ (unat (index_size dsc) - 9)"
  define f1 where "f1 = (if lba = mru_lba dsc
      then f\<lparr>fptr := unat (push_bit 9 (mru_lba dsc)), clust := mru_cluster dsc\<rparr> else f)"
  have k: "16 \<le> ?k" "?k < 31" using assms(3) by (simp_all add: seek_inv_def)
  have lba: "unat lba < 2 ^ 23" using assms(4,5) by simp
  then have not_none: "lba \<noteq> 0xFFFFFFFF" by auto
  have m: "unat (push_bit 9 lba) = 512 * unat lba" using lba by (simp add: unat_push_bit del: push_bit_eq_mult)
  have f1: "\<exists>p cl. f1 = f\<lparr>fptr := p, clust := cl\<rparr> \<and> p \<le> f_size f \<and> at_cluster f p cl"
  proof (cases "lba = mru_lba dsc")
    case True
    then have "at_cluster f (512 * unat lba) (mru_cluster dsc)" using assms(3) not_none by (auto simp: seek_inv_def)
    with True m assms(4) show ?thesis unfolding f1_def by (intro exI [of _ "512 * unat lba"] exI [of _ "mru_cluster dsc"]) (simp del: push_bit_eq_mult)
  next
    case False
    with assms(1,2) show ?thesis unfolding f1_def
      by (intro exI [of _ "fptr f"] exI [of _ "clust f"]) (simp add: clust_ok_at healthy_def file_ok_def)
  qed
  then obtain p1 c1 where p1: "f1 = f\<lparr>fptr := p1, clust := c1\<rparr>" "p1 \<le> f_size f" "at_cluster f p1 c1" by blast
  have ok1: "healthy f1" "clust_ok f1" "f_size f1 < 2 ^ 64" "at_cluster f1 = at_cluster f" "f_size f1 = f_size f"
    using assms(1,5) p1(2,3) by (simp_all add: p1(1) clust_ok_at)
  have ii: "unat (ucast (drop_bit (?k - 9) lba) :: u16) = ?i"
    using idx by (simp add: unat_ucast_mod unat_drop_bit)
  have in_file: "?i * 2 ^ ?k \<le> f_size f"
  proof -
    have "(2 :: nat) ^ ?k = 512 * 2 ^ (?k - 9)" using k(1) power_add [of "2 :: nat" 9 "?k - 9"] by simp
    then have "?i * 2 ^ ?k = 512 * (?i * 2 ^ (?k - 9))" by simp
    also have "\<dots> \<le> 512 * unat lba" by (simp add: div_times_less_eq_dividend del: mult_le_cancel1)
    finally show ?thesis using assms(4) by simp
  qed
  let ?ix = "index dsc" and ?s = "index_start (index dsc) ?i"
  have tab: "\<exists>ix p cl. (if ?ix ! ?i = no_cluster
          then index_fill (push_bit ?k 1) [?s..<Suc ?i] (of_nat ?s * push_bit ?k 1) ?ix f1
          else Some (?ix, f1)) = Some (ix, f\<lparr>fptr := p, clust := cl\<rparr>) \<and>
      at_cluster f (?i * 2 ^ ?k) (ix ! ?i) \<and> length ix = 1024 \<and>
      (\<forall>i<1024. ix ! i = no_cluster \<or> at_cluster f (i * 2 ^ ?k) (ix ! i))"
  proof (cases "?ix ! ?i = no_cluster")
    case True
    have sz: "Suc ?i \<le> 1024" "?s \<le> Suc ?i" using idx index_start_le [of ?ix ?i] by simp_all
    have last: "?s < Suc ?i \<Longrightarrow> (Suc ?i - 1) * 2 ^ ?k \<le> f_size f1" using in_file ok1(5) by simp
    have old: "length ?ix = 1024" "\<forall>i<1024. ?ix ! i = no_cluster \<or> at_cluster f1 (i * 2 ^ ?k) (?ix ! i)"
      using assms(3) by (simp_all add: seek_inv_def ok1(4))
    obtain ix p cl where r: "index_fill (push_bit ?k 1) [?s..<Suc ?i] (of_nat ?s * push_bit ?k 1) ?ix f1 = Some (ix, f1\<lparr>fptr := p, clust := cl\<rparr>)"
      "length ix = 1024" "\<forall>i<1024. ix ! i = no_cluster \<or> at_cluster f (i * 2 ^ ?k) (ix ! i)"
      "\<forall>i. ?s \<le> i \<longrightarrow> i < Suc ?i \<longrightarrow> at_cluster f (i * 2 ^ ?k) (ix ! i)"
      using index_fill_correct [OF ok1(1,2,3) k(2) sz(2,1) last old] unfolding ok1(4) by blast
    have "f1\<lparr>fptr := p, clust := cl\<rparr> = f\<lparr>fptr := p, clust := cl\<rparr>" by (simp add: p1(1))
    moreover have "at_cluster f (?i * 2 ^ ?k) (ix ! ?i)" using r(4) index_start_le [of ?ix ?i] by simp
    ultimately show ?thesis using True r(1-3) by metis
  next
    case False
    moreover have "at_cluster f (?i * 2 ^ ?k) (?ix ! ?i)" using False assms(3) idx by (auto simp: seek_inv_def)
    ultimately show ?thesis using assms(3) p1(1) by (auto simp: seek_inv_def)
  qed
  then obtain ix p cl where t: "(if ?ix ! ?i = no_cluster
          then index_fill (push_bit ?k 1) [?s..<Suc ?i] (of_nat ?s * push_bit ?k 1) ?ix f1
          else Some (?ix, f1)) = Some (ix, f\<lparr>fptr := p, clust := cl\<rparr>)"
      "at_cluster f (?i * 2 ^ ?k) (ix ! ?i)" "length ix = 1024"
      "\<forall>i<1024. ix ! i = no_cluster \<or> at_cluster f (i * 2 ^ ?k) (ix ! i)" by blast
  have inv: "seek_inv (dsc\<lparr>index := ix\<rparr>) f" using t(3,4) assms(3) by (simp add: seek_inv_def)
  have inv0: "seek_inv (dsc\<lparr>index := ?ix\<rparr>) f" using assms(3) by simp
  note pos = table_pos [OF _ k(2), of lba]
  define jump where "jump \<longleftrightarrow> (of_nat (unat (push_bit 9 (ucast lba) :: u64) div csize f1) :: u32) < of_nat (fptr f1 div csize f1) \<or>
      (of_nat (unat (push_bit 9 (ucast lba) :: u64) div csize f1) :: u32) > of_nat (fptr f1 div csize f1) + 1 \<or> ?ix ! ?i = no_cluster"
  have e: "seek_cluster dsc lba f =
      (if jump then Some (ix, f\<lparr>fptr := ?i * 2 ^ ?k, clust := ix ! ?i\<rparr>) else Some (?ix, f1))"
    unfolding seek_cluster_def Let_def f1_def [symmetric] ii jump_def [symmetric] t(1)
    using k idx pos by (simp del: push_bit_eq_mult)
  show ?thesis
  proof (cases jump)
    case True
    with e t(2) in_file inv show ?thesis by auto
  next
    case False
    with e p1 inv0 show ?thesis by auto
  qed
qed

text \<open>The sector of the file that a sector of the disk is.\<close>

definition file_lba :: "drv08_desc \<Rightarrow> u32 \<Rightarrow> u32" where
  "file_lba dsc lba = (if format08 dsc = HDF_NAKED then lba - lba_offset dsc else lba)"

text \<open>A drive with an image file that is in order, and the sectors that a seek can reach.\<close>

definition image_ok :: "drv08_desc \<Rightarrow> FIL \<Rightarrow> bool" where
  "image_ok dsc f \<longleftrightarrow> format08 dsc \<noteq> MMC \<and> healthy f \<and> clust_ok f \<and> seek_inv dsc f \<and> f_size f < 2 ^ 32"

definition in_image :: "drv08_desc \<Rightarrow> FIL \<Rightarrow> u32 \<Rightarrow> bool" where
  "in_image dsc f lba \<longleftrightarrow>
     (format08 dsc = HDF_NAKED \<longrightarrow> lba_offset dsc \<le> lba) \<and> 512 * unat (file_lba dsc lba) \<le> f_size f \<and>
     512 * unat (file_lba dsc lba) < 1024 * 2 ^ unat (index_size dsc)"

lemma seek_inv_moved [simp]: "seek_inv dsc (f\<lparr>fptr := p\<rparr>) = seek_inv dsc f" "seek_inv dsc (f\<lparr>clust := c\<rparr>) = seek_inv dsc f"
  by (simp_all add: seek_inv_def)

lemma seek_entry:
  assumes "16 \<le> k" "512 * unat lba < 1024 * 2 ^ k"
  shows "unat lba div 2 ^ (k - 9) < 1024"
proof -
  have "(2 :: nat) ^ k = 512 * 2 ^ (k - 9)" using assms(1) power_add [of "2 :: nat" 9 "k - 9"] by simp
  then have "unat lba < 1024 * 2 ^ (k - 9)" using assms(2) by simp
  then show ?thesis by (simp add: less_mult_imp_div_less)
qed

lemma HardFileSeek_disk:
  assumes "fSource pDrive = Some f" "image_ok dsc f" "in_image dsc f lba"
  shows "\<exists>p cl ix m mc w'.
    HardFileSeek pDrive dsc lba w
      = Some (0, pDrive\<lparr>fSource := Some (f\<lparr>fptr := p, clust := cl\<rparr>)\<rparr>,
              dsc\<lparr>index := ix, mru_lba := m, mru_cluster := mc\<rparr>, w') \<and>
    p = 512 * unat (file_lba dsc lba) \<and>
    image_ok (dsc\<lparr>index := ix, mru_lba := m, mru_cluster := mc\<rparr>) (f\<lparr>fptr := p, clust := cl\<rparr>) \<and>
    sends cmd w w' []"
proof -
  let ?l = "file_lba dsc lba"
  have f: "format08 dsc \<noteq> MMC" "healthy f" "clust_ok f" "seek_inv dsc f" "f_size f < 2 ^ 32"
    using assms(2) by (simp_all add: image_ok_def)
  have l: "\<not> (format08 dsc = HDF_NAKED \<and> lba < lba_offset dsc)" "512 * unat ?l \<le> f_size f"
    "512 * unat ?l < 1024 * 2 ^ unat (index_size dsc)" using assms(3) by (auto simp: in_image_def)
  have "16 \<le> unat (index_size dsc)" using f(4) by (simp add: seek_inv_def)
  from seek_cluster_correct [OF f(2-4) l(2) f(5) seek_entry [OF this l(3)]] obtain ix p1 c1 where
    sc: "seek_cluster dsc ?l f = Some (ix, f\<lparr>fptr := p1, clust := c1\<rparr>)" "p1 \<le> f_size f" "at_cluster f p1 c1"
      "seek_inv (dsc\<lparr>index := ix\<rparr>) f" by blast
  let ?f1 = "f\<lparr>fptr := p1, clust := c1\<rparr>" and ?p = "512 * unat ?l"
  have f1: "healthy ?f1" "clust_ok ?f1" "?p \<le> f_size ?f1" "f_size ?f1 < 2 ^ 64" "at_cluster ?f1 = at_cluster f"
    using f(2,5) sc(2,3) l(2) by (simp_all add: clust_ok_at)
  obtain cl where cl: "c_seek ?f1 (push_bit 9 (ucast ?l)) = Some (0, f\<lparr>fptr := ?p, clust := cl\<rparr>)" "at_cluster f ?p cl"
    using c_seek_healthy [OF f1(1,2) _ f1(4), of "push_bit 9 (ucast ?l)"] f1(3) unfolding unat_lba_byte f1(5) by auto
  let ?w1 = "snd (Timer_Get 0 w)" and ?w2 = "snd (Timer_Get 0 (snd (Timer_Get 0 w)))"
  let ?f2 = "f\<lparr>fptr := ?p, clust := cl\<rparr>" and ?d2 = "dsc\<lparr>index := ix, mru_lba := ?l, mru_cluster := cl\<rparr>"
  have "HardFileSeek pDrive dsc lba w = Some (0, pDrive\<lparr>fSource := Some ?f2\<rparr>, ?d2, ?w2)"
    using f(1) l(1) unfolding HardFileSeek_def Let_def case_prod_beta file_lba_def [symmetric] assms(1)
    by (simp add: sc(1) cl(1) del: push_bit_eq_mult)
  moreover have "sends cmd w ?w2 []"
    using sends_trans0 [OF sends_Timer_Get sends_Timer_Get] .
  moreover have "image_ok ?d2 ?f2"
    using f(1,2,5) l(2) cl(2) sc(4) by (simp add: image_ok_def clust_ok_at seek_inv_def)
  ultimately show ?thesis by blast
qed

text \<open>
  C7. Seeking in an image: from a file whose current cluster and cluster table are consistent, a seek to
  a sector inside the image succeeds whether it uses the last position, the table (which it
  completes) or neither; it changes nothing but the file pointer, which is then at the sector, the
  cluster and the table, and these are consistent again.  It sends nothing to the core.
\<close>

theorem HardFileSeek_correct:
  assumes "fSource pDrive = Some f" "image_ok dsc f" "in_image dsc f lba"
  shows "\<exists>p cl ix m mc w'.
    HardFileSeek pDrive dsc lba w
      = Some (0, pDrive\<lparr>fSource := Some (f\<lparr>fptr := p, clust := cl\<rparr>)\<rparr>,
              dsc\<lparr>index := ix, mru_lba := m, mru_cluster := mc\<rparr>, w') \<and>
    p = 512 * unat (file_lba dsc lba) \<and>
    image_ok (dsc\<lparr>index := ix, mru_lba := m, mru_cluster := mc\<rparr>) (f\<lparr>fptr := p, clust := cl\<rparr>) \<and>
    sends cmd w w' []"
  by (rule HardFileSeek_disk [OF assms])

definition seek_drive :: "drv08_desc \<Rightarrow> FIL \<Rightarrow> fch" where
  "seek_drive dsc f = \<lparr>status = FILEIO_STAT_INSERTED, fSource = Some f, pDesc = Some (Desc08 dsc), fch_name = ''disk''\<rparr>"

lemma HardFileSeek_correct_witness:
  "let dsc = (BuildHardfileIndex zero_drv08_desc)\<lparr>format08 := HDF\<rparr>; f = test_file (replicate 8192 0)
   in case HardFileSeek (seek_drive dsc f) dsc 9 test_channel of
        Some (e, d, dsc', w') \<Rightarrow> e = 0 \<and> map_option fptr (fSource d) = Some 4608
      | None \<Rightarrow> False"
proof -
  let ?dsc = "(BuildHardfileIndex zero_drv08_desc)\<lparr>format08 := HDF\<rparr>" and ?f = "test_file (replicate 8192 0)"
  have k: "index_size ?dsc = 16" "index ?dsc = replicate 1024 no_cluster" "mru_lba ?dsc = 0xFFFFFFFF"
    by (simp_all add: BuildHardfileIndex_def zero_drv08_desc_def index_step.simps)
  have f: "f_size ?f = 8192" "clust_ok ?f" "healthy ?f" by (simp_all add: test_file_ok f_size_def clust_ok_def)
  have "image_ok ?dsc ?f" "in_image ?dsc ?f 9"
    using k f by (simp_all add: image_ok_def seek_inv_def in_image_def file_lba_def)
  from HardFileSeek_correct [OF _ this, of "seek_drive ?dsc ?f" test_channel 0] show ?thesis
    unfolding Let_def by (auto simp: seek_drive_def file_lba_def)
qed

subsection \<open>The geometry of a card\<close>

lemma last_divisor64_max:
  assumes "0 < a" "b \<le> 256"
  shows "last_divisor64 n (map of_nat [a..<b]) 0 = 0 \<and> (\<forall>d. a \<le> d \<and> d < b \<longrightarrow> \<not> d dvd unat n) \<or>
    (\<exists>d. last_divisor64 n (map of_nat [a..<b]) 0 = of_nat d \<and> a \<le> d \<and> d < b \<and> d dvd unat n \<and>
      (\<forall>d'. d < d' \<and> d' < b \<longrightarrow> \<not> d' dvd unat n))"
  using assms(2)
proof (induction b)
  case (Suc b)
  show ?case
  proof (cases "a \<le> b")
    case True
    have u: "unat (of_nat b :: u64) = b" using Suc.prems by (simp add: unat_of_nat_less)
    have "n mod of_nat b = 0 \<longleftrightarrow> b dvd unat n"
      by (simp add: word_unat_eq_iff unat_mod u dvd_eq_mod_eq_0)
    moreover have "(ucast (of_nat b :: u64) :: u16) = of_nat b" using Suc.prems by (simp add: word_unat_eq_iff unat_ucast_mod u unat_of_nat take_bit_eq_mod)
    ultimately have e: "last_divisor64 n (map of_nat [a..<Suc b]) 0
        = (if b dvd unat n then of_nat b else last_divisor64 n (map of_nat [a..<b]) 0)"
      using True by (simp add: last_divisor64_def)
    show ?thesis
    proof (cases "b dvd unat n")
      case True
      with e \<open>a \<le> b\<close> show ?thesis by (intro disjI2 exI [of _ b]) auto
    next
      case False
      with Suc e show ?thesis by (auto simp: less_Suc_eq)
    qed
  qed (auto simp: last_divisor64_def)
qed (simp add: last_divisor64_def)




end
