(* ===== verification/Drv08.thy ===== *)
theory Drv08
  imports Hardfile
begin

text \<open>
  The ATA driver, the second part of \<open>fileio_drv08_ata.c\<close>: the commands that the core passes on through
  its task file, for image files, for the memory card itself and for images whose rigid disk blocks are
  made up.

  The task file is the list of its eight bytes.  Counters are natural numbers (16 bits in the C code,
  and at most 256).  Messages and measurements that are compiled out are left out.
\<close>

abbreviation DRV08_MAX_NUM_BLOCKS :: nat where "DRV08_MAX_NUM_BLOCKS \<equiv> 4"
abbreviation DRV08_MAX_READ_BURST :: nat where "DRV08_MAX_READ_BURST \<equiv> 7"

abbreviation (input) DRV08_STATUS_END :: u8 where "DRV08_STATUS_END \<equiv> 0x80"
abbreviation (input) DRV08_STATUS_IRQ :: u8 where "DRV08_STATUS_IRQ \<equiv> 0x10"
abbreviation (input) DRV08_STATUS_RDY :: u8 where "DRV08_STATUS_RDY \<equiv> 0x08"
abbreviation (input) DRV08_STATUS_REQ :: u8 where "DRV08_STATUS_REQ \<equiv> 0x04"
abbreviation (input) DRV08_STATUS_END_IRQ :: u8 where "DRV08_STATUS_END_IRQ \<equiv> 0x90"
abbreviation (input) DRV08_STATUS_END_IRQ_ERR :: u8 where "DRV08_STATUS_END_IRQ_ERR \<equiv> 0x91"
abbreviation (input) DRV08_ERROR_ABRT :: u8 where "DRV08_ERROR_ABRT \<equiv> 0x04"

abbreviation (input) DRV08_CMD_RECALIBRATE :: u8 where "DRV08_CMD_RECALIBRATE \<equiv> 0x10"
abbreviation (input) DRV08_CMD_READ_SECTORS :: u8 where "DRV08_CMD_READ_SECTORS \<equiv> 0x20"
abbreviation (input) DRV08_CMD_WRITE_SECTORS :: u8 where "DRV08_CMD_WRITE_SECTORS \<equiv> 0x30"
abbreviation (input) DRV08_CMD_READ_VERIFY :: u8 where "DRV08_CMD_READ_VERIFY \<equiv> 0x40"
abbreviation (input) DRV08_CMD_EXECUTE_DEVICE_DIAGNOSTIC :: u8 where "DRV08_CMD_EXECUTE_DEVICE_DIAGNOSTIC \<equiv> 0x90"
abbreviation (input) DRV08_CMD_INITIALIZE_DEVICE_PARAMETERS :: u8 where "DRV08_CMD_INITIALIZE_DEVICE_PARAMETERS \<equiv> 0x91"
abbreviation (input) DRV08_CMD_READ_MULTIPLE :: u8 where "DRV08_CMD_READ_MULTIPLE \<equiv> 0xC4"
abbreviation (input) DRV08_CMD_WRITE_MULTIPLE :: u8 where "DRV08_CMD_WRITE_MULTIPLE \<equiv> 0xC5"
abbreviation (input) DRV08_CMD_SET_MULTIPLE_MODE :: u8 where "DRV08_CMD_SET_MULTIPLE_MODE \<equiv> 0xC6"
abbreviation (input) DRV08_CMD_IDENTIFY_DEVICE :: u8 where "DRV08_CMD_IDENTIFY_DEVICE \<equiv> 0xEC"

subsection \<open>Identification\<close>

fun SwapBytes :: "u8 list \<Rightarrow> u8 list" where
  "SwapBytes (x # y # bs) = y # x # SwapBytes bs"
| "SwapBytes bs = bs"

definition put_word :: "nat \<Rightarrow> u16 \<Rightarrow> u8 list \<Rightarrow> u8 list" where
  "put_word i v = put_bytes (2 * i) [byte_of 0 v, byte_of 1 v]"

definition put_words :: "(nat \<times> u16) list \<Rightarrow> u8 list \<Rightarrow> u8 list" where
  "put_words ws buf = fold (\<lambda>(i, v). put_word i v) ws buf"

text \<open>The model name is ``Replay'', with up to 16 characters of the file name over its end.\<close>

definition model_name :: "string \<Rightarrow> u8 list" where
  "model_name name = map of_char (''Replay  '' @ take 16 (cstr name @ replicate 16 NUL) @ replicate 16 CHR '' '')"

definition total_sectors :: "drv08_desc \<Rightarrow> u32" where
  "total_sectors dsc = ucast (cylinders dsc) * ucast (heads dsc) * ucast (sectors dsc)"

definition IdentifyDevice :: "string \<Rightarrow> drv08_desc \<Rightarrow> u8 list" where
  "IdentifyDevice name dsc =
     put_words
       [(47, 0x8010), (53, 1), (54, cylinders dsc), (55, heads dsc), (56, sectors dsc),
        (57, ucast (total_sectors dsc)), (58, ucast (drop_bit 16 (total_sectors dsc))),
        (60, ucast (total_sectors dsc)), (61, ucast (drop_bit 16 (total_sectors dsc)))]
       (put_bytes 54 (SwapBytes (model_name name))
         (put_bytes 46 (map of_char ''.100    '')
           (put_bytes 20 (map of_char ''FPGA ARCADE ATA DRV '')
             (put_words [(0, 0x40), (1, cylinders dsc), (3, heads dsc), (6, sectors dsc)] (replicate 512 0)))))"

subsection \<open>Addresses\<close>

record ata_addr =
  a_sector :: u16
  a_cylinder :: u16
  a_head :: u8
  a_lba :: u32

definition chs2lba :: "drv08_desc \<Rightarrow> u16 \<Rightarrow> u8 \<Rightarrow> u16 \<Rightarrow> u32" where
  "chs2lba dsc cylinder head sector =
     (ucast cylinder * ucast (heads dsc) + ucast head) * ucast (sectors dsc) + ucast sector - 1"

text \<open>The address, the number of sectors (0 means 256) and the addressing mode of a task file.\<close>

definition GetParams :: "u8 list \<Rightarrow> drv08_desc \<Rightarrow> ata_addr \<times> nat \<times> bool" where
  "GetParams tfr dsc =
     (let sector_count = (if tfr ! 2 = 0 then 0x100 else unat (tfr ! 2));
          sector = ucast (tfr ! 3) :: u16;
          cylinder = of_le16 (tfr ! 4) (tfr ! 5);
          head = tfr ! 6 AND 0x0F;
          lba_mode = (tfr ! 6 AND 0x40 \<noteq> 0);
          lba = (if lba_mode then push_bit 24 (ucast head) OR push_bit 8 (ucast cylinder) OR ucast sector
                 else chs2lba dsc cylinder head sector)
      in (\<lparr>a_sector = sector, a_cylinder = cylinder, a_head = head, a_lba = lba\<rparr>, sector_count, lba_mode))"

definition IncParams :: "drv08_desc \<Rightarrow> ata_addr \<Rightarrow> ata_addr" where
  "IncParams dsc a =
     (let a = (if a_sector a = sectors dsc
               then let a = a\<lparr>a_sector := 1, a_head := a_head a + 1\<rparr>
                    in if ucast (a_head a) = heads dsc then a\<lparr>a_head := 0, a_cylinder := a_cylinder a + 1\<rparr> else a
               else a\<lparr>a_sector := a_sector a + 1\<rparr>)
      in a\<lparr>a_lba := a_lba a + 1\<rparr>)"

text \<open>One step for every sector but the first of a command.\<close>

fun inc_many :: "drv08_desc \<Rightarrow> nat \<Rightarrow> bool \<times> ata_addr \<Rightarrow> bool \<times> ata_addr" where
  "inc_many dsc 0 fa = fa"
| "inc_many dsc (Suc n) fa = inc_many dsc n (False, if fst fa then snd fa else IncParams dsc (snd fa))"

subsection \<open>The task file\<close>

definition WriteTaskFile :: "nat \<Rightarrow> u8 \<Rightarrow> u8 \<Rightarrow> u8 \<Rightarrow> u8 \<Rightarrow> u8 \<Rightarrow> u8 \<Rightarrow> world \<Rightarrow> world" where
  "WriteTaskFile ch err sector_count sector_number cylinder_low cylinder_high drive_head w =
     fileio_cmd [FCH_CMD ch FCH_CMD_CMD_W, 0x00, err, sector_count, sector_number, cylinder_low,
                 cylinder_high, drive_head] w"

definition UpdateParams :: "nat \<Rightarrow> u8 list \<Rightarrow> ata_addr \<Rightarrow> bool \<Rightarrow> world \<Rightarrow> world" where
  "UpdateParams ch tfr a lba_mode w =
     (let drive = tfr ! 6 AND 0xF0
      in fileio_cmd
           (FCH_CMD ch (FCH_CMD_CMD_W OR 0x03) #
            (if lba_mode
             then [byte_of 0 (a_lba a), byte_of 1 (a_lba a), byte_of 2 (a_lba a),
                   drive OR (byte_of 3 (a_lba a) AND 0x0F)]
             else [ucast (a_sector a), ucast (a_cylinder a), byte_of 1 (a_cylinder a),
                   drive OR (a_head a AND 0x0F)])) w)"

text \<open>The registers as the command left them, with an error; and an aborted command.\<close>

definition keep_task :: "nat \<Rightarrow> u8 \<Rightarrow> u8 list \<Rightarrow> world \<Rightarrow> world" where
  "keep_task ch err tfr w = WriteTaskFile ch err (tfr ! 2) (tfr ! 3) (tfr ! 4) (tfr ! 5) (tfr ! 6) w"

definition ata_abort :: "nat \<Rightarrow> u8 list \<Rightarrow> world \<Rightarrow> world" where
  "ata_abort ch tfr w = FCh_WriteStat ch DRV08_STATUS_END_IRQ_ERR (keep_task ch DRV08_ERROR_ABRT tfr w)"

subsection \<open>Transfers\<close>

definition BufferSend :: "nat \<Rightarrow> u8 list \<Rightarrow> world \<Rightarrow> world" where
  "BufferSend ch pBuffer w = FCh_fifo_write ch pBuffer w"

definition ata_FileReadSendDirect :: "nat \<Rightarrow> fch \<Rightarrow> nat \<Rightarrow> world \<Rightarrow> (fch \<times> world) option" where
  "ata_FileReadSendDirect ch pDrive sector_count w =
     (let w = SPI_EnableFileIO w;
          w = snd (rSPI (FCH_CMD ch FCH_CMD_FIFO_W) w);
          w = SPI_DisableFileIO (SPI_EnableDirect w)
      in case fSource pDrive of
           None \<Rightarrow> None
         | Some f \<Rightarrow>
             do { (bytes_r, f, w) \<leftarrow> c_read_direct f 512 (of_nat sector_count) w;
                  Some (pDrive\<lparr>fSource := Some f\<rparr>, SPI_DisableDirect w) })"

definition FileWrite :: "fch \<Rightarrow> u8 list \<Rightarrow> nat \<Rightarrow> fch option" where
  "FileWrite pDrive pBuffer sector_count =
     (case fSource pDrive of
        None \<Rightarrow> None
      | Some f \<Rightarrow> do { (bytes_w, f) \<leftarrow> c_write f 512 (of_nat sector_count) pBuffer;
                       Some (pDrive\<lparr>fSource := Some f\<rparr>) })"

definition CardReadSendDirect :: "nat \<Rightarrow> u32 \<Rightarrow> nat \<Rightarrow> card \<Rightarrow> world \<Rightarrow> (card \<times> world) option" where
  "CardReadSendDirect ch lba numblocks c w =
     (let w = SPI_EnableFileIO w;
          w = snd (rSPI (FCH_CMD ch FCH_CMD_FIFO_W) w);
          w = SPI_DisableFileIO (SPI_EnableDirect w)
      in do { (err, _, c, w) \<leftarrow> Card_ReadM True lba (of_nat numblocks) c w;
              Some (c, SPI_DisableDirect w) })"

definition CardWrite :: "u32 \<Rightarrow> u8 list \<Rightarrow> nat \<Rightarrow> card \<Rightarrow> world \<Rightarrow> (card \<times> world) option" where
  "CardWrite lba pBuffer numblocks c w =
     do { (err, c, w) \<leftarrow> Card_WriteM pBuffer lba (of_nat numblocks) c w; Some (c, w) }"

text \<open>
  Sending up to \<open>n\<close> sectors from \<open>lba\<close> on: from the card, from the made-up blocks in front of the image
  (not beyond them), or from the file.  The number of sectors sent comes first.
\<close>

definition send_sectors ::
  "nat \<Rightarrow> u32 \<Rightarrow> nat \<Rightarrow> drv08_desc \<Rightarrow> fch \<Rightarrow> card \<Rightarrow> world \<Rightarrow> (nat \<times> fch \<times> card \<times> world) option" where
  "send_sectors ch lba n dsc pDrive c w =
     (if format08 dsc = MMC
      then do { (c, w) \<leftarrow> CardReadSendDirect ch (lba + lba_offset dsc) n c w; Some (n, pDrive, c, w) }
      else if lba < lba_offset dsc
      then let n = (if n > unat (lba_offset dsc - lba) then unat (lba_offset dsc - lba) else n)
           in Some (n, pDrive, c,
                    fold (\<lambda>x. BufferSend ch (hdf_rdb dsc ! unat ((lba + of_nat x) mod 3))) [0..<n] w)
      else do { (pDrive, w) \<leftarrow> ata_FileReadSendDirect ch pDrive n w; Some (n, pDrive, c, w) })"

text \<open>Storing \<open>n\<close> sectors: on the card, or in the file at its position.\<close>

definition store_sectors ::
  "u32 \<Rightarrow> u8 list \<Rightarrow> nat \<Rightarrow> drv08_desc \<Rightarrow> fch \<Rightarrow> card \<Rightarrow> world \<Rightarrow> (fch \<times> card \<times> world) option" where
  "store_sectors lba buf n dsc pDrive c w =
     (if format08 dsc = MMC
      then do { (c, w) \<leftarrow> CardWrite (lba + lba_offset dsc) buf n c w; Some (pDrive, c, w) }
      else do { pDrive \<leftarrow> FileWrite pDrive buf n; Some (pDrive, c, w) })"

text \<open>Fetching sectors, each as soon as the core has it.\<close>

fun fetch_sectors :: "nat \<Rightarrow> nat \<Rightarrow> world \<Rightarrow> (u8 list \<times> world) option" where
  "fetch_sectors ch 0 w = Some ([], w)"
| "fetch_sectors ch (Suc n) w =
     do { (_, w) \<leftarrow> FCh_WaitStat ch FILEIO_REQ_OK_TO_ARM FILEIO_REQ_OK_TO_ARM w;
          let (dat, w) = FCh_fifo_read ch (replicate 512 0) w
          in do { (rest, w) \<leftarrow> fetch_sectors ch n w; Some (dat @ rest, w) } }"

subsection \<open>Reading\<close>

type_synonym ata_state = "fch \<times> card \<times> world"

text \<open>One interrupt for each sector; \<open>fa\<close> is whether it is the first one, and the address.\<close>

fun read_sectors_loop ::
  "nat \<Rightarrow> u8 list \<Rightarrow> bool \<Rightarrow> drv08_desc \<Rightarrow> nat \<Rightarrow> bool \<times> ata_addr \<Rightarrow> fch \<Rightarrow> card \<Rightarrow> world \<Rightarrow> ata_state option" where
  "read_sectors_loop ch tfr lba_mode dsc 0 fa pDrive c w = Some (pDrive, c, w)"
| "read_sectors_loop ch tfr lba_mode dsc (Suc sector_count) fa pDrive c w =
     (let w = FCh_WriteStat ch DRV08_STATUS_RDY w
      in do { (_, w) \<leftarrow> FCh_WaitStat ch FILEIO_REQ_OK_FM_ARM FILEIO_REQ_OK_FM_ARM w;
              let w = FCh_WriteStat ch DRV08_STATUS_IRQ w;
                  fa' = inc_many dsc 1 fa;
                  w = (if \<not> fst fa then UpdateParams ch tfr (snd fa') lba_mode w else w)
              in do { (_, pDrive, c, w) \<leftarrow> send_sectors ch (a_lba (snd fa')) 1 dsc pDrive c w;
                      read_sectors_loop ch tfr lba_mode dsc sector_count fa' pDrive c w } })"

definition read_seek ::
  "nat \<Rightarrow> u8 list \<Rightarrow> string \<Rightarrow> u32 \<Rightarrow> drv08_desc \<Rightarrow> fch \<Rightarrow> world \<Rightarrow> (bool \<times> fch \<times> drv08_desc \<times> world) option" where
  "read_seek ch tfr txt lba dsc pDrive w =
     (let lba_naked = (if lba < lba_offset dsc then lba_offset dsc else lba)
      in do { (err, pDrive, dsc, w) \<leftarrow> HardFileSeek pDrive dsc lba_naked w;
              if err \<noteq> 0 then Some (False, pDrive, dsc, ata_abort ch tfr (say (WARNING txt [MsgInt (unat lba_naked)]) w))
              else Some (True, pDrive, dsc, w) })"

definition put_desc :: "drv08_desc \<Rightarrow> fch \<Rightarrow> fch" where
  "put_desc dsc pDrive = pDrive\<lparr>pDesc := Some (Desc08 dsc)\<rparr>"

definition ata_read_sectors :: "nat \<Rightarrow> u8 list \<Rightarrow> drv08_desc \<Rightarrow> fch \<Rightarrow> card \<Rightarrow> world \<Rightarrow> ata_state option" where
  "ata_read_sectors ch tfr dsc pDrive c w =
     (let (a, sector_count, lba_mode) = GetParams tfr dsc
      in do { (ok, pDrive, dsc, w) \<leftarrow> read_seek ch tfr ''Drv08:Read from invalid LBA (%lu)'' (a_lba a) dsc pDrive w;
              if \<not> ok then Some (put_desc dsc pDrive, c, w)
              else read_sectors_loop ch tfr lba_mode dsc sector_count (True, a) (put_desc dsc pDrive) c w })"

text \<open>
  Several sectors for each interrupt: the registers are set to the last sector of the block before the
  transfer, which goes in bursts that the FIFO can hold.  (A burst of no sectors, which would not end,
  does not happen.)
\<close>

function read_block_loop ::
  "nat \<Rightarrow> drv08_desc \<Rightarrow> nat \<Rightarrow> u32 \<Rightarrow> fch \<Rightarrow> card \<Rightarrow> world \<Rightarrow> (u32 \<times> fch \<times> card \<times> world) option" where
  "read_block_loop ch dsc block_count lba_naked pDrive c w =
     (if block_count = 0 then Some (lba_naked, pDrive, c, w)
      else let i = min block_count DRV08_MAX_READ_BURST
           in do { (_, w) \<leftarrow> FCh_WaitStat ch FILEIO_REQ_OK_FM_ARM FILEIO_REQ_OK_FM_ARM w;
                   (i, pDrive, c, w) \<leftarrow> send_sectors ch lba_naked i dsc pDrive c w;
                   if i = 0 then None
                   else read_block_loop ch dsc (block_count - i) (lba_naked + of_nat i) pDrive c w })"
  by pat_completeness auto
termination
  by (relation "measure (\<lambda>(ch, dsc, block_count, _). block_count)") auto

declare read_block_loop.simps [simp del]

function read_multiple_loop ::
  "nat \<Rightarrow> u8 list \<Rightarrow> bool \<Rightarrow> drv08_desc \<Rightarrow> nat \<Rightarrow> bool \<times> ata_addr \<Rightarrow> u32 \<Rightarrow> fch \<Rightarrow> card \<Rightarrow> world \<Rightarrow> ata_state option" where
  "read_multiple_loop ch tfr lba_mode dsc sector_count fa lba_naked pDrive c w =
     (if sector_count = 0 \<or> sectors_per_block dsc = 0 then Some (pDrive, c, w)
      else let block_count = min sector_count (unat (sectors_per_block dsc));
               w = FCh_WriteStat ch DRV08_STATUS_IRQ w;
               fa = inc_many dsc block_count fa;
               w = UpdateParams ch tfr (snd fa) lba_mode w
           in do { (lba_naked, pDrive, c, w) \<leftarrow> read_block_loop ch dsc block_count lba_naked pDrive c w;
                   read_multiple_loop ch tfr lba_mode dsc (sector_count - block_count) fa lba_naked pDrive c w })"
  by pat_completeness auto
termination
proof (relation "measure (\<lambda>(ch, tfr, lba_mode, dsc, sector_count, _). sector_count)", goal_cases)
  case (2 ch tfr lba_mode dsc sector_count)
  then have "0 < unat (sectors_per_block dsc)" by (simp add: unat_gt_0)
  with 2 show ?case by auto
qed simp

declare read_multiple_loop.simps [simp del]

definition ata_read_multiple :: "nat \<Rightarrow> u8 list \<Rightarrow> drv08_desc \<Rightarrow> fch \<Rightarrow> card \<Rightarrow> world \<Rightarrow> ata_state option" where
  "ata_read_multiple ch tfr dsc pDrive c w =
     (if sectors_per_block dsc = 0
      then Some (pDrive, c, ata_abort ch tfr (say (WARNING ''Drv08:Set Multiple not done'' []) w))
      else let w = FCh_WriteStat ch DRV08_STATUS_RDY w;
               (a, sector_count, lba_mode) = GetParams tfr dsc
           in do { (ok, pDrive, dsc, w) \<leftarrow> read_seek ch tfr ''Drv08:Read Multiple bad LBA (%lu)'' (a_lba a) dsc pDrive w;
                   if \<not> ok then Some (put_desc dsc pDrive, c, w)
                   else read_multiple_loop ch tfr lba_mode dsc sector_count (True, a) (a_lba a) (put_desc dsc pDrive) c w })"

subsection \<open>Writing\<close>

definition release_status :: "nat \<Rightarrow> u8" where
  "release_status sector_count = (if sector_count \<noteq> 0 then DRV08_STATUS_IRQ else DRV08_STATUS_END_IRQ)"

fun write_sectors_loop ::
  "nat \<Rightarrow> u8 list \<Rightarrow> bool \<Rightarrow> drv08_desc \<Rightarrow> nat \<Rightarrow> bool \<times> ata_addr \<Rightarrow> u32 \<Rightarrow> fch \<Rightarrow> card \<Rightarrow> world \<Rightarrow> ata_state option" where
  "write_sectors_loop ch tfr lba_mode dsc 0 fa lba_mmc pDrive c w = Some (pDrive, c, w)"
| "write_sectors_loop ch tfr lba_mode dsc (Suc sector_count) fa lba_mmc pDrive c w =
     do { (fbuf, w) \<leftarrow> fetch_sectors ch 1 w;
          let fa' = inc_many dsc 1 fa;
              w = (if \<not> fst fa then UpdateParams ch tfr (snd fa') lba_mode w else w);
              w = FCh_WriteStat ch (release_status sector_count) w
          in do { (pDrive, c, w) \<leftarrow> store_sectors lba_mmc fbuf 1 dsc pDrive c w;
                  write_sectors_loop ch tfr lba_mode dsc sector_count fa' (lba_mmc + 1) pDrive c w } }"

function write_block_loop ::
  "nat \<Rightarrow> drv08_desc \<Rightarrow> nat \<Rightarrow> bool \<times> ata_addr \<Rightarrow> u32 \<Rightarrow> fch \<Rightarrow> card \<Rightarrow> world
     \<Rightarrow> ((bool \<times> ata_addr) \<times> u32 \<times> fch \<times> card \<times> world) option" where
  "write_block_loop ch dsc block_count fa lba_mmc pDrive c w =
     (if block_count = 0 then Some (fa, lba_mmc, pDrive, c, w)
      else let i = min block_count DRV08_MAX_NUM_BLOCKS
           in do { (p, w) \<leftarrow> fetch_sectors ch i w;
                   (pDrive, c, w) \<leftarrow> store_sectors lba_mmc p i dsc pDrive c w;
                   write_block_loop ch dsc (block_count - i) (inc_many dsc i fa) (lba_mmc + of_nat i) pDrive c w })"
  by pat_completeness auto
termination
  by (relation "measure (\<lambda>(ch, dsc, block_count, _). block_count)") auto

declare write_block_loop.simps [simp del]

function write_multiple_loop ::
  "nat \<Rightarrow> u8 list \<Rightarrow> bool \<Rightarrow> drv08_desc \<Rightarrow> nat \<Rightarrow> bool \<times> ata_addr \<Rightarrow> u32 \<Rightarrow> fch \<Rightarrow> card \<Rightarrow> world \<Rightarrow> ata_state option" where
  "write_multiple_loop ch tfr lba_mode dsc sector_count fa lba_mmc pDrive c w =
     (if sector_count = 0 \<or> sectors_per_block dsc = 0 then Some (pDrive, c, w)
      else let block_count = min sector_count (unat (sectors_per_block dsc))
           in do { (fa, lba_mmc, pDrive, c, w) \<leftarrow> write_block_loop ch dsc block_count fa lba_mmc pDrive c w;
                   let w = UpdateParams ch tfr (snd fa) lba_mode w;
                       w = FCh_WriteStat ch (release_status (sector_count - block_count)) w
                   in write_multiple_loop ch tfr lba_mode dsc (sector_count - block_count) fa lba_mmc pDrive c w })"
  by pat_completeness auto
termination
proof (relation "measure (\<lambda>(ch, tfr, lba_mode, dsc, sector_count, _). sector_count)", goal_cases)
  case (2 ch tfr lba_mode dsc sector_count)
  then have "0 < unat (sectors_per_block dsc)" by (simp add: unat_gt_0)
  with 2 show ?case by auto
qed simp

declare write_multiple_loop.simps [simp del]

text \<open>The checks before a write, common to both commands; \<open>None\<close> in the first place when it is refused.\<close>

definition write_seek ::
  "nat \<Rightarrow> u8 list \<Rightarrow> string \<Rightarrow> u32 \<Rightarrow> drv08_desc \<Rightarrow> fch \<Rightarrow> world \<Rightarrow> (bool \<times> fch \<times> drv08_desc \<times> world) option" where
  "write_seek ch tfr txt lba dsc pDrive w =
     do { (err, pDrive, dsc, w) \<leftarrow> HardFileSeek pDrive dsc lba w;
          if err \<noteq> 0 then Some (False, pDrive, dsc, ata_abort ch tfr (say (WARNING txt [MsgInt (unat lba)]) w))
          else if lba = 0 \<and> format08 dsc = MMC \<and> lba_offset dsc = 0
          then Some (False, pDrive, dsc, ata_abort ch tfr (say (WARNING ''Drv08:Write to MBR disabled'' []) w))
          else Some (True, pDrive, dsc, w) }"

definition write_protected :: "fch \<Rightarrow> bool" where
  "write_protected pDrive \<longleftrightarrow> status pDrive AND FILEIO_STAT_READONLY_OR_PROTECTED \<noteq> 0"

definition ata_write_sectors :: "nat \<Rightarrow> u8 list \<Rightarrow> drv08_desc \<Rightarrow> fch \<Rightarrow> card \<Rightarrow> world \<Rightarrow> ata_state option" where
  "ata_write_sectors ch tfr dsc pDrive c w =
     (if write_protected pDrive
      then Some (pDrive, c, ata_abort ch tfr (say (WARNING ''Drv08:W Read only disk!'' []) w))
      else let w = FCh_WriteStat ch DRV08_STATUS_REQ w;
               (a, sector_count, lba_mode) = GetParams tfr dsc
           in do { (ok, pDrive, dsc, w) \<leftarrow> write_seek ch tfr ''Drv08:Write to invalid LBA (%lu)'' (a_lba a) dsc pDrive w;
                   if \<not> ok then Some (put_desc dsc pDrive, c, w)
                   else write_sectors_loop ch tfr lba_mode dsc sector_count (True, a) (a_lba a) (put_desc dsc pDrive) c w })"

definition ata_write_multiple :: "nat \<Rightarrow> u8 list \<Rightarrow> drv08_desc \<Rightarrow> fch \<Rightarrow> card \<Rightarrow> world \<Rightarrow> ata_state option" where
  "ata_write_multiple ch tfr dsc pDrive c w =
     (if write_protected pDrive
      then Some (pDrive, c, ata_abort ch tfr (say (WARNING ''Drv08:W Read only disk!'' []) w))
      else if sectors_per_block dsc = 0
      then Some (pDrive, c, ata_abort ch tfr (say (WARNING ''Drv08:Set Multiple not done'' []) w))
      else let w = FCh_WriteStat ch DRV08_STATUS_REQ w;
               (a, sector_count, lba_mode) = GetParams tfr dsc
           in do { (ok, pDrive, dsc, w) \<leftarrow> write_seek ch tfr ''Drv08:Write Multiple bad LBA (%lu)'' (a_lba a) dsc pDrive w;
                   if \<not> ok then Some (put_desc dsc pDrive, c, w)
                   else write_multiple_loop ch tfr lba_mode dsc sector_count (True, a) (a_lba a) (put_desc dsc pDrive) c w })"

subsection \<open>The commands\<close>

text \<open>The descriptor of the drive, which must be one of this driver.\<close>

definition desc08 :: "fch \<Rightarrow> drv08_desc option" where
  "desc08 pDrive = (case pDesc pDrive of Some (Desc08 dsc) \<Rightarrow> Some dsc | _ \<Rightarrow> None)"

definition ata_identify :: "nat \<Rightarrow> u8 list \<Rightarrow> drv08_desc \<Rightarrow> fch \<Rightarrow> world \<Rightarrow> world" where
  "ata_identify ch tfr dsc pDrive w =
     (let fbuf = IdentifyDevice (fch_name pDrive) dsc;
          w = FCh_WriteStat ch DRV08_STATUS_RDY (keep_task ch 0 tfr w)
      in FCh_WriteStat ch DRV08_STATUS_END_IRQ (FCh_fifo_write ch fbuf w))"

definition ata_command :: "nat \<Rightarrow> u8 list \<Rightarrow> fch \<Rightarrow> card \<Rightarrow> world \<Rightarrow> ata_state option" where
  "ata_command ch tfr pDrive c w =
     (let cmd = tfr ! 7
      in if cmd AND 0xF0 = DRV08_CMD_RECALIBRATE
         then Some (pDrive, c, FCh_WriteStat ch DRV08_STATUS_END_IRQ (WriteTaskFile ch 0 0 1 0 0 (tfr ! 6 AND 0xF0) w))
         else if cmd = DRV08_CMD_EXECUTE_DEVICE_DIAGNOSTIC
         then Some (pDrive, c, FCh_WriteStat ch DRV08_STATUS_END (WriteTaskFile ch 0x01 0x01 0x01 0x00 0x00 0x00 w))
         else if cmd = DRV08_CMD_IDENTIFY_DEVICE
         then do { dsc \<leftarrow> desc08 pDrive; Some (pDrive, c, ata_identify ch tfr dsc pDrive w) }
         else if cmd = DRV08_CMD_INITIALIZE_DEVICE_PARAMETERS
         then Some (pDrive, c, FCh_WriteStat ch DRV08_STATUS_END_IRQ (keep_task ch 0 tfr w))
         else if cmd = DRV08_CMD_SET_MULTIPLE_MODE
         then do { dsc \<leftarrow> desc08 pDrive;
                   Some (put_desc (dsc\<lparr>sectors_per_block := ucast (tfr ! 2)\<rparr>) pDrive, c,
                         FCh_WriteStat ch DRV08_STATUS_END_IRQ w) }
         else if cmd = DRV08_CMD_READ_SECTORS
         then do { dsc \<leftarrow> desc08 pDrive; ata_read_sectors ch tfr dsc pDrive c w }
         else if cmd = DRV08_CMD_READ_MULTIPLE
         then do { dsc \<leftarrow> desc08 pDrive; ata_read_multiple ch tfr dsc pDrive c w }
         else if cmd = DRV08_CMD_READ_VERIFY
         then Some (pDrive, c, FCh_WriteStat ch DRV08_STATUS_END_IRQ (keep_task ch 0 tfr w))
         else if cmd = DRV08_CMD_WRITE_SECTORS
         then do { dsc \<leftarrow> desc08 pDrive; ata_write_sectors ch tfr dsc pDrive c w }
         else if cmd = DRV08_CMD_WRITE_MULTIPLE
         then do { dsc \<leftarrow> desc08 pDrive; ata_write_multiple ch tfr dsc pDrive c w }
         else Some (pDrive, c, ata_abort ch tfr
                (say (WARNING ''%02X.%02X.%02X.%02X.%02X.%02X.%02X.%02X'' (map (\<lambda>b. MsgInt (unat b)) tfr))
                  (say (WARNING ''Drv08:Unknown ATA command:'' []) w))))"

definition ATA_Handle :: "nat \<Rightarrow> handles \<Rightarrow> card \<Rightarrow> world \<Rightarrow> (handles \<times> card \<times> world) option" where
  "ATA_Handle ch handle c w =
     (let (tfr, w) = FCh_cmd_read ch 8 w;
          unit = (if tfr ! 6 AND 0x10 \<noteq> 0 then 1 else 0)
      in if FCh_GetInserted handle ch unit = 0 then Some (handle, c, ata_abort ch tfr w)
         else do { (pDrive, c, w) \<leftarrow> ata_command ch tfr (drive handle ch unit) c w;
                   Some (set_drive handle ch unit pDrive, c, w) })"

definition Drv08_Process :: "nat \<Rightarrow> handles \<Rightarrow> u8 \<Rightarrow> card \<Rightarrow> world \<Rightarrow> (handles \<times> card \<times> world) option" where
  "Drv08_Process ch handle stat c w = ATA_Handle ch handle c w"

subsection \<open>Addresses\<close>

text \<open>An address in cylinders, heads and sectors that is in range and agrees with the sector number.\<close>

definition chs_inv :: "drv08_desc \<Rightarrow> ata_addr \<Rightarrow> bool" where
  "chs_inv dsc a \<longleftrightarrow> 1 \<le> unat (a_sector a) \<and> unat (a_sector a) \<le> unat (sectors dsc) \<and>
     unat (a_head a) < unat (heads dsc) \<and> a_lba a = chs2lba dsc (a_cylinder a) (a_head a) (a_sector a)"

lemma ucast_inc_16_32: "unat (x :: u16) < 65535 \<Longrightarrow> (ucast (x + 1) :: u32) = ucast x + 1"
  by (simp add: word_unat_eq_iff unat_word_ariths)

lemma ucast_inc_8_32: "unat (x :: u8) < 255 \<Longrightarrow> (ucast (x + 1) :: u32) = ucast x + 1"
  by (simp add: word_unat_eq_iff unat_word_ariths)

lemma IncParams_inv:
  assumes "chs_inv dsc a" "unat (heads dsc) \<le> 255" "unat (a_cylinder a) < 65535"
  shows "chs_inv dsc (IncParams dsc a)" "unat (a_cylinder (IncParams dsc a)) \<le> unat (a_cylinder a) + 1"
proof -
  have a: "1 \<le> unat (a_sector a)" "unat (a_sector a) \<le> unat (sectors dsc)" "unat (a_head a) < unat (heads dsc)"
    "a_lba a = chs2lba dsc (a_cylinder a) (a_head a) (a_sector a)" using assms(1) by (simp_all add: chs_inv_def)
  have h: "unat (a_head a + 1) = unat (a_head a) + 1" "(ucast (a_head a + 1) :: u32) = ucast (a_head a) + 1"
    using a(3) assms(2) by (simp_all add: unat_word_ariths ucast_inc_8_32)
  have hd: "ucast (a_head a + 1) = heads dsc \<longleftrightarrow> unat (a_head a) + 1 = unat (heads dsc)"
    using h(1) unat_bound [of "a_head a + 1"] by (simp add: word_unat_eq_iff unat_ucast_mod)
  have cy: "unat (a_cylinder a + 1) = unat (a_cylinder a) + 1" "(ucast (a_cylinder a + 1) :: u32) = ucast (a_cylinder a) + 1"
    using assms(3) by (simp_all add: unat_word_ariths ucast_inc_16_32)
  consider "a_sector a \<noteq> sectors dsc" | "a_sector a = sectors dsc" "unat (a_head a) + 1 \<noteq> unat (heads dsc)"
    | "a_sector a = sectors dsc" "unat (a_head a) + 1 = unat (heads dsc)" by blast
  then have "chs_inv dsc (IncParams dsc a) \<and> unat (a_cylinder (IncParams dsc a)) \<le> unat (a_cylinder a) + 1"
  proof cases
    case 1
    then have lt: "unat (a_sector a) < unat (sectors dsc)" using a(2) by (metis le_neq_implies_less word_unat_eq_iff)
    then have s: "unat (a_sector a) < 65535" using unat_bound [of "sectors dsc"] by simp
    then have "unat (a_sector a + 1) = unat (a_sector a) + 1" by (simp add: unat_word_ariths)
    with 1 a lt ucast_inc_16_32 [OF s] show ?thesis
      by (simp add: IncParams_def chs_inv_def Let_def chs2lba_def algebra_simps)
  next
    case 2
    with a h hd show ?thesis by (simp add: IncParams_def chs_inv_def Let_def chs2lba_def algebra_simps)
  next
    case 3
    then have "ucast (a_head a) + 1 = (ucast (heads dsc) :: u32)" using hd h(2) by (metis h(1) unat_16_32 unat_8_32 word_unat_eq_iff)
    then have e: "(ucast (heads dsc) :: u32) = ucast (a_head a) + 1" by simp
    from 3 a h(1) hd cy e show ?thesis by (simp add: IncParams_def chs_inv_def Let_def chs2lba_def algebra_simps)
  qed
  then show "chs_inv dsc (IncParams dsc a)" "unat (a_cylinder (IncParams dsc a)) \<le> unat (a_cylinder a) + 1" by simp_all
qed

lemma IncParams_lba [simp]: "a_lba (IncParams dsc a) = a_lba a + 1"
  by (simp add: IncParams_def Let_def)

lemma inc_many_lba:
  "a_lba (snd (inc_many dsc n fa)) = a_lba (snd fa) + of_nat (if fst fa then n - 1 else n)"
proof (induction n arbitrary: fa)
  case (Suc n)
  then show ?case by (cases "fst fa") (simp_all add: algebra_simps)
qed simp

lemma inc_many_first: "fst (inc_many dsc n fa) \<longleftrightarrow> fst fa \<and> n = 0"
  by (induction n arbitrary: fa) auto

lemma inc_many_inv:
  "chs_inv dsc (snd fa) \<Longrightarrow> unat (heads dsc) \<le> 255 \<Longrightarrow> unat (a_cylinder (snd fa)) + n \<le> 65535 \<Longrightarrow>
     chs_inv dsc (snd (inc_many dsc n fa))"
proof (induction n arbitrary: fa)
  case (Suc n)
  let ?a = "if fst fa then snd fa else IncParams dsc (snd fa)"
  have "chs_inv dsc ?a \<and> unat (a_cylinder ?a) + n \<le> 65535"
    using Suc.prems IncParams_inv [OF Suc.prems(1,2)] by auto
  with Suc.IH [of "(False, ?a)"] Suc.prems(2) show ?case by simp
qed simp

text \<open>
  C23. The registers that the driver maintains: starting from a task file in cylinder, head and sector
  mode with values in range, after any number of sectors the registers are in range again and name
  the sector that was transferred last; the sector number is the start plus the number of sectors
  before it in both modes.
\<close>

theorem ata_registers_invariant:
  assumes "GetParams tfr dsc = (a, n, lba_mode)" "unat (heads dsc) \<le> 255" "unat (a_cylinder a) + k \<le> 65535" "0 < k"
    and "1 \<le> unat (tfr ! 3)" "unat (tfr ! 3) \<le> unat (sectors dsc)" "unat (tfr ! 6 AND 0x0F) < unat (heads dsc)"
  shows "let a' = snd (inc_many dsc k (True, a))
    in (\<not> lba_mode \<longrightarrow> chs_inv dsc a') \<and> a_lba a' = a_lba a + of_nat (k - 1) \<and> 1 \<le> n \<and> n \<le> 256"
proof -
  have u: "unat (ucast (tfr ! 3) :: u16) = unat (tfr ! 3)" using unat_bound [of "tfr ! 3"] by (simp add: unat_ucast_mod)
  have "n = (if tfr ! 2 = 0 then 0x100 else unat (tfr ! 2))" using assms(1) by (simp add: GetParams_def Let_def)
  then have n: "1 \<le> n" "n \<le> 256" using unat_bound [of "tfr ! 2"] by (auto simp: Suc_le_eq unat_gt_0)
  have "chs_inv dsc a" if "\<not> lba_mode"
    using assms(1,5-7) that u by (auto simp: GetParams_def Let_def chs_inv_def)
  with inc_many_inv [of dsc "(True, a)" k] assms(2,3) inc_many_lba [of dsc k "(True, a)"] n show ?thesis
    by (simp add: Let_def)
qed

lemma ata_registers_invariant_witness:
  "let dsc = zero_drv08_desc\<lparr>heads := 4, sectors := 63, cylinders := 100\<rparr>; tfr = [0, 0, 2, 63, 7, 0, 0xA3, 0x20];
       a = fst (GetParams tfr dsc); a' = snd (inc_many dsc 2 (True, a))
   in chs_inv dsc a' \<and> a_lba a' = a_lba a + 1"
proof -
  let ?dsc = "zero_drv08_desc\<lparr>heads := 4, sectors := 63, cylinders := 100\<rparr>" and ?tfr = "[0, 0, 2, 63, 7, 0, 0xA3, 0x20] :: u8 list"
  have g: "GetParams ?tfr ?dsc = (fst (GetParams ?tfr ?dsc), 2, False)" by (simp add: GetParams_def Let_def)
  have "unat (a_cylinder (fst (GetParams ?tfr ?dsc))) = 7" by (simp add: GetParams_def Let_def of_le16_def)
  with ata_registers_invariant [OF g, of 2] show ?thesis by (simp add: Let_def)
qed

subsection \<open>The disk that the core sees\<close>

text \<open>A sector is one of the made-up blocks, or one of the file.\<close>

definition disk_sector :: "drv08_desc \<Rightarrow> FIL \<Rightarrow> u32 \<Rightarrow> u8 list" where
  "disk_sector dsc f s =
     (if s < lba_offset dsc then hdf_rdb dsc ! unat (s mod 3)
      else take 512 (drop (512 * unat (file_lba dsc s)) (content f)))"

definition disk_range :: "drv08_desc \<Rightarrow> FIL \<Rightarrow> u32 \<Rightarrow> nat \<Rightarrow> u8 list" where
  "disk_range dsc f s n = concat (map (\<lambda>i. disk_sector dsc f (s + of_nat i)) [0..<n])"

lemma disk_range_add:
  "disk_range dsc f s (m + n) = disk_range dsc f s m @ disk_range dsc f (s + of_nat m) n"
proof -
  have "[0..<m + n] = [0..<m] @ map (\<lambda>i. m + i) [0..<n]"
    using upt_add_eq_append [of 0 m n] map_add_upt [of m n] by (simp add: add.commute)
  then show ?thesis by (simp add: disk_range_def comp_def add.assoc)
qed

lemma disk_range_Suc: "disk_range dsc f s (Suc n) = disk_sector dsc f s @ disk_range dsc f (s + 1) n"
  using disk_range_add [of dsc f s 1 n] by (simp add: disk_range_def)

text \<open>
  A drive with an image: the seek works on it, only an image without rigid disk blocks has an offset, and
  the table is large enough for the whole file.
\<close>

definition disk_ok :: "drv08_desc \<Rightarrow> FIL \<Rightarrow> bool" where
  "disk_ok dsc f \<longleftrightarrow> image_ok dsc f \<and> (format08 dsc \<noteq> HDF_NAKED \<longrightarrow> lba_offset dsc = 0) \<and>
     unat (lba_offset dsc) < 2 ^ 31 \<and> f_size f \<le> 1024 * 2 ^ unat (index_size dsc) \<and>
     length (hdf_rdb dsc) = 3 \<and> (\<forall>b\<in>set (hdf_rdb dsc). length b = 512)"

text \<open>Sectors \<open>s\<close> to \<open>s + n - 1\<close> are on the disk.\<close>

definition on_disk :: "drv08_desc \<Rightarrow> FIL \<Rightarrow> u32 \<Rightarrow> nat \<Rightarrow> bool" where
  "on_disk dsc f s n \<longleftrightarrow> 512 * (unat s + n) \<le> 512 * unat (lba_offset dsc) + f_size f"

text \<open>The file is at the sector, or at its start while the sector is in front of the image.\<close>

definition at_sector :: "drv08_desc \<Rightarrow> FIL \<Rightarrow> u32 \<Rightarrow> bool" where
  "at_sector dsc f s \<longleftrightarrow> fptr f = 512 * (unat s - unat (lba_offset dsc))"

lemma file_lba_unat:
  assumes "disk_ok dsc f" "lba_offset dsc \<le> s"
  shows "unat (file_lba dsc s) = unat s - unat (lba_offset dsc)"
  using assms unat_sub [of "lba_offset dsc" s] by (auto simp: file_lba_def disk_ok_def)

lemma on_disk_add:
  assumes "disk_ok dsc f" "on_disk dsc f s (m + n)"
  shows "on_disk dsc f s m" "on_disk dsc f (s + of_nat m) n" "unat (s + of_nat m) = unat s + m"
proof -
  have "unat s + m < 2 ^ 32" using assms by (auto simp: disk_ok_def on_disk_def image_ok_def)
  then show u: "unat (s + of_nat m) = unat s + m" by (simp add: unat_word_ariths unat_of_nat take_bit_eq_mod mod_add_right_eq)
  show "on_disk dsc f s m" "on_disk dsc f (s + of_nat m) n" using assms(2) unfolding on_disk_def u by auto
qed

lemma disk_ok_moved [simp]: "disk_ok dsc (f\<lparr>fptr := p, clust := c\<rparr>) \<longleftrightarrow>
    disk_ok dsc f \<and> p \<le> f_size f \<and> at_cluster f p c" if "disk_ok dsc f"
  using that by (auto simp: disk_ok_def image_ok_def clust_ok_at healthy_def file_ok_def f_size_def)

lemma disk_sector_content: "content f' = content f \<Longrightarrow> disk_sector dsc f' = disk_sector dsc f"
  by (simp add: disk_sector_def fun_eq_iff)

lemma disk_range_content:
  assumes "content f' = content f"
  shows "disk_range dsc f' = disk_range dsc f"
  by (rule ext)+ (simp only: disk_range_def disk_sector_content [OF assms])

text \<open>Sectors of the file are a part of its contents.\<close>

lemma disk_range_file:
  assumes "disk_ok dsc f" "on_disk dsc f s n" "lba_offset dsc \<le> s"
  shows "disk_range dsc f s n = take (512 * n) (drop (512 * (unat s - unat (lba_offset dsc))) (content f))"
  using assms(2,3)
proof (induction n arbitrary: s)
  case (Suc n)
  note a = on_disk_add [OF assms(1), of s 1 n] 
  have u: "unat (s + 1) = unat s + 1" "on_disk dsc f (s + 1) n" using a Suc.prems(1) by simp_all
  then have le: "lba_offset dsc \<le> s + 1" using Suc.prems(2) by (simp add: word_le_nat_alt)
  have d: "unat (s + 1) - unat (lba_offset dsc) = Suc (unat s - unat (lba_offset dsc))"
    using u(1) Suc.prems(2) by (simp add: word_le_nat_alt)
  let ?p = "512 * (unat s - unat (lba_offset dsc))"
  have "disk_sector dsc f s = take 512 (drop ?p (content f))"
    using leD [OF Suc.prems(2)] file_lba_unat [OF assms(1) Suc.prems(2)] by (simp add: disk_sector_def)
  moreover have "take (512 * Suc n) (drop ?p (content f))
      = take 512 (drop ?p (content f)) @ take (512 * n) (drop (?p + 512) (content f))"
    using take_add [of 512 "512 * n" "drop ?p (content f)"] by (simp add: add.commute)
  ultimately show ?case unfolding disk_range_Suc Suc.IH [OF u(2) le] d by (simp add: algebra_simps)
qed (simp add: disk_range_def)

subsection \<open>Sending sectors\<close>

lemma BufferSend_sends: "sends (FCH_CMD ch 0x30) w (BufferSend ch b w) b"
  using FCh_fifo_write_sends [of "FCH_CMD ch 0x30" w ch b] by (simp add: BufferSend_def)

lemma BufferSend_many: "sends (FCH_CMD ch 0x30) w (fold (\<lambda>x. BufferSend ch (g x)) xs w) (concat (map g xs))"
proof (induction xs arbitrary: w)
  case (Cons x xs)
  from sends_trans [OF BufferSend_sends Cons.IH] show ?case by simp
qed simp

lemma direct_sends:
  assumes "disk_ok dsc f" "fSource d = Some f" "fptr f mod 512 = 0" "fptr f + 512 * n \<le> f_size f" "n \<le> 256"
  shows "\<exists>cl w'. ata_FileReadSendDirect ch d n w
      = Some (d\<lparr>fSource := Some (f\<lparr>fptr := fptr f + 512 * n, clust := cl\<rparr>)\<rparr>, w') \<and>
    disk_ok dsc (f\<lparr>fptr := fptr f + 512 * n, clust := cl\<rparr>) \<and>
    sends (FCH_CMD ch 0x30) w w' (take (512 * n) (drop (fptr f) (content f)))"
proof -
  have f: "healthy f" "clust_ok f" "f_size f < 2 ^ 32" using assms(1) by (simp_all add: disk_ok_def image_ok_def)
  have n: "unat (512 * of_nat n :: u32) = 512 * n" using assms(5) by (simp add: unat_word_ariths unat_of_nat_less)
  let ?dat = "take (512 * n) (drop (fptr f) (content f))" and ?f = "f\<lparr>fptr := fptr f + 512 * n\<rparr>"
  have len: "length ?dat = 512 * n" using assms(4) by (simp add: f_size_def)
  have rd: "FF_Read f 512 (of_nat n) = (?dat, ?f)" using FF_Read_healthy [OF f(1)] assms(4) by (simp add: n)
  have dir: "FF_ReadDirect f 512 (of_nat n) w = Some (512 * n, ?f, emit (CardData ?dat) w)" for w
    using assms(3,4) len by (simp add: FF_ReadDirect_def n rd Let_def)
  let ?w1 = "SPI_DisableFileIO (SPI_EnableDirect (snd (rSPI (FCH_CMD ch FCH_CMD_FIFO_W) (SPI_EnableFileIO w))))"
  let ?w2 = "SPI_DisableDirect (emit (CardData ?dat) ?w1)"
  have e: "ata_FileReadSendDirect ch d n w = Some (d\<lparr>fSource := Some (clust_sync ?f)\<rparr>, ?w2)"
    using assms(2) f(2) by (simp add: ata_FileReadSendDirect_def c_read_direct_def dir)
  have c: "clust_sync ?f = f\<lparr>fptr := fptr f + 512 * n, clust := clust (clust_sync ?f)\<rparr>" "at_cluster f (fptr f + 512 * n) (clust (clust_sync ?f))"
    by (simp_all add: clust_sync_def at_cluster_def)
  let ?es = "[Enable PortFileIO, Xfer (FCH_CMD ch 0x30), Enable PortDirect, Disable PortFileIO,
    CardData ?dat, Disable PortDirect]"
  have "runs w ?w2 ?es"
    by (simp add: runs_def extends_def SPI_EnableFileIO_def SPI_DisableFileIO_def SPI_EnableDirect_def SPI_DisableDirect_def)
  then have "sends (FCH_CMD ch 0x30) w ?w2 ?dat" unfolding sends_def by (intro exI [of _ ?es]) simp
  moreover have "disk_ok dsc (f\<lparr>fptr := fptr f + 512 * n, clust := clust (clust_sync ?f)\<rparr>)"
    using assms(1,4) c(2) by simp
  ultimately show ?thesis using e c(1) by metis
qed

lemma send_sectors_disk:
  assumes "disk_ok dsc f" "fSource d = Some f" "at_sector dsc f s" "on_disk dsc f s n" "0 < n" "n \<le> 256"
  shows "\<exists>n' p cl w'. send_sectors ch s n dsc d c w
      = Some (n', d\<lparr>fSource := Some (f\<lparr>fptr := p, clust := cl\<rparr>)\<rparr>, c, w') \<and> 0 < n' \<and> n' \<le> n \<and> (n = 1 \<longrightarrow> n' = 1) \<and>
    disk_ok dsc (f\<lparr>fptr := p, clust := cl\<rparr>) \<and> at_sector dsc (f\<lparr>fptr := p, clust := cl\<rparr>) (s + of_nat n') \<and>
    sends (FCH_CMD ch 0x30) w w' (disk_range dsc f s n')"
proof (cases "s < lba_offset dsc")
  case True
  have fmt: "format08 dsc \<noteq> MMC" using assms(1) by (simp add: disk_ok_def image_ok_def)
  define n' where "n' = min n (unat (lba_offset dsc - s))"
  have lt: "unat s < unat (lba_offset dsc)" using True by (simp add: word_less_nat_alt)
  have df: "unat (lba_offset dsc - s) = unat (lba_offset dsc) - unat s" using unat_sub [OF less_imp_le [OF True]] .
  have n': "0 < n'" "n' \<le> n" "n = 1 \<longrightarrow> n' = 1" "unat s + n' \<le> unat (lba_offset dsc)"
    using assms(5) lt df by (auto simp: n'_def)
  let ?w = "fold (\<lambda>x. BufferSend ch (hdf_rdb dsc ! unat ((s + of_nat x) mod 3))) [0..<n'] w"
  have e: "send_sectors ch s n dsc d c w = Some (n', d, c, ?w)"
    using fmt True by (simp add: send_sectors_def n'_def min_def Let_def not_le)
  have same: "f\<lparr>fptr := fptr f, clust := clust f\<rparr> = f" "d\<lparr>fSource := Some f\<rparr> = d" using assms(2) by simp_all
  have ds: "disk_sector dsc f (s + of_nat x) = hdf_rdb dsc ! unat ((s + of_nat x) mod 3)" if "x < n'" for x
  proof -
    have "unat (s + of_nat x) = unat s + x"
      using on_disk_add(3) [OF assms(1), of s x "n - x"] assms(4) that n'(2) by simp
    then show ?thesis using that n'(4) by (simp add: disk_sector_def word_less_nat_alt)
  qed
  have "disk_range dsc f s n' = concat (map (\<lambda>x. hdf_rdb dsc ! unat ((s + of_nat x) mod 3)) [0..<n'])"
    unfolding disk_range_def by (rule arg_cong [where f = concat], rule map_cong) (simp_all add: ds)
  then have "sends (FCH_CMD ch 0x30) w ?w (disk_range dsc f s n')" using BufferSend_many by metis
  moreover have "at_sector dsc f (s + of_nat n')"
    using assms(3) lt n'(4) on_disk_add(3) [OF assms(1), of s n' "n - n'"] assms(4) n'(2) by (simp add: at_sector_def)
  ultimately show ?thesis using e same n'(1-3) assms(1) by metis
next
  case False
  then have le: "lba_offset dsc \<le> s" by simp
  have fmt: "format08 dsc \<noteq> MMC" using assms(1) by (simp add: disk_ok_def image_ok_def)
  have p: "fptr f = 512 * (unat s - unat (lba_offset dsc))" using assms(3) by (simp add: at_sector_def)
  have pm: "fptr f mod 512 = 0" by (simp add: p)
  have in_file: "fptr f + 512 * n \<le> f_size f" using assms(4) le p by (simp add: on_disk_def word_le_nat_alt algebra_simps)
  obtain cl w' where r: "ata_FileReadSendDirect ch d n w
      = Some (d\<lparr>fSource := Some (f\<lparr>fptr := fptr f + 512 * n, clust := cl\<rparr>)\<rparr>, w')"
    "disk_ok dsc (f\<lparr>fptr := fptr f + 512 * n, clust := cl\<rparr>)"
    "sends (FCH_CMD ch 0x30) w w' (take (512 * n) (drop (fptr f) (content f)))"
    using direct_sends [OF assms(1,2) pm in_file assms(6)] by blast
  have "send_sectors ch s n dsc d c w = Some (n, d\<lparr>fSource := Some (f\<lparr>fptr := fptr f + 512 * n, clust := cl\<rparr>)\<rparr>, c, w')"
    using fmt False by (simp add: send_sectors_def r(1))
  moreover have "at_sector dsc (f\<lparr>fptr := fptr f + 512 * n, clust := cl\<rparr>) (s + of_nat n)"
    using p le on_disk_add(3) [OF assms(1), of s n 0] assms(4) by (simp add: at_sector_def word_le_nat_alt algebra_simps)
  moreover have "sends (FCH_CMD ch 0x30) w w' (disk_range dsc f s n)"
    using r(3) disk_range_file [OF assms(1,4) le] p by simp
  ultimately show ?thesis using r(2) assms(5) by blast
qed

subsection \<open>The read commands\<close>

lemma seek_on_disk:
  assumes "disk_ok dsc f" "on_disk dsc f s n" "0 < n"
  shows "in_image dsc f (if s < lba_offset dsc then lba_offset dsc else s)"
    "file_lba dsc (if s < lba_offset dsc then lba_offset dsc else s) = (if s < lba_offset dsc then 0 else file_lba dsc s)"
proof -
  have k: "16 \<le> unat (index_size dsc)" "f_size f \<le> 1024 * 2 ^ unat (index_size dsc)"
    "format08 dsc \<noteq> HDF_NAKED \<longrightarrow> lba_offset dsc = 0"
    using assms(1) by (simp_all add: disk_ok_def image_ok_def seek_inv_def)
  have "512 * (unat s - unat (lba_offset dsc)) + 512 \<le> f_size f" if "lba_offset dsc \<le> s"
    using assms(2,3) that by (simp add: on_disk_def word_le_nat_alt)
  moreover have "s < lba_offset dsc \<Longrightarrow> format08 dsc = HDF_NAKED" using k(3) by auto
  ultimately show "in_image dsc f (if s < lba_offset dsc then lba_offset dsc else s)"
    "file_lba dsc (if s < lba_offset dsc then lba_offset dsc else s) = (if s < lba_offset dsc then 0 else file_lba dsc s)"
    using k(2) file_lba_unat [OF assms(1)] by (auto simp: in_image_def file_lba_def not_less)
qed

lemma read_seek_disk:
  assumes "disk_ok dsc f" "fSource d = Some f" "on_disk dsc f s n" "0 < n"
  shows "\<exists>p cl ix m mc w'. read_seek ch tfr txt s dsc d w
      = Some (True, d\<lparr>fSource := Some (f\<lparr>fptr := p, clust := cl\<rparr>)\<rparr>, dsc\<lparr>index := ix, mru_lba := m, mru_cluster := mc\<rparr>, w') \<and>
    disk_ok (dsc\<lparr>index := ix, mru_lba := m, mru_cluster := mc\<rparr>) (f\<lparr>fptr := p, clust := cl\<rparr>) \<and>
    at_sector (dsc\<lparr>index := ix, mru_lba := m, mru_cluster := mc\<rparr>) (f\<lparr>fptr := p, clust := cl\<rparr>) s \<and> sends cmd w w' []"
proof -
  let ?s = "if s < lba_offset dsc then lba_offset dsc else s"
  have img: "image_ok dsc f" using assms(1) by (simp add: disk_ok_def)
  obtain p cl ix m mc w' where r:
    "HardFileSeek d dsc ?s w = Some (0, d\<lparr>fSource := Some (f\<lparr>fptr := p, clust := cl\<rparr>)\<rparr>,
        dsc\<lparr>index := ix, mru_lba := m, mru_cluster := mc\<rparr>, w')" "p = 512 * unat (file_lba dsc ?s)"
    "image_ok (dsc\<lparr>index := ix, mru_lba := m, mru_cluster := mc\<rparr>) (f\<lparr>fptr := p, clust := cl\<rparr>)" "sends cmd w w' []"
    using HardFileSeek_disk [OF assms(2) img seek_on_disk(1) [OF assms(1,3,4)]] by blast
  have "p = 512 * (unat s - unat (lba_offset dsc))"
    using r(2) seek_on_disk(2) [OF assms(1,3,4)] file_lba_unat [OF assms(1), of s]
    by (auto simp: word_less_nat_alt word_le_nat_alt)
  then have "at_sector (dsc\<lparr>index := ix, mru_lba := m, mru_cluster := mc\<rparr>) (f\<lparr>fptr := p, clust := cl\<rparr>) s"
    by (simp add: at_sector_def)
  moreover have "disk_ok (dsc\<lparr>index := ix, mru_lba := m, mru_cluster := mc\<rparr>) (f\<lparr>fptr := p, clust := cl\<rparr>)"
    using assms(1) r(3) by (simp add: disk_ok_def)
  moreover have "read_seek ch tfr txt s dsc d w = Some (True, d\<lparr>fSource := Some (f\<lparr>fptr := p, clust := cl\<rparr>)\<rparr>,
      dsc\<lparr>index := ix, mru_lba := m, mru_cluster := mc\<rparr>, w')"
    unfolding read_seek_def Let_def r(1) by simp
  ultimately show ?thesis using r(4) by blast
qed

lemma disk_sector_desc [simp]:
  "file_lba (dsc\<lparr>index := ix, mru_lba := m, mru_cluster := mc\<rparr>) s = file_lba dsc s"
  "disk_sector (dsc\<lparr>index := ix, mru_lba := m, mru_cluster := mc\<rparr>) f s = disk_sector dsc f s"
  by (simp_all add: disk_sector_def file_lba_def)

lemma disk_range_desc [simp]:
  "disk_range (dsc\<lparr>index := ix, mru_lba := m, mru_cluster := mc\<rparr>) f s n = disk_range dsc f s n"
  "on_disk (dsc\<lparr>index := ix, mru_lba := m, mru_cluster := mc\<rparr>) f s n = on_disk dsc f s n"
  by (simp_all add: disk_range_def on_disk_def)

lemma disk_range_moved [simp]:
  "disk_range dsc (f\<lparr>fptr := p, clust := cl\<rparr>) = disk_range dsc f" "on_disk dsc (f\<lparr>fptr := p, clust := cl\<rparr>) = on_disk dsc f"
  using disk_range_content [of "f\<lparr>fptr := p, clust := cl\<rparr>" f dsc] by (simp_all add: on_disk_def fun_eq_iff)

lemma UpdateParams_sends: "c \<noteq> 0x13 \<Longrightarrow> sends (FCH_CMD ch c) w (UpdateParams ch tfr a l w) []"
  using sends_fileio_cmd [of "FCH_CMD ch c" w "FCH_CMD ch 0x13"] by (auto simp: UpdateParams_def Let_def)

lemma UpdateParams_if: "c \<noteq> 0x13 \<Longrightarrow> sends (FCH_CMD ch c) w (if b then UpdateParams ch tfr a l w else w) []"
  by (simp add: UpdateParams_sends)

lemma quiet_status: "sends (FCH_CMD ch 0x30) w (FCh_WriteStat ch s w) []" "sends (FCH_CMD ch 0x20) w (FCh_WriteStat ch s w) []"
  using FCh_WriteStat_sends [of "FCH_CMD ch 0x30" w ch s] FCh_WriteStat_sends [of "FCH_CMD ch 0x20" w ch s] by simp_all

lemma wait_quiet:
  assumes "ticking (elapsed w)" "c \<noteq> 0"
  obtains r w' where "FCh_WaitStat ch msk wanted w = Some (r, w')" "sends (FCH_CMD ch c) w w' []" "ticking (elapsed w')"
  using FCh_WaitStat_returns [OF assms(1), of ch msk wanted] FCh_WaitStat_sends [of ch msk wanted w] ready_sends assms by (metis FCH_CMD_simps)

lemma nonzero_fifo: "(0x30 :: u8) \<noteq> 0" "(0x20 :: u8) \<noteq> 0" by simp_all

lemma read_sectors_loop_disk:
  assumes "disk_ok dsc f" "fSource d = Some f" "on_disk dsc f (a_lba (snd (inc_many dsc 1 fa))) n"
    "0 < n \<longrightarrow> at_sector dsc f (a_lba (snd (inc_many dsc 1 fa)))" "ticking (elapsed w)"
  shows "\<exists>p cl w'. read_sectors_loop ch tfr lm dsc n fa d c w = Some (d\<lparr>fSource := Some (f\<lparr>fptr := p, clust := cl\<rparr>)\<rparr>, c, w') \<and>
    disk_ok dsc (f\<lparr>fptr := p, clust := cl\<rparr>) \<and>
    sends (FCH_CMD ch 0x30) w w' (disk_range dsc f (a_lba (snd (inc_many dsc 1 fa))) n)"
  using assms
proof (induction n arbitrary: f d fa w)
  case 0
  have "d\<lparr>fSource := Some (f\<lparr>fptr := fptr f, clust := clust f\<rparr>)\<rparr> = d" using 0(2) by simp
  then show ?case by (intro exI [of _ "fptr f"] exI [of _ "clust f"] exI [of _ w]) (simp add: disk_range_def 0(1))
next
  case (Suc n)
  let ?fa = "inc_many dsc 1 fa" and ?L = "a_lba (snd (inc_many dsc 1 fa))" and ?cmd = "FCH_CMD ch 0x30"
  let ?w1 = "FCh_WriteStat ch DRV08_STATUS_RDY w"
  have s1: "sends ?cmd w ?w1 []" by (rule quiet_status)
  have tk: "ticking (elapsed ?w1)" using Suc.prems(5) ready_sends [OF s1] by blast
  obtain r w2 where w2: "FCh_WaitStat ch FILEIO_REQ_OK_FM_ARM FILEIO_REQ_OK_FM_ARM ?w1 = Some (r, w2)"
    "sends ?cmd ?w1 w2 []" "ticking (elapsed w2)" by (rule wait_quiet [OF tk nonzero_fifo(1), of ch FILEIO_REQ_OK_FM_ARM FILEIO_REQ_OK_FM_ARM]) blast
  let ?w3 = "FCh_WriteStat ch DRV08_STATUS_IRQ w2"
  let ?w4 = "if \<not> fst fa then UpdateParams ch tfr (snd ?fa) lm ?w3 else ?w3"
  have s4: "sends ?cmd w ?w4 []"
    by (rule sends_trans0 [OF s1 sends_trans0 [OF w2(2) sends_trans0 [OF quiet_status(1) UpdateParams_if]]]) simp
  have "unat 1 = 1" by simp
  have on1: "on_disk dsc f ?L 1" "on_disk dsc f (?L + 1) n"
    using on_disk_add [OF Suc.prems(1), of ?L 1 n] Suc.prems(3) by simp_all
  obtain n' p cl w5 where r: "send_sectors ch ?L 1 dsc d c ?w4 = Some (n', d\<lparr>fSource := Some (f\<lparr>fptr := p, clust := cl\<rparr>)\<rparr>, c, w5)"
    "n' = 1" "disk_ok dsc (f\<lparr>fptr := p, clust := cl\<rparr>)" "at_sector dsc (f\<lparr>fptr := p, clust := cl\<rparr>) (?L + 1)"
    "sends ?cmd ?w4 w5 (disk_range dsc f ?L 1)"
    using send_sectors_disk [OF Suc.prems(1,2) _ on1(1), of ch c ?w4] Suc.prems(4) by auto
  let ?f = "f\<lparr>fptr := p, clust := cl\<rparr>" and ?d = "d\<lparr>fSource := Some (f\<lparr>fptr := p, clust := cl\<rparr>)\<rparr>"
  have L: "a_lba (snd (inc_many dsc 1 ?fa)) = ?L + 1"
    using inc_many_lba [of dsc 1 ?fa] inc_many_first [of dsc 1 fa] by simp
  have s5: "sends ?cmd w w5 (disk_range dsc f ?L 1)" by (rule sends_trans0 [OF s4 r(5)])
  have "ticking (elapsed w5)" using Suc.prems(5) ready_sends [OF s5] by blast
  then obtain p' cl' w6 where w6: "read_sectors_loop ch tfr lm dsc n ?fa ?d c w5 = Some (?d\<lparr>fSource := Some (?f\<lparr>fptr := p', clust := cl'\<rparr>)\<rparr>, c, w6)"
    "disk_ok dsc (?f\<lparr>fptr := p', clust := cl'\<rparr>)" "sends ?cmd w5 w6 (disk_range dsc ?f (?L + 1) n)"
    using Suc.IH [of ?f ?d ?fa w5] r(3,4) on1(2) unfolding L by auto
  have "read_sectors_loop ch tfr lm dsc (Suc n) fa d c w = Some (d\<lparr>fSource := Some (f\<lparr>fptr := p', clust := cl'\<rparr>)\<rparr>, c, w6)"
    unfolding read_sectors_loop.simps Let_def w2(1) Option.bind_lunit prod.case r(1) w6(1) by simp
  moreover have "disk_range dsc f ?L (Suc n) = disk_range dsc f ?L 1 @ disk_range dsc f (?L + 1) n"
    using disk_range_add [of dsc f ?L 1 n] by simp
  ultimately show ?case using sends_trans [OF s5 w6(3)] w6(2) by auto
qed


text \<open>The result of reading: only the file pointer and the cluster moved, and the core got the bytes.\<close>

lemma read_block_loop_disk:
  assumes "disk_ok dsc f" "fSource d = Some f" "on_disk dsc f s m" "at_sector dsc f s" "ticking (elapsed w)"
  shows "\<exists>p cl w'. read_block_loop ch dsc m s d c w = Some (s + of_nat m, d\<lparr>fSource := Some (f\<lparr>fptr := p, clust := cl\<rparr>)\<rparr>, c, w') \<and>
    disk_ok dsc (f\<lparr>fptr := p, clust := cl\<rparr>) \<and> at_sector dsc (f\<lparr>fptr := p, clust := cl\<rparr>) (s + of_nat m) \<and>
    sends (FCH_CMD ch 0x30) w w' (disk_range dsc f s m)"
  using assms
proof (induction m arbitrary: f d s w rule: less_induct)
  case (less m)
  let ?cmd = "FCH_CMD ch 0x30"
  show ?case
  proof (cases "m = 0")
    case True
    have "d\<lparr>fSource := Some (f\<lparr>fptr := fptr f, clust := clust f\<rparr>)\<rparr> = d" using less.prems(2) by simp
    then show ?thesis using True less.prems
      by (intro exI [of _ "fptr f"] exI [of _ "clust f"] exI [of _ w]) (simp add: read_block_loop.simps disk_range_def)
  next
    case False
    let ?i = "min m 7"
    obtain r w2 where w2: "FCh_WaitStat ch FILEIO_REQ_OK_FM_ARM FILEIO_REQ_OK_FM_ARM w = Some (r, w2)"
      "sends ?cmd w w2 []" "ticking (elapsed w2)"
      by (rule wait_quiet [OF less.prems(5) nonzero_fifo(1), of ch FILEIO_REQ_OK_FM_ARM FILEIO_REQ_OK_FM_ARM]) blast
    have i: "0 < ?i" "?i \<le> 256" "?i + (m - ?i) = m" using False by auto
    have on1: "on_disk dsc f s ?i" using on_disk_add(1) [OF less.prems(1), of s ?i "m - ?i"] less.prems(3) i(3) by simp
    from send_sectors_disk [OF less.prems(1,2,4) on1 i(1,2), of ch c w2]
    obtain n p cl w3 where r: "send_sectors ch s ?i dsc d c w2 = Some (n, d\<lparr>fSource := Some (f\<lparr>fptr := p, clust := cl\<rparr>)\<rparr>, c, w3)"
      "0 < n" "n \<le> ?i" "disk_ok dsc (f\<lparr>fptr := p, clust := cl\<rparr>)" "at_sector dsc (f\<lparr>fptr := p, clust := cl\<rparr>) (s + of_nat n)"
      "sends ?cmd w2 w3 (disk_range dsc f s n)"
      by (elim exE conjE) (rule that)
    let ?f = "f\<lparr>fptr := p, clust := cl\<rparr>" and ?d = "d\<lparr>fSource := Some (f\<lparr>fptr := p, clust := cl\<rparr>)\<rparr>"
    have n: "m - n < m" "n + (m - n) = m" using r(2,3) by auto
    have s3: "sends ?cmd w w3 (disk_range dsc f s n)" by (rule sends_trans0 [OF w2(2) r(6)])
    have tk: "ticking (elapsed w3)" using less.prems(5) ready_sends [OF s3] by blast
    have on: "on_disk dsc ?f (s + of_nat n) (m - n)"
      using on_disk_add(2) [OF less.prems(1), of s n "m - n"] less.prems(3) n(2) by simp
    obtain p' cl' w4 where w4: "read_block_loop ch dsc (m - n) (s + of_nat n) ?d c w3
        = Some (s + of_nat n + of_nat (m - n), ?d\<lparr>fSource := Some (?f\<lparr>fptr := p', clust := cl'\<rparr>)\<rparr>, c, w4)"
      "disk_ok dsc (?f\<lparr>fptr := p', clust := cl'\<rparr>)" "at_sector dsc (?f\<lparr>fptr := p', clust := cl'\<rparr>) (s + of_nat n + of_nat (m - n))"
      "sends ?cmd w3 w4 (disk_range dsc ?f (s + of_nat n) (m - n))"
      using less.IH [OF n(1) r(4) _ on r(5) tk, of ?d] by auto
    have sm: "s + of_nat n + of_nat (m - n) = s + of_nat m" using n(2) by (metis add.assoc of_nat_add)
    have "read_block_loop ch dsc m s d c w = Some (s + of_nat m, ?d\<lparr>fSource := Some (?f\<lparr>fptr := p', clust := cl'\<rparr>)\<rparr>, c, w4)"
      using False r(2) unfolding read_block_loop.simps [of ch dsc m] Let_def w2(1) Option.bind_lunit prod.case r(1)
      by (simp add: w4(1) sm)
    moreover have "disk_range dsc f s m = disk_range dsc f s n @ disk_range dsc f (s + of_nat n) (m - n)"
      using disk_range_add [of dsc f s n "m - n"] n(2) by simp
    ultimately show ?thesis using sends_trans [OF s3 w4(4)] w4(2,3) sm by auto
  qed
qed

lemma read_multiple_loop_disk:
  assumes "disk_ok dsc f" "fSource d = Some f" "on_disk dsc f s m" "at_sector dsc f s" "ticking (elapsed w)"
    "sectors_per_block dsc \<noteq> 0"
  shows "\<exists>p cl w'. read_multiple_loop ch tfr lm dsc m fa s d c w = Some (d\<lparr>fSource := Some (f\<lparr>fptr := p, clust := cl\<rparr>)\<rparr>, c, w') \<and>
    disk_ok dsc (f\<lparr>fptr := p, clust := cl\<rparr>) \<and> sends (FCH_CMD ch 0x30) w w' (disk_range dsc f s m)"
  using assms(1-5)
proof (induction m arbitrary: f d s w fa rule: less_induct)
  case (less m)
  let ?cmd = "FCH_CMD ch 0x30"
  show ?case
  proof (cases "m = 0")
    case True
    have "d\<lparr>fSource := Some (f\<lparr>fptr := fptr f, clust := clust f\<rparr>)\<rparr> = d" using less.prems(2) by simp
    then show ?thesis using True less.prems
      by (intro exI [of _ "fptr f"] exI [of _ "clust f"] exI [of _ w]) (simp add: read_multiple_loop.simps disk_range_def)
  next
    case False
    let ?i = "min m (unat (sectors_per_block dsc))"
    let ?w2 = "UpdateParams ch tfr (snd (inc_many dsc ?i fa)) lm (FCh_WriteStat ch DRV08_STATUS_IRQ w)"
    have i: "m - ?i < m" "?i + (m - ?i) = m" using False assms(6) by (auto simp: unat_gt_0)
    have s2: "sends ?cmd w ?w2 []" by (rule sends_trans0 [OF quiet_status(1) UpdateParams_sends]) simp
    have tk2: "ticking (elapsed ?w2)" using less.prems(5) ready_sends [OF s2] by blast
    have on1: "on_disk dsc f s ?i" "on_disk dsc f (s + of_nat ?i) (m - ?i)"
      using on_disk_add(1,2) [OF less.prems(1), of s ?i "m - ?i"] less.prems(3) i(2) by simp_all
    obtain p cl w3 where r: "read_block_loop ch dsc ?i s d c ?w2 = Some (s + of_nat ?i, d\<lparr>fSource := Some (f\<lparr>fptr := p, clust := cl\<rparr>)\<rparr>, c, w3)"
      "disk_ok dsc (f\<lparr>fptr := p, clust := cl\<rparr>)" "at_sector dsc (f\<lparr>fptr := p, clust := cl\<rparr>) (s + of_nat ?i)"
      "sends ?cmd ?w2 w3 (disk_range dsc f s ?i)"
      using read_block_loop_disk [OF less.prems(1,2) on1(1) less.prems(4) tk2] by blast
    let ?f = "f\<lparr>fptr := p, clust := cl\<rparr>" and ?d = "d\<lparr>fSource := Some (f\<lparr>fptr := p, clust := cl\<rparr>)\<rparr>"
    have s3: "sends ?cmd w w3 (disk_range dsc f s ?i)" by (rule sends_trans0 [OF s2 r(4)])
    have tk: "ticking (elapsed w3)" using less.prems(5) ready_sends [OF s3] by blast
    obtain p' cl' w4 where w4: "read_multiple_loop ch tfr lm dsc (m - ?i) (inc_many dsc ?i fa) (s + of_nat ?i) ?d c w3
        = Some (?d\<lparr>fSource := Some (?f\<lparr>fptr := p', clust := cl'\<rparr>)\<rparr>, c, w4)"
      "disk_ok dsc (?f\<lparr>fptr := p', clust := cl'\<rparr>)" "sends ?cmd w3 w4 (disk_range dsc ?f (s + of_nat ?i) (m - ?i))"
      using less.IH [OF i(1) r(2) _ _ r(3) tk, of ?d "inc_many dsc ?i fa"] on1(2) by auto
    have "read_multiple_loop ch tfr lm dsc m fa s d c w = Some (?d\<lparr>fSource := Some (?f\<lparr>fptr := p', clust := cl'\<rparr>)\<rparr>, c, w4)"
      using False assms(6) unfolding read_multiple_loop.simps [of ch tfr lm dsc m] Let_def r(1) Option.bind_lunit prod.case w4(1)
      by simp
    moreover have "disk_range dsc f s m = disk_range dsc f s ?i @ disk_range dsc f (s + of_nat ?i) (m - ?i)"
      using disk_range_add [of dsc f s ?i "m - ?i"] i(2) by simp
    ultimately show ?thesis using sends_trans [OF s3 w4(3)] w4(2) by auto
  qed
qed


lemma ata_read_sectors_disk:
  assumes "disk_ok dsc f" "fSource d = Some f" "GetParams tfr dsc = (a, n, lm)" "0 < n" "on_disk dsc f (a_lba a) n"
    "ticking (elapsed w)"
  shows "\<exists>p cl ix m mc w'. ata_read_sectors ch tfr dsc d c w
      = Some (put_desc (dsc\<lparr>index := ix, mru_lba := m, mru_cluster := mc\<rparr>) (d\<lparr>fSource := Some (f\<lparr>fptr := p, clust := cl\<rparr>)\<rparr>), c, w') \<and>
    disk_ok (dsc\<lparr>index := ix, mru_lba := m, mru_cluster := mc\<rparr>) (f\<lparr>fptr := p, clust := cl\<rparr>) \<and>
    sends (FCH_CMD ch 0x30) w w' (disk_range dsc f (a_lba a) n)"
proof -
  let ?cmd = "FCH_CMD ch 0x30"
  obtain p cl ix m mc w1 where r: "read_seek ch tfr ''Drv08:Read from invalid LBA (%lu)'' (a_lba a) dsc d w
      = Some (True, d\<lparr>fSource := Some (f\<lparr>fptr := p, clust := cl\<rparr>)\<rparr>, dsc\<lparr>index := ix, mru_lba := m, mru_cluster := mc\<rparr>, w1)"
    "disk_ok (dsc\<lparr>index := ix, mru_lba := m, mru_cluster := mc\<rparr>) (f\<lparr>fptr := p, clust := cl\<rparr>)"
    "at_sector (dsc\<lparr>index := ix, mru_lba := m, mru_cluster := mc\<rparr>) (f\<lparr>fptr := p, clust := cl\<rparr>) (a_lba a)" "sends ?cmd w w1 []"
    using read_seek_disk [OF assms(1,2,5,4), of ch tfr "''Drv08:Read from invalid LBA (%lu)''" w ?cmd] by blast
  let ?f = "f\<lparr>fptr := p, clust := cl\<rparr>" and ?dsc = "dsc\<lparr>index := ix, mru_lba := m, mru_cluster := mc\<rparr>"
  let ?d = "put_desc ?dsc (d\<lparr>fSource := Some ?f\<rparr>)"
  have first: "a_lba (snd (inc_many ?dsc 1 (True, a))) = a_lba a" by simp
  have tk: "ticking (elapsed w1)" using assms(6) ready_sends [OF r(4)] by blast
  obtain p' cl' w2 where l: "read_sectors_loop ch tfr lm ?dsc n (True, a) ?d c w1
      = Some (?d\<lparr>fSource := Some (?f\<lparr>fptr := p', clust := cl'\<rparr>)\<rparr>, c, w2)"
    "disk_ok ?dsc (?f\<lparr>fptr := p', clust := cl'\<rparr>)" "sends ?cmd w1 w2 (disk_range ?dsc ?f (a_lba a) n)"
    using read_sectors_loop_disk [OF r(2) _ _ _ tk, of ?d "(True, a)" n ch tfr lm c] r(3) assms(5) unfolding first
    by (auto simp: put_desc_def)
  have "ata_read_sectors ch tfr dsc d c w = Some (?d\<lparr>fSource := Some (?f\<lparr>fptr := p', clust := cl'\<rparr>)\<rparr>, c, w2)"
    unfolding ata_read_sectors_def Let_def assms(3) prod.case r(1) Option.bind_lunit by (simp add: l(1))
  also have "?d\<lparr>fSource := Some (?f\<lparr>fptr := p', clust := cl'\<rparr>)\<rparr> = put_desc ?dsc (d\<lparr>fSource := Some (f\<lparr>fptr := p', clust := cl'\<rparr>)\<rparr>)"
    by (simp add: put_desc_def)
  finally show ?thesis using l(2) sends_trans0 [OF r(4) l(3)]
    by (intro exI [of _ p'] exI [of _ cl'] exI [of _ ix] exI [of _ m] exI [of _ mc] exI [of _ w2]) simp
qed

lemma ata_read_multiple_disk:
  assumes "disk_ok dsc f" "fSource d = Some f" "GetParams tfr dsc = (a, n, lm)" "0 < n" "on_disk dsc f (a_lba a) n"
    "ticking (elapsed w)" "sectors_per_block dsc \<noteq> 0"
  shows "\<exists>p cl ix m mc w'. ata_read_multiple ch tfr dsc d c w
      = Some (put_desc (dsc\<lparr>index := ix, mru_lba := m, mru_cluster := mc\<rparr>) (d\<lparr>fSource := Some (f\<lparr>fptr := p, clust := cl\<rparr>)\<rparr>), c, w') \<and>
    disk_ok (dsc\<lparr>index := ix, mru_lba := m, mru_cluster := mc\<rparr>) (f\<lparr>fptr := p, clust := cl\<rparr>) \<and>
    sends (FCH_CMD ch 0x30) w w' (disk_range dsc f (a_lba a) n)"
proof -
  let ?cmd = "FCH_CMD ch 0x30" and ?w0 = "FCh_WriteStat ch DRV08_STATUS_RDY w"
  obtain p cl ix m mc w1 where r: "read_seek ch tfr ''Drv08:Read Multiple bad LBA (%lu)'' (a_lba a) dsc d ?w0
      = Some (True, d\<lparr>fSource := Some (f\<lparr>fptr := p, clust := cl\<rparr>)\<rparr>, dsc\<lparr>index := ix, mru_lba := m, mru_cluster := mc\<rparr>, w1)"
    "disk_ok (dsc\<lparr>index := ix, mru_lba := m, mru_cluster := mc\<rparr>) (f\<lparr>fptr := p, clust := cl\<rparr>)"
    "at_sector (dsc\<lparr>index := ix, mru_lba := m, mru_cluster := mc\<rparr>) (f\<lparr>fptr := p, clust := cl\<rparr>) (a_lba a)" "sends ?cmd ?w0 w1 []"
    using read_seek_disk [OF assms(1,2,5,4), of ch tfr "''Drv08:Read Multiple bad LBA (%lu)''" ?w0 ?cmd] by blast
  let ?f = "f\<lparr>fptr := p, clust := cl\<rparr>" and ?dsc = "dsc\<lparr>index := ix, mru_lba := m, mru_cluster := mc\<rparr>"
  let ?d = "put_desc ?dsc (d\<lparr>fSource := Some ?f\<rparr>)"
  have s1: "sends ?cmd w w1 []" by (rule sends_trans0 [OF quiet_status(1) r(4)])
  have tk: "ticking (elapsed w1)" using assms(6) ready_sends [OF s1] by blast
  obtain p' cl' w2 where l: "read_multiple_loop ch tfr lm ?dsc n (True, a) (a_lba a) ?d c w1
      = Some (?d\<lparr>fSource := Some (?f\<lparr>fptr := p', clust := cl'\<rparr>)\<rparr>, c, w2)"
    "disk_ok ?dsc (?f\<lparr>fptr := p', clust := cl'\<rparr>)" "sends ?cmd w1 w2 (disk_range ?dsc ?f (a_lba a) n)"
    using read_multiple_loop_disk [OF r(2) _ _ r(3) tk, of ?d n ch tfr lm "(True, a)" c] assms(5,7)
    by (auto simp: put_desc_def)
  have "ata_read_multiple ch tfr dsc d c w = Some (?d\<lparr>fSource := Some (?f\<lparr>fptr := p', clust := cl'\<rparr>)\<rparr>, c, w2)"
    using assms(7) unfolding ata_read_multiple_def Let_def assms(3) prod.case r(1) Option.bind_lunit by (simp add: l(1))
  also have "?d\<lparr>fSource := Some (?f\<lparr>fptr := p', clust := cl'\<rparr>)\<rparr> = put_desc ?dsc (d\<lparr>fSource := Some (f\<lparr>fptr := p', clust := cl'\<rparr>)\<rparr>)"
    by (simp add: put_desc_def)
  finally show ?thesis using l(2) sends_trans0 [OF s1 l(3)]
    by (intro exI [of _ p'] exI [of _ cl'] exI [of _ ix] exI [of _ m] exI [of _ mc] exI [of _ w2]) simp
qed




definition naked_desc :: drv08_desc where
  "naked_desc = (BuildHardfileIndex zero_drv08_desc)
     \<lparr>format08 := HDF_NAKED, lba_offset := 5, hdf_rdb := [replicate 512 1, replicate 512 2, replicate 512 3]\<rparr>"

lemma naked_desc_ok: "disk_ok naked_desc (test_file (replicate 8192 0))"
proof -
  have k: "index_size naked_desc = 16" "index naked_desc = replicate 1024 no_cluster" "mru_lba naked_desc = 0xFFFFFFFF"
    by (simp_all add: naked_desc_def BuildHardfileIndex_def zero_drv08_desc_def index_step.simps)
  have f: "f_size (test_file (replicate 8192 0)) = 8192" "clust_ok (test_file (replicate 8192 0))"
    "healthy (test_file (replicate 8192 0))" by (simp_all add: test_file_ok f_size_def clust_ok_def)
  show ?thesis using k f by (simp add: disk_ok_def image_ok_def seek_inv_def) (simp add: naked_desc_def)
qed


subsection \<open>The write commands\<close>

lemma ticking_gets: "gets cmd w w' bs \<Longrightarrow> ticking (elapsed w) \<Longrightarrow> ticking (elapsed w')"
  by (auto simp: gets_def runs_def extends_def)

lemma fetch_sectors_gets:
  "ticking (elapsed w) \<Longrightarrow> \<exists>dat w'. fetch_sectors ch n w = Some (dat, w') \<and> length dat = 512 * n \<and> gets (FCH_CMD ch 0x20) w w' dat"
proof (induction n arbitrary: w)
  case (Suc n)
  let ?cmd = "FCH_CMD ch 0x20"
  obtain r w1 where w1: "FCh_WaitStat ch FILEIO_REQ_OK_TO_ARM FILEIO_REQ_OK_TO_ARM w = Some (r, w1)"
    "sends ?cmd w w1 []" "ticking (elapsed w1)"
    by (rule wait_quiet [OF Suc.prems nonzero_fifo(2), of ch FILEIO_REQ_OK_TO_ARM FILEIO_REQ_OK_TO_ARM]) blast
  let ?dat = "fst (FCh_fifo_read ch (replicate 512 0) w1)" and ?w2 = "snd (FCh_fifo_read ch (replicate 512 0) w1)"
  have g: "gets ?cmd w ?w2 ?dat" by (rule gets_trans0 [OF sends_gets [OF w1(2)] FCh_fifo_read_gets])
  obtain rest w3 where w3: "fetch_sectors ch n ?w2 = Some (rest, w3)" "length rest = 512 * n" "gets ?cmd ?w2 w3 rest"
    using Suc.IH [OF ticking_gets [OF g Suc.prems]] by blast
  have "fetch_sectors ch (Suc n) w = Some (?dat @ rest, w3)"
    by (simp add: w1(1) Let_def case_prod_beta w3(1))
  moreover have "length (?dat @ rest) = 512 * Suc n" using w3(2) by simp
  ultimately show ?case using gets_trans [OF g w3(3)] by blast
qed simp

text \<open>Bytes put into an image, from the file pointer on.\<close>

definition put_image :: "drv08_desc \<Rightarrow> FIL \<Rightarrow> u8 list \<Rightarrow> FIL \<Rightarrow> bool" where
  "put_image dsc f dat f' \<longleftrightarrow> content f' = splice (content f) (fptr f) dat \<and> fptr f' = fptr f + length dat \<and>
     f_size f' = f_size f \<and> fil_write f' \<and> disk_ok dsc f'"

lemma put_image_Nil: "disk_ok dsc f \<Longrightarrow> fil_write f \<Longrightarrow> put_image dsc f [] f"
  by (simp add: put_image_def)

lemma put_image_trans:
  "put_image dsc f dat f' \<Longrightarrow> put_image dsc f' dat' f'' \<Longrightarrow> fptr f \<le> f_size f \<Longrightarrow> put_image dsc f (dat @ dat') f''"
  by (auto simp: put_image_def f_size_def splice_splice)

lemma put_image_room:
  "put_image dsc f dat f' \<Longrightarrow> fptr f + (length dat + n) \<le> f_size f \<Longrightarrow> fptr f' + n \<le> f_size f'"
  by (simp add: put_image_def)

lemma FileWrite_disk:
  assumes "disk_ok dsc f" "fSource d = Some f" "fil_write f" "fptr f + length dat \<le> f_size f" "length dat = 512 * n" "n \<le> 256"
  shows "\<exists>f'. FileWrite d dat n = Some (d\<lparr>fSource := Some f'\<rparr>) \<and> put_image dsc f dat f'"
proof -
  have f: "healthy f" "clust_ok f" using assms(1) by (simp_all add: disk_ok_def image_ok_def)
  have n: "unat (512 * of_nat n :: u32) = length dat" using assms(5,6) by (simp add: unat_word_ariths unat_of_nat_less)
  let ?f = "f\<lparr>content := splice (content f) (fptr f) dat, fptr := fptr f + length dat\<rparr>"
  have "f_write f dat = (FR_OK, length dat, ?f)"
    using f_write_healthy [OF f(1) assms(3), of dat] assms(4) by (simp add: splice_def)
  then have "FF_Write f 512 (of_nat n) dat = (length dat, ?f)" by (simp add: FF_Write_def n)
  then have e: "FileWrite d dat n = Some (d\<lparr>fSource := Some (clust_sync ?f)\<rparr>)"
    using assms(2) f(2) by (simp add: FileWrite_def c_write_def)
  have sz: "f_size ?f = f_size f" using assms(4) by (simp add: f_size_def length_splice)
  have "at_cluster ?f = at_cluster f" by (simp add: at_cluster_def fun_eq_iff)
  then have "seek_inv dsc ?f = seek_inv dsc f" by (simp add: seek_inv_def)
  then have "disk_ok dsc (clust_sync ?f)" using assms(1,4) sz
    by (auto simp: disk_ok_def image_ok_def healthy_def file_ok_def clust_sync_def clust_ok_at at_cluster_def f_size_def seek_inv_def)
  then have "put_image dsc f dat (clust_sync ?f)" using sz assms(3) by (simp add: put_image_def clust_sync_def)
  with e show ?thesis by blast
qed

lemma store_sectors_disk:
  assumes "disk_ok dsc f" "fSource d = Some f" "fil_write f" "fptr f + length dat \<le> f_size f" "length dat = 512 * n" "n \<le> 256"
  shows "\<exists>f'. store_sectors lba dat n dsc d c w = Some (d\<lparr>fSource := Some f'\<rparr>, c, w) \<and> put_image dsc f dat f'"
  using FileWrite_disk [OF assms] assms(1) by (auto simp: store_sectors_def disk_ok_def image_ok_def)


lemma quiet_gets: "gets (FCH_CMD ch 0x20) w (FCh_WriteStat ch s w) []" "gets (FCH_CMD ch 0x20) w (UpdateParams ch tfr a l w) []"
  "gets (FCH_CMD ch 0x20) w (if b then UpdateParams ch tfr a l w else w) []"
  using sends_gets [OF quiet_status(2)] sends_gets [OF UpdateParams_sends [of "0x20"]] sends_gets [OF UpdateParams_if [of "0x20"]] by simp_all

lemma write_sectors_loop_disk:
  assumes "disk_ok dsc f" "fSource d = Some f" "fil_write f" "fptr f + 512 * n \<le> f_size f" "ticking (elapsed w)"
  shows "\<exists>dat f' w'. write_sectors_loop ch tfr lm dsc n fa lba d c w = Some (d\<lparr>fSource := Some f'\<rparr>, c, w') \<and>
    length dat = 512 * n \<and> gets (FCH_CMD ch 0x20) w w' dat \<and> put_image dsc f dat f'"
  using assms
proof (induction n arbitrary: f d fa lba w)
  case 0
  have "d\<lparr>fSource := Some f\<rparr> = d" using 0(2) by simp
  then show ?case using put_image_Nil [OF 0(1,3)] by (intro exI [of _ "[]"] exI [of _ f] exI [of _ w]) simp
next
  case (Suc n)
  let ?cmd = "FCH_CMD ch 0x20" and ?fa = "inc_many dsc 1 fa"
  obtain dat w1 where w1: "fetch_sectors ch 1 w = Some (dat, w1)" "length dat = 512 * 1" "gets ?cmd w w1 dat"
    using fetch_sectors_gets [OF Suc.prems(5), of ch 1] by blast
  let ?w2 = "FCh_WriteStat ch (release_status n) (if \<not> fst fa then UpdateParams ch tfr (snd ?fa) lm w1 else w1)"
  have g: "gets ?cmd w ?w2 dat" by (rule gets_trans1 [OF w1(3) gets_trans0 [OF quiet_gets(3,1)]])
  have room: "fptr f + length dat \<le> f_size f" "fptr f + (length dat + 512 * n) \<le> f_size f" using Suc.prems(4) w1(2) by simp_all
  obtain f1 where f1: "store_sectors lba dat 1 dsc d c ?w2 = Some (d\<lparr>fSource := Some f1\<rparr>, c, ?w2)" "put_image dsc f dat f1"
    using store_sectors_disk [OF Suc.prems(1-3) room(1) w1(2), of lba c ?w2] by auto
  have q: "disk_ok dsc f1" "fil_write f1" using f1(2) by (simp_all add: put_image_def)
  obtain dat' f2 w3 where r: "write_sectors_loop ch tfr lm dsc n ?fa (lba + 1) (d\<lparr>fSource := Some f1\<rparr>) c ?w2
      = Some (d\<lparr>fSource := Some f1\<rparr>\<lparr>fSource := Some f2\<rparr>, c, w3)"
    "length dat' = 512 * n" "gets ?cmd ?w2 w3 dat'" "put_image dsc f1 dat' f2"
    using Suc.IH [OF q(1) _ q(2) put_image_room [OF f1(2) room(2)] ticking_gets [OF g Suc.prems(5)], of "d\<lparr>fSource := Some f1\<rparr>" ?fa "lba + 1"] by auto
  have "write_sectors_loop ch tfr lm dsc (Suc n) fa lba d c w = Some (d\<lparr>fSource := Some f2\<rparr>, c, w3)"
    unfolding write_sectors_loop.simps Let_def w1(1) Option.bind_lunit prod.case f1(1) r(1) by simp
  moreover have "length (dat @ dat') = 512 * Suc n" using w1(2) r(2) by simp
  moreover have "put_image dsc f (dat @ dat') f2" by (rule put_image_trans [OF f1(2) r(4)]) (use room(1) in simp)
  ultimately show ?case using gets_trans [OF g r(3)] by blast
qed

lemma write_block_loop_disk:
  assumes "disk_ok dsc f" "fSource d = Some f" "fil_write f" "fptr f + 512 * m \<le> f_size f" "ticking (elapsed w)"
  shows "\<exists>fa' lba' dat f' w'. write_block_loop ch dsc m fa lba d c w = Some (fa', lba', d\<lparr>fSource := Some f'\<rparr>, c, w') \<and>
    length dat = 512 * m \<and> gets (FCH_CMD ch 0x20) w w' dat \<and> put_image dsc f dat f'"
  using assms
proof (induction m arbitrary: f d fa lba w rule: less_induct)
  case (less m)
  let ?cmd = "FCH_CMD ch 0x20"
  show ?case
  proof (cases "m = 0")
    case True
    have "d\<lparr>fSource := Some f\<rparr> = d" using less.prems(2) by simp
    then show ?thesis using put_image_Nil [OF less.prems(1,3)] True
      by (intro exI [of _ fa] exI [of _ lba] exI [of _ "[]"] exI [of _ f] exI [of _ w]) (simp add: write_block_loop.simps)
  next
    case False
    let ?i = "min m 4"
    obtain dat w1 where w1: "fetch_sectors ch ?i w = Some (dat, w1)" "length dat = 512 * ?i" "gets ?cmd w w1 dat"
      using fetch_sectors_gets [OF less.prems(5), of ch ?i] by blast
    have i: "m - ?i < m" "?i + (m - ?i) = m" "?i \<le> 256" using False by auto
    have room: "fptr f + length dat \<le> f_size f" "fptr f + (length dat + 512 * (m - ?i)) \<le> f_size f"
      using less.prems(4) w1(2) i(2) by (simp_all add: min_def split: if_splits)
    obtain f1 where f1: "store_sectors lba dat ?i dsc d c w1 = Some (d\<lparr>fSource := Some f1\<rparr>, c, w1)" "put_image dsc f dat f1"
      using store_sectors_disk [OF less.prems(1-3) room(1) w1(2) i(3), of lba c w1] by auto
    have q: "disk_ok dsc f1" "fil_write f1" using f1(2) by (simp_all add: put_image_def)
    from less.IH [OF i(1) q(1) _ q(2) put_image_room [OF f1(2) room(2)] ticking_gets [OF w1(3) less.prems(5)],
        of "d\<lparr>fSource := Some f1\<rparr>" "inc_many dsc ?i fa" "lba + of_nat ?i"]
    obtain fa' lba' dat' f2 w3 where r: "write_block_loop ch dsc (m - ?i) (inc_many dsc ?i fa) (lba + of_nat ?i) (d\<lparr>fSource := Some f1\<rparr>) c w1
        = Some (fa', lba', d\<lparr>fSource := Some f1\<rparr>\<lparr>fSource := Some f2\<rparr>, c, w3)"
      "length dat' = 512 * (m - ?i)" "gets ?cmd w1 w3 dat'" "put_image dsc f1 dat' f2"
      by auto
    have "write_block_loop ch dsc m fa lba d c w = Some (fa', lba', d\<lparr>fSource := Some f2\<rparr>, c, w3)"
      using False unfolding write_block_loop.simps [of ch dsc m] Let_def w1(1) Option.bind_lunit prod.case f1(1) r(1) by simp
    moreover have "length (dat @ dat') = 512 * m" using w1(2) r(2) i(2) by (metis add_mult_distrib2 length_append)
    moreover have "put_image dsc f (dat @ dat') f2" by (rule put_image_trans [OF f1(2) r(4)]) (use room(1) in simp)
    ultimately show ?thesis using gets_trans [OF w1(3) r(3)] by blast
  qed
qed

lemma write_multiple_loop_disk:
  assumes "disk_ok dsc f" "fSource d = Some f" "fil_write f" "fptr f + 512 * m \<le> f_size f" "ticking (elapsed w)"
    "sectors_per_block dsc \<noteq> 0"
  shows "\<exists>dat f' w'. write_multiple_loop ch tfr lm dsc m fa lba d c w = Some (d\<lparr>fSource := Some f'\<rparr>, c, w') \<and>
    length dat = 512 * m \<and> gets (FCH_CMD ch 0x20) w w' dat \<and> put_image dsc f dat f'"
  using assms(1-5)
proof (induction m arbitrary: f d fa lba w rule: less_induct)
  case (less m)
  let ?cmd = "FCH_CMD ch 0x20"
  show ?case
  proof (cases "m = 0")
    case True
    have "d\<lparr>fSource := Some f\<rparr> = d" using less.prems(2) by simp
    then show ?thesis using put_image_Nil [OF less.prems(1,3)] True
      by (intro exI [of _ "[]"] exI [of _ f] exI [of _ w]) (simp add: write_multiple_loop.simps)
  next
    case False
    let ?i = "min m (unat (sectors_per_block dsc))"
    have i: "m - ?i < m" "?i + (m - ?i) = m" using False assms(6) by (auto simp: unat_gt_0)
    have room: "fptr f + 512 * ?i \<le> f_size f" "fptr f + (512 * ?i + 512 * (m - ?i)) \<le> f_size f"
      using less.prems(4) i(2) by linarith+
    from write_block_loop_disk [OF less.prems(1-3) room(1) less.prems(5), of ch fa lba c]
    obtain fa' lba' dat f1 w1 where r: "write_block_loop ch dsc ?i fa lba d c w = Some (fa', lba', d\<lparr>fSource := Some f1\<rparr>, c, w1)"
      "length dat = 512 * ?i" "gets ?cmd w w1 dat" "put_image dsc f dat f1" by (elim exE conjE) (rule that)
    let ?w2 = "FCh_WriteStat ch (release_status (m - ?i)) (UpdateParams ch tfr (snd fa') lm w1)"
    have g: "gets ?cmd w ?w2 dat" by (rule gets_trans1 [OF r(3) gets_trans0 [OF quiet_gets(2,1)]])
    have q: "disk_ok dsc f1" "fil_write f1" using r(4) by (simp_all add: put_image_def)
    have q3: "fptr f1 + 512 * (m - ?i) \<le> f_size f1" using put_image_room [OF r(4)] room(2) r(2) by simp
    from less.IH [OF i(1) q(1) _ q(2) q3 ticking_gets [OF g less.prems(5)], of "d\<lparr>fSource := Some f1\<rparr>" fa' lba']
    obtain dat' f2 w3 where s: "write_multiple_loop ch tfr lm dsc (m - ?i) fa' lba' (d\<lparr>fSource := Some f1\<rparr>) c ?w2
        = Some (d\<lparr>fSource := Some f1\<rparr>\<lparr>fSource := Some f2\<rparr>, c, w3)"
      "length dat' = 512 * (m - ?i)" "gets ?cmd ?w2 w3 dat'" "put_image dsc f1 dat' f2" by auto
    have "write_multiple_loop ch tfr lm dsc m fa lba d c w = Some (d\<lparr>fSource := Some f2\<rparr>, c, w3)"
      using False assms(6) unfolding write_multiple_loop.simps [of ch tfr lm dsc m] Let_def r(1) Option.bind_lunit prod.case s(1)
      by simp
    moreover have "length (dat @ dat') = 512 * m" using r(2) s(2) i(2) by (metis add_mult_distrib2 length_append)
    moreover have "put_image dsc f (dat @ dat') f2" by (rule put_image_trans [OF r(4) s(4)]) (use room(1) r(2) in simp)
    ultimately show ?thesis using gets_trans [OF g s(3)] by blast
  qed
qed


lemma write_seek_disk:
  assumes "disk_ok dsc f" "fSource d = Some f" "on_disk dsc f s n" "0 < n" "lba_offset dsc \<le> s"
  shows "\<exists>p cl ix m mc w'. write_seek ch tfr txt s dsc d w
      = Some (True, d\<lparr>fSource := Some (f\<lparr>fptr := p, clust := cl\<rparr>)\<rparr>, dsc\<lparr>index := ix, mru_lba := m, mru_cluster := mc\<rparr>, w') \<and>
    disk_ok (dsc\<lparr>index := ix, mru_lba := m, mru_cluster := mc\<rparr>) (f\<lparr>fptr := p, clust := cl\<rparr>) \<and>
    p = 512 * (unat s - unat (lba_offset dsc)) \<and> sends cmd w w' []"
proof -
  have img: "image_ok dsc f" using assms(1) by (simp add: disk_ok_def)
  have fmt: "format08 dsc \<noteq> MMC" using img by (simp add: image_ok_def)
  have "in_image dsc f s" using seek_on_disk(1) [OF assms(1,3,4)] leD [OF assms(5)] by simp
  from HardFileSeek_disk [OF assms(2) img this, of w cmd] obtain p cl ix m mc w' where r:
    "HardFileSeek d dsc s w = Some (0, d\<lparr>fSource := Some (f\<lparr>fptr := p, clust := cl\<rparr>)\<rparr>,
        dsc\<lparr>index := ix, mru_lba := m, mru_cluster := mc\<rparr>, w')" "p = 512 * unat (file_lba dsc s)"
    "image_ok (dsc\<lparr>index := ix, mru_lba := m, mru_cluster := mc\<rparr>) (f\<lparr>fptr := p, clust := cl\<rparr>)" "sends cmd w w' []"
    by blast
  have "disk_ok (dsc\<lparr>index := ix, mru_lba := m, mru_cluster := mc\<rparr>) (f\<lparr>fptr := p, clust := cl\<rparr>)"
    using assms(1) r(3) by (simp add: disk_ok_def)
  moreover have "write_seek ch tfr txt s dsc d w = Some (True, d\<lparr>fSource := Some (f\<lparr>fptr := p, clust := cl\<rparr>)\<rparr>,
      dsc\<lparr>index := ix, mru_lba := m, mru_cluster := mc\<rparr>, w')"
    unfolding write_seek_def Let_def r(1) using fmt by simp
  moreover have "p = 512 * (unat s - unat (lba_offset dsc))" using r(2) file_lba_unat [OF assms(1,5)] by simp
  ultimately show ?thesis using r(4) by blast
qed

text \<open>What a write command leaves: the data of the core in the image, which is in order.\<close>

definition wrote :: "nat \<Rightarrow> drv08_desc \<Rightarrow> fch \<Rightarrow> FIL \<Rightarrow> nat \<Rightarrow> nat \<Rightarrow> ata_state option \<Rightarrow> card \<Rightarrow> world \<Rightarrow> bool" where
  "wrote ch dsc d f pos n r c w \<longleftrightarrow> (\<exists>dat f' ix m mc w'.
     r = Some (put_desc (dsc\<lparr>index := ix, mru_lba := m, mru_cluster := mc\<rparr>) (d\<lparr>fSource := Some f'\<rparr>), c, w') \<and>
     length dat = 512 * n \<and> gets (FCH_CMD ch 0x20) w w' dat \<and> content f' = splice (content f) pos dat \<and>
     f_size f' = f_size f \<and> disk_ok (dsc\<lparr>index := ix, mru_lba := m, mru_cluster := mc\<rparr>) f')"

lemma ata_write_disk:
  assumes "disk_ok dsc f" "fSource d = Some f" "GetParams tfr dsc = (a, n, lm)" "0 < n" "on_disk dsc f (a_lba a) n"
    "ticking (elapsed w)" "lba_offset dsc \<le> a_lba a" "fil_write f" "\<not> write_protected d"
  shows "wrote ch dsc d f (512 * (unat (a_lba a) - unat (lba_offset dsc))) n (ata_write_sectors ch tfr dsc d c w) c w"
    "sectors_per_block dsc \<noteq> 0 \<Longrightarrow>
     wrote ch dsc d f (512 * (unat (a_lba a) - unat (lba_offset dsc))) n (ata_write_multiple ch tfr dsc d c w) c w"
proof -
  let ?cmd = "FCH_CMD ch 0x20" and ?w0 = "FCh_WriteStat ch DRV08_STATUS_REQ w"
  let ?pos = "512 * (unat (a_lba a) - unat (lba_offset dsc))"
  have in_file: "?pos + 512 * n \<le> f_size f" using assms(5,7) by (simp add: on_disk_def word_le_nat_alt algebra_simps)
  have tk0: "ticking (elapsed ?w0)" by (rule ticking_gets [OF quiet_gets(1) assms(6)])
  show "wrote ch dsc d f ?pos n (ata_write_sectors ch tfr dsc d c w) c w"
  proof -
    from write_seek_disk [OF assms(1,2,5,4,7), of ch tfr "''Drv08:Write to invalid LBA (%lu)''" ?w0 ?cmd]
    obtain p cl ix m mc w1 where r: "write_seek ch tfr ''Drv08:Write to invalid LBA (%lu)'' (a_lba a) dsc d ?w0
        = Some (True, d\<lparr>fSource := Some (f\<lparr>fptr := p, clust := cl\<rparr>)\<rparr>, dsc\<lparr>index := ix, mru_lba := m, mru_cluster := mc\<rparr>, w1)"
      "disk_ok (dsc\<lparr>index := ix, mru_lba := m, mru_cluster := mc\<rparr>) (f\<lparr>fptr := p, clust := cl\<rparr>)" "p = ?pos"
      "sends ?cmd ?w0 w1 []" by (elim exE conjE) (rule that)
    let ?f = "f\<lparr>fptr := p, clust := cl\<rparr>" and ?dsc = "dsc\<lparr>index := ix, mru_lba := m, mru_cluster := mc\<rparr>"
    let ?d = "put_desc ?dsc (d\<lparr>fSource := Some ?f\<rparr>)"
    have g: "gets ?cmd w w1 []" by (rule gets_trans0 [OF quiet_gets(1) sends_gets [OF r(4)]])
    have room: "fptr ?f + 512 * n \<le> f_size ?f" "fil_write ?f" "fSource ?d = Some ?f" using in_file r(3) assms(8) by (simp_all add: put_desc_def)
    from write_sectors_loop_disk [OF r(2) room(3,2,1) ticking_gets [OF g assms(6)], of ch tfr lm "(True, a)" "a_lba a" c]
    obtain dat f' w2 where l: "write_sectors_loop ch tfr lm ?dsc n (True, a) (a_lba a) ?d c w1 = Some (?d\<lparr>fSource := Some f'\<rparr>, c, w2)"
      "length dat = 512 * n" "gets ?cmd w1 w2 dat" "put_image ?dsc ?f dat f'" by (elim exE conjE) (rule that)
    have "ata_write_sectors ch tfr dsc d c w = Some (?d\<lparr>fSource := Some f'\<rparr>, c, w2)"
      using assms(9) unfolding ata_write_sectors_def Let_def assms(3) prod.case r(1) Option.bind_lunit by (simp add: l(1))
    also have "?d\<lparr>fSource := Some f'\<rparr> = put_desc ?dsc (d\<lparr>fSource := Some f'\<rparr>)" by (simp add: put_desc_def)
    finally show ?thesis unfolding wrote_def using l(2,4) gets_trans0 [OF g l(3)] r(3)
      by (intro exI [of _ dat] exI [of _ f'] exI [of _ ix] exI [of _ m] exI [of _ mc] exI [of _ w2]) (simp add: put_image_def)
  qed
  show "wrote ch dsc d f ?pos n (ata_write_multiple ch tfr dsc d c w) c w" if spb: "sectors_per_block dsc \<noteq> 0"
  proof -
    from write_seek_disk [OF assms(1,2,5,4,7), of ch tfr "''Drv08:Write Multiple bad LBA (%lu)''" ?w0 ?cmd]
    obtain p cl ix m mc w1 where r: "write_seek ch tfr ''Drv08:Write Multiple bad LBA (%lu)'' (a_lba a) dsc d ?w0
        = Some (True, d\<lparr>fSource := Some (f\<lparr>fptr := p, clust := cl\<rparr>)\<rparr>, dsc\<lparr>index := ix, mru_lba := m, mru_cluster := mc\<rparr>, w1)"
      "disk_ok (dsc\<lparr>index := ix, mru_lba := m, mru_cluster := mc\<rparr>) (f\<lparr>fptr := p, clust := cl\<rparr>)" "p = ?pos"
      "sends ?cmd ?w0 w1 []" by (elim exE conjE) (rule that)
    let ?f = "f\<lparr>fptr := p, clust := cl\<rparr>" and ?dsc = "dsc\<lparr>index := ix, mru_lba := m, mru_cluster := mc\<rparr>"
    let ?d = "put_desc ?dsc (d\<lparr>fSource := Some ?f\<rparr>)"
    have g: "gets ?cmd w w1 []" by (rule gets_trans0 [OF quiet_gets(1) sends_gets [OF r(4)]])
    have room: "fptr ?f + 512 * n \<le> f_size ?f" "fil_write ?f" "fSource ?d = Some ?f" "sectors_per_block ?dsc \<noteq> 0"
      using in_file r(3) assms(8) spb by (simp_all add: put_desc_def)
    from write_multiple_loop_disk [OF r(2) room(3,2,1) ticking_gets [OF g assms(6)] room(4), of ch tfr lm "(True, a)" "a_lba a" c]
    obtain dat f' w2 where l: "write_multiple_loop ch tfr lm ?dsc n (True, a) (a_lba a) ?d c w1 = Some (?d\<lparr>fSource := Some f'\<rparr>, c, w2)"
      "length dat = 512 * n" "gets ?cmd w1 w2 dat" "put_image ?dsc ?f dat f'" by (elim exE conjE) (rule that)
    have "ata_write_multiple ch tfr dsc d c w = Some (?d\<lparr>fSource := Some f'\<rparr>, c, w2)"
      using assms(9) spb unfolding ata_write_multiple_def Let_def assms(3) prod.case r(1) Option.bind_lunit by (simp add: l(1))
    also have "?d\<lparr>fSource := Some f'\<rparr> = put_desc ?dsc (d\<lparr>fSource := Some f'\<rparr>)" by (simp add: put_desc_def)
    finally show ?thesis unfolding wrote_def using l(2,4) gets_trans0 [OF g l(3)] r(3)
      by (intro exI [of _ dat] exI [of _ f'] exI [of _ ix] exI [of _ m] exI [of _ mc] exI [of _ w2]) (simp add: put_image_def)
  qed
qed


lemma splice_outside:
  "p + length b \<le> length c \<Longrightarrow> k + n \<le> p \<or> p + length b \<le> k \<Longrightarrow>
     take n (drop k (splice c p b)) = take n (drop k c)"
  by (auto simp: splice_def drop_append drop_take min_def)

lemma splice_inside: "p \<le> length c \<Longrightarrow> take (length b) (drop p (splice c p b)) = b"
  by (simp add: splice_def)



subsection \<open>Protected drives\<close>

text \<open>Nothing that was in the file changed; it may have grown.\<close>

definition same_bytes :: "FIL \<Rightarrow> FIL \<Rightarrow> bool" where
  "same_bytes f f' \<longleftrightarrow> take (f_size f) (content f') = content f"

definition same_image :: "fch \<Rightarrow> fch \<Rightarrow> bool" where
  "same_image d d' \<longleftrightarrow> status d' = status d \<and>
     (case fSource d of None \<Rightarrow> fSource d' = None | Some f \<Rightarrow> \<exists>f'. fSource d' = Some f' \<and> same_bytes f f')"

lemma same_bytes_refl [simp]: "same_bytes f f"
  by (simp add: same_bytes_def f_size_def)

lemma same_bytes_moved [simp]:
  "same_bytes f (g\<lparr>fptr := p\<rparr>) = same_bytes f g" "same_bytes f (g\<lparr>clust := q\<rparr>) = same_bytes f g"
  "same_bytes (f\<lparr>fptr := p\<rparr>) g = same_bytes f g" "same_bytes (f\<lparr>clust := q\<rparr>) g = same_bytes f g"
  by (simp_all add: same_bytes_def f_size_def)

lemma same_bytes_trans: "same_bytes f g \<Longrightarrow> same_bytes g h \<Longrightarrow> same_bytes f h"
  unfolding same_bytes_def f_size_def by (metis length_take min.absorb1 min.cobounded1 min.commute take_take)

lemma same_image_refl [simp]: "same_image d d"
  by (simp add: same_image_def split: option.splits)

lemma same_image_trans: "same_image d d1 \<Longrightarrow> same_image d1 d2 \<Longrightarrow> same_image d d2"
  by (auto simp: same_image_def split: option.splits intro: same_bytes_trans)

lemma same_image_desc [simp]:
  "same_image d (put_desc dsc d') \<longleftrightarrow> same_image d d'" "same_image (put_desc dsc d) d' \<longleftrightarrow> same_image d d'"
  by (simp_all add: same_image_def put_desc_def split: option.splits)

lemma same_image_file: "fSource d = Some f \<Longrightarrow> same_bytes f f' \<Longrightarrow> same_image d (d\<lparr>fSource := Some f'\<rparr>)"
  by (simp add: same_image_def)

lemma clust_sync_bytes: "same_bytes f g \<Longrightarrow> same_bytes f (clust_sync g)"
  by (simp add: clust_sync_def same_bytes_def)

lemma c_seek_bytes: "c_seek f ofs = Some (e, f') \<Longrightarrow> same_bytes f f'"
  using FF_Seek_keeps [of f "uint ofs" FF_SEEK_SET]
  by (auto simp: c_seek_def case_prod_beta same_bytes_def [symmetric] intro!: clust_sync_bytes split: if_splits)
     (metis same_bytes_def prod.collapse)

lemma index_fill_bytes: "index_fill step is pos ix f = Some (ix', f') \<Longrightarrow> same_bytes f f'"
proof (induction step "is" pos ix f rule: index_fill.induct)
  case (2 step i "is" pos ix f)
  then show ?case by (auto split: if_splits bind_splits dest: c_seek_bytes intro: same_bytes_trans)
qed simp

lemma seek_cluster_bytes: "seek_cluster dsc lba f = Some (ix, f') \<Longrightarrow> same_bytes f f'"
  by (auto simp: seek_cluster_def Let_def case_prod_beta split: if_splits bind_splits
      dest!: index_fill_bytes simp del: push_bit_eq_mult)

lemma HardFileSeek_image: "HardFileSeek d dsc lba w = Some (e, d', dsc', w') \<Longrightarrow> same_image d d'"
  by (auto simp: HardFileSeek_def Let_def case_prod_beta split: if_splits bind_splits option.splits
      intro!: same_image_file intro: same_bytes_trans dest!: seek_cluster_bytes c_seek_bytes)


lemma c_read_direct_bytes: "c_read_direct f sz n w = Some (k, f', w') \<Longrightarrow> same_bytes f f'"
  by (auto simp: c_read_direct_def FF_ReadDirect_def Let_def case_prod_beta same_bytes_def f_size_def clust_sync_def
      split: if_splits bind_splits)

lemma send_sectors_image: "send_sectors ch lba n dsc d c w = Some (k, d', c', w') \<Longrightarrow> same_image d d'"
  by (auto simp: send_sectors_def ata_FileReadSendDirect_def Let_def case_prod_beta
      split: if_splits bind_splits option.splits intro!: same_image_file dest: c_read_direct_bytes)

text \<open>
  A relation between the states of a drive that seeking and sending establish is established by the
  read commands; one that storing establishes too, by every command.
\<close>

locale read_relation =
  fixes R :: "fch \<Rightarrow> fch \<Rightarrow> bool"
  assumes refl: "R d d"
    and trans: "R d d1 \<Longrightarrow> R d1 d2 \<Longrightarrow> R d d2"
    and desc: "desc08 d = Some dsc \<Longrightarrow> R d d1 \<Longrightarrow> R d (put_desc dsc' d1)"
    and seek: "HardFileSeek d dsc lba w = Some (e, d1, dsc1, w1) \<Longrightarrow> R d d1"
    and send: "send_sectors ch lba n dsc d c w = Some (k, d1, c1, w1) \<Longrightarrow> R d d1"
begin

lemma read_sectors_loop: "read_sectors_loop ch tfr lm dsc n fa d c w = Some (d', c', w') \<Longrightarrow> R d d'"
proof (induction n arbitrary: fa d c w)
  case (Suc n)
  then show ?case by (auto simp: Let_def case_prod_beta split: bind_splits dest!: send intro: trans)
qed (simp add: refl)

lemma read_block_loop: "read_block_loop ch dsc m lba d c w = Some (lba', d', c', w') \<Longrightarrow> R d d'"
proof (induction m arbitrary: lba d c w rule: less_induct)
  case (less m)
  show ?case
  proof (cases "m = 0")
    case False
    with less.prems obtain k d1 c1 w1 w2 where s: "send_sectors ch lba (min m 7) dsc d c w2 = Some (k, d1, c1, w1)" "k \<noteq> 0"
      "read_block_loop ch dsc (m - k) (lba + of_nat k) d1 c1 w1 = Some (lba', d', c', w')"
      unfolding read_block_loop.simps [of ch dsc m] Let_def by (auto split: bind_splits if_splits)
    with less.IH [OF _ s(3)] False show ?thesis by (auto dest!: send intro: trans)
  qed (use less.prems refl in \<open>simp add: read_block_loop.simps\<close>)
qed

lemma read_multiple_loop:
  "read_multiple_loop ch tfr lm dsc m fa lba d c w = Some (d', c', w') \<Longrightarrow> R d d'"
proof (induction m arbitrary: fa lba d c w rule: less_induct)
  case (less m)
  let ?i = "min m (unat (sectors_per_block dsc))"
  show ?case
  proof (cases "m = 0 \<or> sectors_per_block dsc = 0")
    case False
    with less.prems obtain lba1 d1 c1 w1 w2 where s: "read_block_loop ch dsc ?i lba d c w2 = Some (lba1, d1, c1, w1)"
      "read_multiple_loop ch tfr lm dsc (m - ?i) (inc_many dsc ?i fa) lba1 d1 c1 w1 = Some (d', c', w')"
      unfolding read_multiple_loop.simps [of ch tfr lm dsc m] Let_def by (auto split: bind_splits if_splits)
    have "m - ?i < m" using False by (auto simp: unat_gt_0)
    from trans [OF read_block_loop [OF s(1)] less.IH [OF this s(2)]] show ?thesis .
  qed (use less.prems refl in \<open>auto simp: read_multiple_loop.simps\<close>)
qed

lemma read_seek: "read_seek ch tfr txt lba dsc d w = Some (ok, d', dsc', w') \<Longrightarrow> R d d'"
  by (auto simp: read_seek_def Let_def split: bind_splits if_splits dest: seek)

lemma ata_read:
  assumes "desc08 d = Some dsc0"
  shows "ata_read_sectors ch tfr dsc d c w = Some (d', c', w') \<Longrightarrow> R d d'"
    "ata_read_multiple ch tfr dsc d c w = Some (d', c', w') \<Longrightarrow> R d d'"
  by (auto simp: ata_read_sectors_def ata_read_multiple_def Let_def case_prod_beta refl split: bind_splits if_splits
      dest!: read_seek read_sectors_loop read_multiple_loop intro: desc [OF assms] trans [OF desc [OF assms]])

end

locale drive_relation = read_relation +
  assumes store: "store_sectors lba buf n dsc d c w = Some (d1, c1, w1) \<Longrightarrow> R d d1"
begin

lemma write_sectors_loop: "write_sectors_loop ch tfr lm dsc n fa lba d c w = Some (d', c', w') \<Longrightarrow> R d d'"
proof (induction n arbitrary: fa lba d c w)
  case (Suc n)
  then show ?case by (auto simp: Let_def case_prod_beta split: bind_splits dest!: store intro: trans)
qed (simp add: refl)

lemma write_block_loop: "write_block_loop ch dsc m fa lba d c w = Some (fa', lba', d', c', w') \<Longrightarrow> R d d'"
proof (induction m arbitrary: fa lba d c w rule: less_induct)
  case (less m)
  show ?case
  proof (cases "m = 0")
    case False
    with less.prems obtain p d1 c1 w1 w2 where s: "store_sectors lba p (min m 4) dsc d c w2 = Some (d1, c1, w1)"
      "write_block_loop ch dsc (m - min m 4) (inc_many dsc (min m 4) fa) (lba + of_nat (min m 4)) d1 c1 w1
         = Some (fa', lba', d', c', w')"
      unfolding write_block_loop.simps [of ch dsc m] Let_def by (auto split: bind_splits if_splits)
    have "m - min m 4 < m" using False by simp
    from trans [OF store [OF s(1)] less.IH [OF this s(2)]] show ?thesis .
  qed (use less.prems refl in \<open>simp add: write_block_loop.simps\<close>)
qed

lemma write_multiple_loop: "write_multiple_loop ch tfr lm dsc m fa lba d c w = Some (d', c', w') \<Longrightarrow> R d d'"
proof (induction m arbitrary: fa lba d c w rule: less_induct)
  case (less m)
  let ?i = "min m (unat (sectors_per_block dsc))"
  show ?case
  proof (cases "m = 0 \<or> sectors_per_block dsc = 0")
    case False
    with less.prems obtain fa1 lba1 d1 c1 w1 w2 where s: "write_block_loop ch dsc ?i fa lba d c w = Some (fa1, lba1, d1, c1, w1)"
      "write_multiple_loop ch tfr lm dsc (m - ?i) fa1 lba1 d1 c1 w2 = Some (d', c', w')"
      unfolding write_multiple_loop.simps [of ch tfr lm dsc m] Let_def by (force split: bind_splits if_splits)
    have "m - ?i < m" using False by (auto simp: unat_gt_0)
    from trans [OF write_block_loop [OF s(1)] less.IH [OF this s(2)]] show ?thesis .
  qed (use less.prems refl in \<open>auto simp: write_multiple_loop.simps\<close>)
qed

lemma write_seek: "write_seek ch tfr txt lba dsc d w = Some (ok, d', dsc', w') \<Longrightarrow> R d d'"
  by (auto simp: write_seek_def Let_def split: bind_splits if_splits dest: seek)

lemma ata_write:
  assumes "desc08 d = Some dsc0"
  shows "ata_write_sectors ch tfr dsc d c w = Some (d', c', w') \<Longrightarrow> R d d'"
    "ata_write_multiple ch tfr dsc d c w = Some (d', c', w') \<Longrightarrow> R d d'"
  by (auto simp: ata_write_sectors_def ata_write_multiple_def Let_def case_prod_beta refl split: bind_splits if_splits
      dest!: write_seek write_sectors_loop write_multiple_loop intro: desc [OF assms] trans [OF desc [OF assms]])

lemma ata_command: "ata_command ch tfr d c w = Some (d', c', w') \<Longrightarrow> R d d'"
  by (auto simp: ata_command_def Let_def refl split: if_splits bind_splits dest: ata_read ata_write intro: desc refl)

end

interpretation images: read_relation same_image
  by unfold_locales (auto intro: same_image_trans dest: HardFileSeek_image send_sectors_image)

lemma ata_command_image:
  assumes "ata_command ch tfr d c w = Some (d', c', w')" "write_protected d"
  shows "same_image d d'"
  using assms
  by (auto simp: ata_command_def Let_def ata_write_sectors_def ata_write_multiple_def split: if_splits bind_splits
      dest: images.ata_read)

text \<open>
  C11. Protection: handling a command, whatever it is, changes no byte of the image of a protected or
  read-only drive, nor of a drive of the other channel (an image may only grow), and
  keeps the status of the drive and the shape of the table of drives.
\<close>

theorem ATA_protected:
  assumes "Drv08_Process ch h st c w = Some (h', c', w')" "handles_ok h" "ch < 2"
  shows "handles_ok h' \<and>
    (\<forall>ch' u. write_protected (drive h ch' u) \<or> ch' \<noteq> ch \<longrightarrow> same_image (drive h ch' u) (drive h' ch' u))"
proof -
  obtain tfr w1 where t: "FCh_cmd_read ch 8 w = (tfr, w1)" by (cases "FCh_cmd_read ch 8 w")
  define un :: nat where "un = (if tfr ! 6 AND 0x10 \<noteq> 0 then 1 else 0)"
  have un: "un < 4" by (simp add: un_def)
  have "h' = h \<or> (\<exists>d'. h' = set_drive h ch un d' \<and> (write_protected (drive h ch un) \<longrightarrow> same_image (drive h ch un) d'))"
    using assms(1) ata_command_image [of ch tfr "drive h ch un" c w1]
    unfolding Drv08_Process_def ATA_Handle_def t Let_def prod.case un_def [symmetric]
    by (auto split: if_splits bind_splits)
  then show ?thesis
  proof (elim disjE exE conjE)
    fix d' assume d': "h' = set_drive h ch un d'" "write_protected (drive h ch un) \<longrightarrow> same_image (drive h ch un) d'"
    then show ?thesis using assms(2,3) un by (auto simp: drive_set_drive handles_ok_set_drive)
  qed (use assms(2) in simp)
qed

text \<open>The core asks for a write of sector 7; the drives are protected.\<close>

definition write_request :: world where
  "write_request = test_channel\<lparr>reply := (\<lambda>h. [0, 0, 1, 7, 0, 0, 0x40, DRV08_CMD_WRITE_SECTORS] ! (length h - 4))\<rparr>"

definition locked_drives :: handles where
  "locked_drives = replicate 2 (replicate 4
     ((seek_drive naked_desc (test_file [1, 2, 3]))\<lparr>status := FILEIO_STAT_INSERTED OR FILEIO_STAT_PROTECTED\<rparr>))"

lemma ATA_protected_witness:
  "\<exists>h' c' w'. Drv08_Process 0 locked_drives 0 new_card write_request = Some (h', c', w') \<and>
     same_image (drive locked_drives 0 0) (drive h' 0 0)"
proof -
  have d: "drive locked_drives 0 0 = (seek_drive naked_desc (test_file [1, 2, 3]))\<lparr>status := FILEIO_STAT_INSERTED OR FILEIO_STAT_PROTECTED\<rparr>"
    by (simp add: drive_def locked_drives_def)
  have p: "write_protected (drive locked_drives 0 0)" "FCh_GetInserted locked_drives 0 0 \<noteq> 0" "desc08 (drive locked_drives 0 0) = Some naked_desc"
    by (simp_all add: d write_protected_def FCh_GetInserted_def desc08_def seek_drive_def)
  have ok: "handles_ok locked_drives" by (simp add: handles_ok_def locked_drives_def)
  have eight: "replicate 8 (0 :: u8) = [0, 0, 0, 0, 0, 0, 0, 0]" by (simp add: numeral_eq_Suc)
  obtain w1 where t: "FCh_cmd_read 0 8 write_request = ([0, 0, 1, 7, 0, 0, 0x40, DRV08_CMD_WRITE_SECTORS], w1)"
    by (simp add: FCh_cmd_read_def write_request_def test_channel_def eight case_prod_beta Let_def SPI_EnableFileIO_def)
  have "Drv08_Process 0 locked_drives 0 new_card write_request \<noteq> None"
    using p unfolding Drv08_Process_def ATA_Handle_def t Let_def prod.case
    by (simp add: ata_command_def ata_write_sectors_def)
  then obtain h' c' w' where r: "Drv08_Process 0 locked_drives 0 new_card write_request = Some (h', c', w')" by auto
  from ATA_protected [OF r ok] p(1) r show ?thesis by auto
qed

subsection \<open>The hard disk driver as a driver of the channel\<close>

lemma HardFileSeek_slot: "HardFileSeek d dsc lba w = Some (e, d', dsc', w') \<Longrightarrow> slot_kept d d'"
  by (auto simp: HardFileSeek_def Let_def case_prod_beta slot_kept_def split: if_splits bind_splits option.splits)

lemma send_sectors_slot: "send_sectors ch lba n dsc d c w = Some (k, d', c', w') \<Longrightarrow> slot_kept d d'"
  by (auto simp: send_sectors_def ata_FileReadSendDirect_def Let_def case_prod_beta slot_kept_def
      split: if_splits bind_splits option.splits)

lemma store_sectors_slot: "store_sectors lba buf n dsc d c w = Some (d', c', w') \<Longrightarrow> slot_kept d d'"
  by (auto simp: store_sectors_def FileWrite_def slot_kept_def split: if_splits bind_splits option.splits)

lemma put_desc_slot: "desc08 d = Some dsc \<Longrightarrow> slot_kept d d1 \<Longrightarrow> slot_kept d (put_desc dsc' d1)"
  by (auto simp: slot_kept_def put_desc_def desc08_def split: option.splits desc.splits)

interpretation slots: drive_relation slot_kept
  by unfold_locales
    (auto intro: slot_kept_trans put_desc_slot dest: HardFileSeek_slot send_sectors_slot store_sectors_slot)

lemma Drv08_Process_kept:
  assumes "Drv08_Process ch h stat c w = Some (h', c', w')" "handles_ok h" "ch < 2"
  shows "slots_kept ch h h'"
proof -
  obtain tfr w1 where t: "FCh_cmd_read ch 8 w = (tfr, w1)" by (cases "FCh_cmd_read ch 8 w")
  define un :: nat where "un = (if tfr ! 6 AND 0x10 \<noteq> 0 then 1 else 0)"
  have un: "un < 4" by (simp add: un_def)
  show ?thesis
  proof (cases "FCh_GetInserted h ch un = 0")
    case True
    then show ?thesis using assms(1) unfolding Drv08_Process_def ATA_Handle_def t Let_def prod.case un_def [symmetric] by simp
  next
    case False
    then obtain d' c1 w2 where "ata_command ch tfr (drive h ch un) c w1 = Some (d', c1, w2)" "h' = set_drive h ch un d'"
      using assms(1) unfolding Drv08_Process_def ATA_Handle_def t Let_def prod.case un_def [symmetric]
      by (auto split: bind_splits)
    then show ?thesis using slots_kept_set [OF assms(2,3) un False slots.ata_command] by simp
  qed
qed

interpretation drv08: channel_driver Drv08_Process Drv08_InsertInit "0x8"
  by unfold_locales
    (auto simp: Drv08_InsertInit_def Let_def case_prod_beta split: if_splits option.splits bind_splits
      dest: Drv08_Process_kept)

end
