(* ===== verification/Channel.thy ===== *)
theory Channel
  imports Drv00 Drv01 Drv02 Drv08
begin

text \<open>
  The file channels of \<open>fileio.c\<close> as a whole: the operations \<open>FileIO_FCh_*\<close> that the menu, the configuration
  and the main loop call, which dispatch to the four drivers.

  The state is the table of drives, the driver of each channel, what the drivers keep between calls, and
  the drives whose file and descriptor pointers are stale: the C code frees both on a
  failed insertion and on ejection without clearing the pointers.  Freeing them again is \<open>None\<close>.
  Arguments are the outcome of the memory allocation, the uninitialised buffers of the C stack and the
  open function of the file system.
\<close>

record fio =
  fch_handle :: handles
  fch_driver :: "u8 list"
  floppy :: drv01_static
  tape :: ChunkInfo
  card_state :: card
  stale :: "(nat \<times> nat) set"

subsection \<open>Serving requests\<close>

definition FCh_Process :: "u8 list \<Rightarrow> nat \<Rightarrow> fio \<Rightarrow> world \<Rightarrow> (fio \<times> world) option" where
  "FCh_Process stk ch s w =
     (let (stat, w) = FCh_GetStat ch w; h = fch_handle s; drv = fch_driver s ! ch
      in if stat AND FILEIO_REQ_ACT = 0 then Some (s, w)
         else if drv = 0x0
         then do { (h, w) \<leftarrow> Drv00_Process ch h stat w; Some (s\<lparr>fch_handle := h\<rparr>, w) }
         else if drv = 0x1
         then do { (h, x, w) \<leftarrow> Drv01_Process ch h stat stk (floppy s) w; Some (s\<lparr>fch_handle := h, floppy := x\<rparr>, w) }
         else if drv = 0x2
         then do { (h, x, w) \<leftarrow> Drv02_Process ch h stat (tape s) w; Some (s\<lparr>fch_handle := h, tape := x\<rparr>, w) }
         else if drv = 0x8
         then do { (h, x, w) \<leftarrow> Drv08_Process ch h stat (card_state s) w; Some (s\<lparr>fch_handle := h, card_state := x\<rparr>, w) }
         else Some (s, say (WARNING ''FCh:Unknown driver'' []) w))"

subsection \<open>The status for the core\<close>

abbreviation (input) OSDCMD_CONFIG :: u8 where "OSDCMD_CONFIG \<equiv> 0x20"

definition OSD_ConfigSendFileIO :: "nat \<Rightarrow> u8 \<Rightarrow> world \<Rightarrow> world" where
  "OSD_ConfigSendFileIO ch config w =
     SPI_DisableOsd (snd (rSPI config (snd (rSPI (OSDCMD_CONFIG OR (if ch = 0 then 0x08 else 0x09)) (SPI_EnableOsd w)))))"

definition drive_status :: "handles \<Rightarrow> nat \<Rightarrow> u8" where
  "drive_status h ch =
     foldl (\<lambda>st i. let st = (if status (drive h ch i) AND FILEIO_STAT_INSERTED \<noteq> 0 then st OR push_bit i 0x01 else st)
                  in if status (drive h ch i) AND FILEIO_STAT_READONLY_OR_PROTECTED = 0 then st OR push_bit i 0x10 else st)
       0 [0..<FCH_MAX_NUM]"

definition FCh_UpdateDriveStatus :: "nat \<Rightarrow> fio \<Rightarrow> world \<Rightarrow> world" where
  "FCh_UpdateDriveStatus ch s w = OSD_ConfigSendFileIO ch (drive_status (fch_handle s) ch) w"

subsection \<open>Inserting and ejecting\<close>

definition clear_name :: "fch \<Rightarrow> fch" where
  "clear_name d = d\<lparr>fch_name := (fch_name d)[0 := NUL]\<rparr>"

definition put_drive :: "nat \<Rightarrow> nat \<Rightarrow> fch \<Rightarrow> fio \<Rightarrow> fio" where
  "put_drive ch n d s = s\<lparr>fch_handle := set_drive (fch_handle s) ch n d\<rparr>"

text \<open>The file: opened for writing, or else read-only; a path with a question mark is no file.\<close>

definition open_image :: "volume \<Rightarrow> string \<Rightarrow> fch \<Rightarrow> fch \<times> bool" where
  "open_image f_open path d =
     (if CHR ''?'' \<in> set path then (d, True)
      else case fst (FF_Open f_open path 0x03) of
             Some f \<Rightarrow> (d\<lparr>fSource := Some f\<rparr>, True)
           | None \<Rightarrow>
               let d = d\<lparr>status := FILEIO_STAT_READONLY, fSource := fst (FF_Open f_open path 0x01)\<rparr>
               in (d, fSource d \<noteq> None))"

definition file_ext :: "string \<Rightarrow> string option" where
  "file_ext path = (if CHR ''?'' \<in> set path then Some (dropWhile (\<lambda>c. c \<noteq> CHR ''?'') path) else GetExtension path)"

definition driver_insert ::
  "bool \<Rightarrow> u8 list \<Rightarrow> nat \<Rightarrow> nat \<Rightarrow> fch \<Rightarrow> string \<Rightarrow> fio \<Rightarrow> world \<Rightarrow> (u8 \<times> fch \<times> fio \<times> world) option" where
  "driver_insert al stk ch n d ext s w =
     (let drv = fch_driver s ! ch
      in if drv = 0x0 then do { (fail, d, w) \<leftarrow> Drv00_InsertInit al ch n d w; Some (fail, d, s, w) }
         else if drv = 0x1 then do { (fail, d, w) \<leftarrow> Drv01_InsertInit al stk ch n d ext w; Some (fail, d, s, w) }
         else if drv = 0x2
         then do { (fail, d, x, w) \<leftarrow> Drv02_InsertInit al ch n d ext (tape s) w; Some (fail, d, s\<lparr>tape := x\<rparr>, w) }
         else if drv = 0x8
         then do { (fail, d, x, w) \<leftarrow> Drv08_InsertInit al stk ch n d ext (card_state s) w; Some (fail, d, s\<lparr>card_state := x\<rparr>, w) }
         else Some (1, d, s, say (WARNING ''FCh:Unknown driver'' []) w))"

text \<open>Freeing what the pointers of a drive point to, and leaving them.\<close>

definition free_drive :: "nat \<Rightarrow> nat \<Rightarrow> fch \<Rightarrow> fio \<Rightarrow> fio" where
  "free_drive ch n d s = (if fSource d = None \<and> pDesc d = None then s else s\<lparr>stale := Set.insert (ch, n) (stale s)\<rparr>)"

definition FCh_Insert ::
  "bool \<Rightarrow> u8 list \<Rightarrow> volume \<Rightarrow> nat \<Rightarrow> nat \<Rightarrow> string \<Rightarrow> fio \<Rightarrow> world \<Rightarrow> (fio \<times> world) option" where
  "FCh_Insert al stk f_open ch n path s w =
     (let d = clear_name ((drive (fch_handle s) ch n)\<lparr>status := 0\<rparr>)\<lparr>fSource := None, pDesc := None\<rparr>;
          s = s\<lparr>stale := stale s - {(ch, n)}\<rparr>;
          (d, opened) = open_image f_open path d
      in if \<not> opened then Some (put_drive ch n d s, say (WARNING ''FCh:Could not open file.'' []) w)
         else do { ext \<leftarrow> file_ext path;
                   (fail, d, s, w) \<leftarrow> driver_insert al stk ch n d ext s (FCh_WriteStat ch 0x00 w);
                   if fail \<noteq> 0 then Some (free_drive ch n d (put_drive ch n d s), w)
                   else do { name \<leftarrow> FileDisplayName path 25;
                             let s = put_drive ch n (d\<lparr>fch_name := name, status := status d OR FILEIO_STAT_INSERTED\<rparr>) s
                             in Some (s, FCh_UpdateDriveStatus ch s w) } })"

definition FCh_Eject :: "nat \<Rightarrow> nat \<Rightarrow> fio \<Rightarrow> world \<Rightarrow> (fio \<times> world) option" where
  "FCh_Eject ch n s w =
     (if (ch, n) \<in> stale s then None
      else let d = drive (fch_handle s) ch n;
               s = put_drive ch n (clear_name (d\<lparr>status := 0\<rparr>)) (free_drive ch n d s)
           in Some (s, FCh_UpdateDriveStatus ch s w))"

definition FCh_TogProtect :: "nat \<Rightarrow> nat \<Rightarrow> fio \<Rightarrow> world \<Rightarrow> fio \<times> world" where
  "FCh_TogProtect ch n s w =
     (let d = drive (fch_handle s) ch n
      in if status d AND FILEIO_STAT_INSERTED \<noteq> 0
         then let s = put_drive ch n (d\<lparr>status := status d XOR FILEIO_STAT_PROTECTED\<rparr>) s
              in (s, FCh_UpdateDriveStatus ch s w)
         else (s, w))"

definition FCh_SetDriver :: "nat \<Rightarrow> u8 \<Rightarrow> fio \<Rightarrow> fio" where
  "FCh_SetDriver ch type s = s\<lparr>fch_driver := (fch_driver s)[ch := type]\<rparr>"

definition FCh_Init :: "fio \<Rightarrow> fio" where
  "FCh_Init s =
     s\<lparr>fch_handle := map (map (\<lambda>d. clear_name (d\<lparr>status := 0, fSource := None, pDesc := None\<rparr>))) (fch_handle s),
       stale := {}\<rparr>"

subsection \<open>The invariant of the channels\<close>

text \<open>
  A drive under driver \<open>k\<close>: when it is inserted, its pointers are not stale, its descriptor is one of the driver
  and it has a file (only the hard disk driver works without one); when it is not, its pointers are
  stale or null.
\<close>

definition drive_ok :: "u8 \<Rightarrow> bool \<Rightarrow> fch \<Rightarrow> bool" where
  "drive_ok k st d \<longleftrightarrow>
     (if inserted d
      then \<not> st \<and> map_option desc_kind (pDesc d) = Some k \<and> (fSource d = None \<longrightarrow> k = 0x8)
      else st \<or> fSource d = None \<and> pDesc d = None)"

definition channel_ok :: "fio \<Rightarrow> bool" where
  "channel_ok s \<longleftrightarrow> handles_ok (fch_handle s) \<and> length (fch_driver s) = 2 \<and>
     (\<forall>ch<2. \<forall>n<4. drive_ok (fch_driver s ! ch) ((ch, n) \<in> stale s) (drive (fch_handle s) ch n))"

lemma drive_ok_kept:
  assumes "slots_kept ch h h'" "drive_ok k st (drive h c u)"
  shows "drive_ok k st (drive h' c u)"
proof (cases "inserted (drive h c u)")
  case True
  have "slot_kept (drive h c u) (drive h' c u)" using assms(1) by (simp add: slots_kept_def)
  with True assms(2) slot_kept_inserted [OF this] show ?thesis by (simp add: drive_ok_def slot_kept_def)
next
  case False
  then have "drive h' c u = drive h c u" using assms(1) unfolding slots_kept_def by blast
  then show ?thesis using assms(2) by simp
qed

text \<open>Whatever driver serves a request keeps the invariant.\<close>

context request_handler
begin

lemma process_ok:
  assumes "process ch h stat s w = Some (h', s', w')" "ch < 2" "channel_ok x" "fch_handle x = h"
    "fch_handle y = h'" "fch_driver y = fch_driver x" "stale y = stale x"
  shows "channel_ok y"
proof -
  have "handles_ok h" using assms(3,4) by (simp add: channel_ok_def)
  from process_kept [OF this assms(2,1)] have k: "slots_kept ch h h'" .
  with \<open>handles_ok h\<close> have "handles_ok h'" by (simp add: slots_kept_def)
  with assms(3-7) drive_ok_kept [OF k] show ?thesis by (simp add: channel_ok_def)
qed

end

lemma channel_ok_put:
  assumes "channel_ok s" "ch < 2" "n < 4" "handles_ok (fch_handle s)" "fch_driver y = fch_driver s"
    "fch_handle y = set_drive (fch_handle s) ch n d" "stale y - {(ch, n)} = stale s - {(ch, n)}"
    "drive_ok (fch_driver s ! ch) ((ch, n) \<in> stale y) d"
  shows "channel_ok y"
proof -
  have "drive_ok (fch_driver s ! c) ((c, u) \<in> stale y) (drive (fch_handle y) c u)" if "c < 2" "u < 4" for c u
  proof (cases "c = ch \<and> u = n")
    case True
    then show ?thesis using assms(8) by (simp add: assms(6) drive_set_drive [OF assms(4,2,3)])
  next
    case False
    then have "(c, u) \<in> stale y \<longleftrightarrow> (c, u) \<in> stale s" using assms(7) by blast
    with False that assms(1) show ?thesis by (auto simp: assms(6) drive_set_drive [OF assms(4,2,3)] channel_ok_def)
  qed
  then show ?thesis using assms(1,4,5,6) by (simp add: channel_ok_def handles_ok_set_drive)
qed

lemma FCh_Process_ok:
  assumes "FCh_Process stk ch s w = Some (s', w')" "ch < 2" "channel_ok s"
  shows "channel_ok s'"
  using assms(1) assms(3)
  unfolding FCh_Process_def Let_def case_prod_beta
  by (auto split: if_splits bind_splits
      intro: drv00.process_ok [OF _ assms(2,3), where s = "()" and s' = "()"]
        drv01.process_ok [OF _ assms(2,3)] drv02.process_ok [OF _ assms(2,3)] drv08.process_ok [OF _ assms(2,3)])

text \<open>What the drivers promise of an insertion, whichever is called.\<close>

lemma driver_insert_kind:
  assumes "driver_insert al stk ch n d ext s w = Some (e, d', s', w')" "pDesc d = None"
  shows "(pDesc d' = None \<or> map_option desc_kind (pDesc d') = Some (fch_driver s ! ch)) \<and>
    (e = 0 \<longrightarrow> pDesc d' \<noteq> None \<and> (fSource d = None \<longrightarrow> fch_driver s ! ch = 0x8)) \<and>
    (fSource d' = None \<longleftrightarrow> fSource d = None) \<and> fch_name d' = fch_name d \<and>
    (status d' = status d \<or> status d' = status d OR FILEIO_STAT_READONLY)"
proof -
  consider (0) "fch_driver s ! ch = 0x0" | (1) "fch_driver s ! ch = 0x1" | (2) "fch_driver s ! ch = 0x2"
    | (8) "fch_driver s ! ch = 0x8"
    | (other) "fch_driver s ! ch \<notin> {0x0, 0x1, 0x2, 0x8}" by blast
  then show ?thesis
  proof cases
    case 0
    then have "map_option (\<lambda>(e, d, w). (e, d, (), w)) (Drv00_InsertInit al ch n d w) = Some (e, d', (), w')"
      using assms(1) by (auto simp: driver_insert_def split: bind_splits)
    from drv00.insert_kind [OF this assms(2)] 0 show ?thesis by simp
  next
    case 1
    then have "map_option (\<lambda>(e, d, w). (e, d, floppy s, w)) (Drv01_InsertInit al stk ch n d ext w) = Some (e, d', floppy s, w')"
      using assms(1) by (auto simp: driver_insert_def split: bind_splits)
    from drv01.insert_kind [OF this assms(2)] 1 show ?thesis by simp
  next
    case 2
    then obtain x where "Drv02_InsertInit al ch n d ext (tape s) w = Some (e, d', x, w')"
      using assms(1) by (auto simp: driver_insert_def split: bind_splits)
    from drv02.insert_kind [OF this assms(2)] 2 show ?thesis by simp
  next
    case 8
    then obtain x where "Drv08_InsertInit al stk ch n d ext (card_state s) w = Some (e, d', x, w')"
      using assms(1) by (auto simp: driver_insert_def split: bind_splits)
    from drv08.insert_kind [OF this assms(2)] 8 show ?thesis by simp
  next
    case other
    with assms show ?thesis by (auto simp: driver_insert_def)
  qed
qed

lemma driver_insert_state:
  "driver_insert al stk ch n d ext s w = Some (e, d', s', w') \<Longrightarrow>
     fch_handle s' = fch_handle s \<and> fch_driver s' = fch_driver s \<and> stale s' = stale s"
  by (auto simp: driver_insert_def Let_def split: if_splits bind_splits)

lemma open_image_facts:
  assumes "open_image f_open path d = (d', opened)" "status d = 0" "fSource d = None" "pDesc d = None"
  shows "pDesc d' = None" "status d' = 0 \<or> status d' = FILEIO_STAT_READONLY" "\<not> opened \<Longrightarrow> fSource d' = None"
  using assms by (auto simp: open_image_def Let_def split: if_splits option.splits)

lemma FCh_Insert_ok:
  assumes "FCh_Insert al stk f_open ch n path s w = Some (s', w')" "ch < 2" "n < 4" "channel_ok s"
  shows "channel_ok s'"
proof -
  have h: "handles_ok (fch_handle s)" using assms(4) by (simp add: channel_ok_def)
  let ?d = "clear_name ((drive (fch_handle s) ch n)\<lparr>status := 0\<rparr>)\<lparr>fSource := None, pDesc := None\<rparr>"
  let ?s = "s\<lparr>stale := stale s - {(ch, n)}\<rparr>"
  obtain d1 opened where o: "open_image f_open path ?d = (d1, opened)" by (cases "open_image f_open path ?d")
  note f = open_image_facts [OF o]
  note put = channel_ok_put [OF assms(4,2,3) h]
  show ?thesis
  proof (cases opened)
    case False
    with assms(1) have "s' = put_drive ch n d1 ?s" by (simp add: FCh_Insert_def Let_def o)
    with f False show ?thesis by (intro put [of _ d1]) (auto simp: put_drive_def drive_ok_def inserted_def clear_name_def)
  next
    case True
    with assms(1) obtain ext e d2 s2 w2 where r:
      "driver_insert al stk ch n d1 ext ?s (FCh_WriteStat ch 0x00 w) = Some (e, d2, s2, w2)" "file_ext path = Some ext"
      by (auto simp: FCh_Insert_def Let_def o split: bind_splits)
    have d1: "pDesc d1 = None" "status d1 = 0 \<or> status d1 = FILEIO_STAT_READONLY" using f by (auto simp: clear_name_def)
    note k = driver_insert_kind [OF r(1) d1(1)] driver_insert_state [OF r(1)]
    have st: "status d2 = 0 \<or> status d2 = FILEIO_STAT_READONLY"
    proof -
      have "status d2 = status d1 \<or> status d2 = status d1 OR FILEIO_STAT_READONLY" using k(1) by blast
      with d1(2) show ?thesis by (elim disjE) simp_all
    qed
    show ?thesis
    proof (cases "e = 0")
      case False
      with assms(1) r \<open>opened\<close> have "s' = free_drive ch n d2 (put_drive ch n d2 s2)" by (simp add: FCh_Insert_def Let_def o)
      then have s': "fch_handle s' = set_drive (fch_handle s) ch n d2" "fch_driver s' = fch_driver s"
        "stale s' - {(ch, n)} = stale s - {(ch, n)}" "(ch, n) \<in> stale s' \<or> fSource d2 = None \<and> pDesc d2 = None"
        using k(2) by (auto simp: free_drive_def put_drive_def)
      have "\<not> inserted d2" using st by (elim disjE) (simp_all add: inserted_def)
      with s'(4) have "drive_ok (fch_driver s ! ch) ((ch, n) \<in> stale s') d2" by (simp add: drive_ok_def)
      then show ?thesis by (rule put [OF s'(2,1,3)])
    next
      case True
      with assms(1) r \<open>opened\<close> obtain name where
        s': "s' = put_drive ch n (d2\<lparr>fch_name := name, status := status d2 OR FILEIO_STAT_INSERTED\<rparr>) s2"
        by (auto simp: FCh_Insert_def Let_def o split: bind_splits)
      let ?d2 = "d2\<lparr>fch_name := name, status := status d2 OR FILEIO_STAT_INSERTED\<rparr>"
      have s'': "fch_handle s' = set_drive (fch_handle s) ch n ?d2" "fch_driver s' = fch_driver s"
        "stale s' - {(ch, n)} = stale s - {(ch, n)}" "(ch, n) \<notin> stale s'"
        using k(2) by (simp_all add: s' put_drive_def)
      have "inserted ?d2" using st by (elim disjE) (simp_all add: inserted_def)
      moreover have "pDesc d2 \<noteq> None" "pDesc d2 = None \<or> map_option desc_kind (pDesc d2) = Some (fch_driver ?s ! ch)"
        "fSource d2 = None \<longleftrightarrow> fSource d1 = None" "fSource d1 = None \<longrightarrow> fch_driver ?s ! ch = 0x8"
        using k(1) True by blast+
      ultimately have "drive_ok (fch_driver s ! ch) ((ch, n) \<in> stale s') ?d2"
        using s''(4) by (simp add: drive_ok_def) auto
      then show ?thesis by (rule put [OF s''(2,1,3)])
    qed
  qed
qed


lemma FCh_Eject_ok:
  assumes "FCh_Eject ch n s w = Some (s', w')" "ch < 2" "n < 4" "channel_ok s"
  shows "channel_ok s'"
proof -
  have h: "handles_ok (fch_handle s)" using assms(4) by (simp add: channel_ok_def)
  let ?d = "drive (fch_handle s) ch n"
  have "s' = put_drive ch n (clear_name (?d\<lparr>status := 0\<rparr>)) (free_drive ch n ?d s)"
    using assms(1) by (simp add: FCh_Eject_def Let_def split: if_splits)
  then show ?thesis
    by (intro channel_ok_put [OF assms(4,2,3) h, of _ "clear_name (?d\<lparr>status := 0\<rparr>)"])
      (auto simp: put_drive_def free_drive_def clear_name_def drive_ok_def inserted_def)
qed

lemma FCh_TogProtect_ok:
  assumes "FCh_TogProtect ch n s w = (s', w')" "ch < 2" "n < 4" "channel_ok s"
  shows "channel_ok s'"
proof (cases "inserted (drive (fch_handle s) ch n)")
  case True
  have h: "handles_ok (fch_handle s)" using assms(4) by (simp add: channel_ok_def)
  let ?d = "drive (fch_handle s) ch n"
  have "(status ?d XOR FILEIO_STAT_PROTECTED) AND FILEIO_STAT_INSERTED = status ?d AND FILEIO_STAT_INSERTED"
    by (rule bit_word_eqI) (auto simp: bit_simps)
  then have "inserted (?d\<lparr>status := status ?d XOR FILEIO_STAT_PROTECTED\<rparr>)" using True by (simp add: inserted_def)
  moreover have "drive_ok (fch_driver s ! ch) ((ch, n) \<in> stale s) ?d" using assms(2-4) by (simp add: channel_ok_def)
  moreover have "s' = put_drive ch n (?d\<lparr>status := status ?d XOR FILEIO_STAT_PROTECTED\<rparr>) s"
    using assms(1) True by (simp add: FCh_TogProtect_def Let_def inserted_def)
  ultimately show ?thesis using True
    by (intro channel_ok_put [OF assms(4,2,3) h, of _ "?d\<lparr>status := status ?d XOR FILEIO_STAT_PROTECTED\<rparr>"])
      (auto simp: put_drive_def drive_ok_def)
qed (use assms in \<open>simp add: FCh_TogProtect_def Let_def inserted_def\<close>)

lemma FCh_SetDriver_ok:
  assumes "\<forall>n<4. \<not> inserted (drive (fch_handle s) ch n)" "ch < 2" "channel_ok s"
  shows "channel_ok (FCh_SetDriver ch type s)"
proof -
  have "drive_ok k' st d" if "drive_ok k st d" "\<not> inserted d" for k k' st d using that by (simp add: drive_ok_def)
  with assms show ?thesis unfolding channel_ok_def FCh_SetDriver_def
    by (auto simp: nth_list_update) (metis (no_types))
qed

lemma FCh_Init_ok:
  assumes "handles_ok (fch_handle s)" "length (fch_driver s) = 2"
  shows "channel_ok (FCh_Init s)"
  using assms by (auto simp: channel_ok_def FCh_Init_def handles_ok_def drive_def drive_ok_def inserted_def clear_name_def)

subsection \<open>The channels as a state machine\<close>

text \<open>
  What the rest of the firmware does: requests are served at any time, drives are inserted at any time,
  but ejected only when they are inserted, and the driver of a channel is only changed while
  nothing is inserted in it (all drives are ejected before a core is configured).
\<close>

inductive channel_step :: "fio \<Rightarrow> fio \<Rightarrow> bool" where
  process: "ch < 2 \<Longrightarrow> FCh_Process stk ch s w = Some (s', w') \<Longrightarrow> channel_step s s'"
| insert: "ch < 2 \<Longrightarrow> n < 4 \<Longrightarrow> FCh_Insert al stk f_open ch n path s w = Some (s', w') \<Longrightarrow> channel_step s s'"
| eject: "ch < 2 \<Longrightarrow> n < 4 \<Longrightarrow> FCh_GetInserted (fch_handle s) ch n \<noteq> 0 \<Longrightarrow> FCh_Eject ch n s w = Some (s', w') \<Longrightarrow>
    channel_step s s'"
| toggle: "ch < 2 \<Longrightarrow> n < 4 \<Longrightarrow> FCh_TogProtect ch n s w = (s', w') \<Longrightarrow> channel_step s s'"
| set_driver: "ch < 2 \<Longrightarrow> \<forall>n<4. FCh_GetInserted (fch_handle s) ch n = 0 \<Longrightarrow> channel_step s (FCh_SetDriver ch type s)"
| init: "channel_step s (FCh_Init s)"

inductive channel_reachable :: "fio \<Rightarrow> bool" where
  start: "handles_ok (fch_handle s) \<Longrightarrow> length (fch_driver s) = 2 \<Longrightarrow> channel_reachable (FCh_Init s)"
| step: "channel_reachable s \<Longrightarrow> channel_step s s' \<Longrightarrow> channel_reachable s'"

inductive_cases channel_stepE: "channel_step s s'"

lemma channel_step_ok: "channel_step s s' \<Longrightarrow> channel_ok s \<Longrightarrow> channel_ok s'"
proof (induction rule: channel_step.induct)
  case (set_driver ch s type)
  then show ?case by (intro FCh_SetDriver_ok) (auto simp: FCh_GetInserted_def inserted_def)
next
  case (init s)
  then show ?case by (intro FCh_Init_ok) (auto simp: channel_ok_def)
qed (auto intro: FCh_Process_ok FCh_Insert_ok FCh_Eject_ok FCh_TogProtect_ok)

lemma channel_reachable_ok: "channel_reachable s \<Longrightarrow> channel_ok s"
  by (induction rule: channel_reachable.induct) (auto intro: FCh_Init_ok channel_step_ok)

subsection \<open>Properties\<close>

text \<open>
  C4. In every state that the firmware can reach, a drive that is inserted has a descriptor of the
  driver of its channel, so that the drivers, which cast the pointer, always find their own; its
  pointers have not been freed, and only the hard disk driver has drives without a file.
\<close>

theorem channels_typed:
  assumes "channel_reachable s" "ch < 2" "n < 4" "FCh_GetInserted (fch_handle s) ch n \<noteq> 0"
  shows "(ch, n) \<notin> stale s \<and>
    (\<exists>dsc. pDesc (drive (fch_handle s) ch n) = Some dsc \<and> desc_kind dsc = fch_driver s ! ch) \<and>
    (fSource (drive (fch_handle s) ch n) = None \<longrightarrow> fch_driver s ! ch = 0x8)"
proof -
  have "drive_ok (fch_driver s ! ch) ((ch, n) \<in> stale s) (drive (fch_handle s) ch n)"
    using channel_reachable_ok [OF assms(1)] assms(2,3) by (simp add: channel_ok_def)
  with assms(4) show ?thesis by (auto simp: drive_ok_def FCh_GetInserted_def inserted_def)
qed

definition no_drive :: fch where
  "no_drive = \<lparr>status = 0, fSource = None, pDesc = None, fch_name = replicate 25 NUL\<rparr>"

definition fresh_channels :: fio where
  "fresh_channels = \<lparr>fch_handle = replicate 2 (replicate 4 no_drive), fch_driver = [0x0, 0x8],
     floppy = \<lparr>write_state = 0, write_drive = 0\<rparr>, tape = zero_chunk, card_state = new_card, stale = {}\<rparr>"

text \<open>A file inserted in drive 1 of channel 0.\<close>

definition loaded_channels :: "fio \<times> world" where
  "loaded_channels = the (FCh_Insert True [] (\<lambda>_ _. Inr (test_file [1, 2, 3])) 0 1 ''/x.bin'' (FCh_Init fresh_channels) test_channel)"

lemma loaded_channels_step:
  "FCh_Insert True [] (\<lambda>_ _. Inr (test_file [1, 2, 3])) 0 1 ''/x.bin'' (FCh_Init fresh_channels) test_channel = Some loaded_channels \<and>
   FCh_GetInserted (fch_handle (fst loaded_channels)) 0 1 \<noteq> 0 \<and> FCh_GetInserted (fch_handle (fst loaded_channels)) 0 3 = 0 \<and>
   fch_driver (fst loaded_channels) = [0x0, 0x8]"
proof -
  have "FileDisplayName ''/x.bin'' 25 \<noteq> None" by (simp add: FileDisplayName_def)
  then obtain name where n: "FileDisplayName ''/x.bin'' 25 = Some name" by blast
  have o: "fst (FF_Open (\<lambda>_ _. Inr (test_file [1, 2, 3])) ''/x.bin'' 0x03) = Some (test_file [1, 2, 3])"
    by (simp add: FF_Open_def)
  have r: "replicate 2 x = [x, x]" "replicate 4 x = [x, x, x, x]" for x :: "'a" by (simp_all add: numeral_eq_Suc)
  show ?thesis
    unfolding loaded_channels_def
    by (simp add: FCh_Insert_def open_image_def o n Let_def driver_insert_def FCh_Init_def fresh_channels_def
        Drv00_InsertInit_def file_ext_def GetExtension_def no_drive_def clear_name_def put_drive_def drive_def
        set_drive_def FCh_GetInserted_def r)
qed

lemma loaded_channels_reachable: "channel_reachable (fst loaded_channels)"
proof -
  have "channel_reachable (FCh_Init fresh_channels)"
    by (rule channel_reachable.start) (simp_all add: fresh_channels_def handles_ok_def)
  moreover have "channel_step (FCh_Init fresh_channels) (fst loaded_channels)"
    using loaded_channels_step
    by (intro channel_step.insert [where w' = "snd loaded_channels" and ch = 0 and n = 1]) auto
  ultimately show ?thesis by (rule channel_reachable.step)
qed

lemma channels_typed_witness: "(0, 1) \<notin> stale (fst loaded_channels)"
  using channels_typed [OF loaded_channels_reachable, of 0 1] loaded_channels_step by simp

text \<open>
  C24. Ejecting an inserted drive, in every state that the firmware can reach, frees nothing twice;
  the drive is not inserted any more, no other drive changes, and the core is told the new
  status of the drives of the channel.
\<close>

theorem FCh_Eject_safe:
  assumes "channel_reachable s" "ch < 2" "n < 4" "FCh_GetInserted (fch_handle s) ch n \<noteq> 0"
  shows "\<exists>s' w'. FCh_Eject ch n s w = Some (s', w') \<and> FCh_GetInserted (fch_handle s') ch n = 0 \<and>
    (\<forall>c u. (c, u) \<noteq> (ch, n) \<longrightarrow> drive (fch_handle s') c u = drive (fch_handle s) c u) \<and>
    trace w' = trace w @ [Enable PortOsd, Xfer (if ch = 0 then 0x28 else 0x29),
                          Xfer (drive_status (fch_handle s') ch), Disable PortOsd]"
proof -
  have ok: "channel_ok s" by (rule channel_reachable_ok [OF assms(1)])
  then have h: "handles_ok (fch_handle s)" by (simp add: channel_ok_def)
  have "(ch, n) \<notin> stale s" using ok assms(2-) by (auto simp: channel_ok_def drive_ok_def inserted_def FCh_GetInserted_def)
  moreover have "trace (FCh_UpdateDriveStatus ch x w) = trace w @ [Enable PortOsd, Xfer (if ch = 0 then 0x28 else 0x29),
      Xfer (drive_status (fch_handle x) ch), Disable PortOsd]" for x
    by (simp add: FCh_UpdateDriveStatus_def OSD_ConfigSendFileIO_def SPI_EnableOsd_def SPI_DisableOsd_def)
  ultimately show ?thesis
    by (auto simp: FCh_Eject_def Let_def put_drive_def free_drive_def FCh_GetInserted_def drive_set_drive [OF h assms(2,3)] clear_name_def)
qed

lemma FCh_Eject_safe_witness:
  "\<exists>s' w'. FCh_Eject 0 1 (fst loaded_channels) test_channel = Some (s', w') \<and> FCh_GetInserted (fch_handle s') 0 1 = 0"
  using FCh_Eject_safe [OF loaded_channels_reachable, of 0 1 test_channel] loaded_channels_step by auto

text \<open>
  C25. The status byte for the core has, for each of the four drives, whether it is inserted in the low
  half and whether it is neither read-only nor protected in the high half.
\<close>

theorem drive_status_bits:
  assumes "n < 4"
  shows "(bit (drive_status h ch) n \<longleftrightarrow> FCh_GetInserted h ch n \<noteq> 0) \<and>
    (bit (drive_status h ch) (n + 4) \<longleftrightarrow> status (drive h ch n) AND FILEIO_STAT_READONLY_OR_PROTECTED = 0)"
proof -
  have u: "[0..<FCH_MAX_NUM] = [0, 1, 2, 3]" by (simp add: upt_rec)
  have n: "n = 0 \<or> n = 1 \<or> n = 2 \<or> n = 3" using assms by auto
  show ?thesis unfolding drive_status_def u FCh_GetInserted_def
    using n by (elim disjE) (simp_all add: Let_def bit_simps)
qed

lemma drive_status_bits_witness: "bit (drive_status (fch_handle (fst loaded_channels)) 0) 1"
  using drive_status_bits [of 1 "fch_handle (fst loaded_channels)" 0] loaded_channels_step by simp

text \<open>
  C13. Serving a request changes nothing that the rest of the firmware sees of any drive, whichever
  driver the channel has: whether it is inserted, read-only or protected and its name; and it does not
  touch the drives of the other channel nor drives that are not inserted.
\<close>

theorem requests_isolated:
  assumes "FCh_Process stk ch s w = Some (s', w')" "handles_ok (fch_handle s)" "ch < 2"
  shows "FCh_GetInserted (fch_handle s') c u = FCh_GetInserted (fch_handle s) c u \<and>
    FCh_GetReadOnly (fch_handle s') c u = FCh_GetReadOnly (fch_handle s) c u \<and>
    FCh_GetProtect (fch_handle s') c u = FCh_GetProtect (fch_handle s) c u \<and>
    FCh_GetName (fch_handle s') c u = FCh_GetName (fch_handle s) c u \<and>
    (c \<noteq> ch \<or> FCh_GetInserted (fch_handle s) c u = 0 \<longrightarrow> drive (fch_handle s') c u = drive (fch_handle s) c u)"
proof -
  have "slots_kept ch (fch_handle s) (fch_handle s')"
    using assms(1) unfolding FCh_Process_def Let_def case_prod_beta
    by (auto split: if_splits bind_splits
        intro: drv00.process_kept [OF assms(2,3), where s = "()" and s' = "()"]
          drv01.process_kept [OF assms(2,3)] drv02.process_kept [OF assms(2,3)] drv08.process_kept [OF assms(2,3)])
  then show ?thesis
    by (auto simp: slots_kept_def slot_kept_def FCh_GetInserted_def FCh_GetReadOnly_def FCh_GetProtect_def FCh_GetName_def inserted_def)
qed


lemma requests_isolated_witness:
  "\<exists>s' w'. FCh_Process [] 0 (fst loaded_channels) test_channel = Some (s', w') \<and>
     FCh_GetInserted (fch_handle s') 0 1 \<noteq> 0"
proof -
  have eight: "Drv00_Process_loop 8 = Drv00_Process_loop (Suc 7)" by simp
  have st: "fst (FCh_GetStat 0 test_channel) = 0xFF" by (simp add: FCh_GetStat_def test_channel_def)
  have "Drv00_Process_loop 8 0 (fch_handle (fst loaded_channels)) 0xFF w \<noteq> None" for w
    using loaded_channels_step unfolding eight Drv00_Process_loop.simps by (simp add: Let_def)
  then obtain h w where "Drv00_Process_loop 8 0 (fch_handle (fst loaded_channels)) 0xFF (snd (FCh_GetStat 0 test_channel)) = Some (h, w)"
    by fastforce
  then have "FCh_Process [] 0 (fst loaded_channels) test_channel \<noteq> None"
    using loaded_channels_step unfolding FCh_Process_def Drv00_Process_def
    by (simp add: Let_def case_prod_beta st)
  then obtain s' w' where p: "FCh_Process [] 0 (fst loaded_channels) test_channel = Some (s', w')" by auto
  have "handles_ok (fch_handle (fst loaded_channels))"
    using channel_reachable_ok [OF loaded_channels_reachable] by (simp add: channel_ok_def)
  from requests_isolated [OF p this, of 0 1] p loaded_channels_step show ?thesis by auto
qed

end
