(* ===== verification/Freelist.thy ===== *)
theory Freelist
  imports Prelude "HOL-Library.Monad_Syntax"
begin

text \<open>
  The allocator of \<open>freelist.c\<close> and its two clients: \<open>malloc\<close> and \<open>free\<close> of \<open>libc/malloc.c\<close> and the heap of the
  file system in \<open>ff_malloc.c\<close>.

  Addresses are natural numbers (bytes); the memory is what the headers of blocks hold, eight bytes each.
  The context holds the root of the ring, at the address \<open>root\<close>, which is below the heap (data before
  heap, as the linker scripts have it).  The list of allocated blocks, compiled for debug level 3 only (it is
  0), and messages are left out.  Loops that do not end are \<open>None\<close>; that they end under the invariant is
  proved in the locale \<open>sbrk_provider\<close>, whose laws both heaps satisfy.
\<close>

record fl_heap =
  nextPtr :: "nat \<Rightarrow> nat"
  numBlocks :: "nat \<Rightarrow> nat"
  freeList :: "nat option"
  heapSize :: u32

type_synonym 's sbrk = "'s \<Rightarrow> nat \<Rightarrow> nat option \<times> 's"

subsection \<open>Freeing\<close>

text \<open>The free block after which a block belongs.\<close>

partial_function (option) free_search :: "nat \<Rightarrow> nat \<Rightarrow> fl_heap \<Rightarrow> nat option" where
  "free_search blockPtr p s =
     (let n = nextPtr s p
      in if p < blockPtr \<and> blockPtr < n then Some p
         else if n \<le> p \<and> (p < blockPtr \<or> blockPtr < n) then Some p
         else free_search blockPtr n s)"

definition free_link :: "nat \<Rightarrow> nat \<Rightarrow> fl_heap \<Rightarrow> fl_heap" where
  "free_link blockPtr p s =
     (let n = nextPtr s p;
          s = (if blockPtr + 8 * numBlocks s blockPtr = n
               then s\<lparr>numBlocks := (numBlocks s)(blockPtr := numBlocks s blockPtr + numBlocks s n),
                      nextPtr := (nextPtr s)(blockPtr := nextPtr s n)\<rparr>
               else s\<lparr>nextPtr := (nextPtr s)(blockPtr := n)\<rparr>);
          s = (if p + 8 * numBlocks s p = blockPtr
               then s\<lparr>numBlocks := (numBlocks s)(p := numBlocks s p + numBlocks s blockPtr),
                      nextPtr := (nextPtr s)(p := nextPtr s blockPtr)\<rparr>
               else s\<lparr>nextPtr := (nextPtr s)(p := blockPtr)\<rparr>)
      in s\<lparr>freeList := Some p\<rparr>)"

definition FreeList_Free :: "nat \<Rightarrow> fl_heap \<Rightarrow> fl_heap option" where
  "FreeList_Free ptr s =
     do { p \<leftarrow> freeList s; p \<leftarrow> free_search (ptr - 8) p s; Some (free_link (ptr - 8) p s) }"

subsection \<open>Allocating\<close>

text \<open>Taking a block that is large enough, or its end.\<close>

definition take_block :: "nat \<Rightarrow> nat \<Rightarrow> nat \<Rightarrow> fl_heap \<Rightarrow> nat \<times> fl_heap" where
  "take_block nb prevPtr p s =
     (let (p, s) = (if numBlocks s p = nb
                    then (p, s\<lparr>nextPtr := (nextPtr s)(prevPtr := nextPtr s p)\<rparr>)
                    else let s = s\<lparr>numBlocks := (numBlocks s)(p := numBlocks s p - nb)\<rparr>;
                             p = p + 8 * numBlocks s p
                         in (p, s\<lparr>numBlocks := (numBlocks s)(p := nb)\<rparr>))
      in (p + 8, s\<lparr>freeList := Some prevPtr\<rparr>))"

text \<open>More memory: less and less is asked for while there is not enough.\<close>

partial_function (option) sbrk_loop :: "'s sbrk \<Rightarrow> nat \<Rightarrow> nat \<Rightarrow> nat \<Rightarrow> 's \<Rightarrow> ((nat \<times> nat) option \<times> 's) option" where
  "sbrk_loop sbrkFunc addBlocks nb divider st =
     (let addBytes = (addBlocks div divider) * 8 mod 2 ^ 32;
          (p, st) = sbrkFunc st addBytes
      in case p of
           Some p \<Rightarrow> Some (Some (p, addBytes), st)
         | None \<Rightarrow> if addBytes \<ge> nb * 8 mod 2 ^ 32 then sbrk_loop sbrkFunc addBlocks nb (divider + 1) st
                   else Some (None, st))"

definition add_block :: "nat \<Rightarrow> nat \<Rightarrow> fl_heap \<Rightarrow> fl_heap option" where
  "add_block p addBytes s =
     do { s \<leftarrow> FreeList_Free (p + 8) (s\<lparr>nextPtr := (nextPtr s)(p := 0), numBlocks := (numBlocks s)(p := addBytes div 8)\<rparr>);
          Some (s\<lparr>heapSize := heapSize s + of_nat addBytes\<rparr>) }"

partial_function (option) alloc_loop ::
  "'s sbrk \<Rightarrow> nat \<Rightarrow> nat \<Rightarrow> nat \<Rightarrow> fl_heap \<Rightarrow> 's \<Rightarrow> (nat option \<times> fl_heap \<times> 's) option" where
  "alloc_loop sbrkFunc nb prevPtr p s st =
     (if numBlocks s p \<ge> nb then let (ptr, s) = take_block nb prevPtr p s in Some (Some ptr, s, st)
      else if freeList s = Some p
      then do { (mem, st) \<leftarrow> sbrk_loop sbrkFunc (if nb < 1024 then 1024 else nb) nb 1 st;
                case mem of
                  None \<Rightarrow> Some (None, s, st)
                | Some (p, addBytes) \<Rightarrow>
                    do { s \<leftarrow> add_block p addBytes s;
                         p \<leftarrow> freeList s;
                         alloc_loop sbrkFunc nb p (nextPtr s p) s st } }
      else alloc_loop sbrkFunc nb p (nextPtr s p) s st)"

definition block_count :: "nat \<Rightarrow> nat" where
  "block_count sz = ((sz + 8 - 1) mod 2 ^ 32) div 8 + 1"

text \<open>The first call makes the ring of the root alone.\<close>

definition init_root :: "nat \<Rightarrow> fl_heap \<Rightarrow> fl_heap" where
  "init_root root s =
     (case freeList s of
        Some _ \<Rightarrow> s
      | None \<Rightarrow> s\<lparr>numBlocks := (numBlocks s)(root := 0), nextPtr := (nextPtr s)(root := root), freeList := Some root\<rparr>)"

definition FreeList_Alloc :: "'s sbrk \<Rightarrow> nat \<Rightarrow> nat \<Rightarrow> fl_heap \<Rightarrow> 's \<Rightarrow> (nat option \<times> fl_heap \<times> 's) option" where
  "FreeList_Alloc sbrkFunc root sz s st =
     (let s = init_root root s
      in do { prevPtr \<leftarrow> freeList s; alloc_loop sbrkFunc (block_count sz) prevPtr (nextPtr s prevPtr) s st })"

subsection \<open>The two heaps\<close>

text \<open>
  The heap of the file system is an array of 4096 bytes that is handed out once and whole; the heap of the
  C library begins at the end of the data and grows without a check, so that it never fails.  (Addresses
  do not wrap around while the heap is smaller than the memory.)
\<close>

definition ff_sbrk :: "nat \<Rightarrow> bool sbrk" where
  "ff_sbrk ff_heap init increment =
     (if init then (None, init) else if increment > 4096 then (None, init) else (Some ff_heap, True))"

definition sbrk_r :: "nat \<Rightarrow> nat sbrk" where
  "sbrk_r heap_start heap_ptr nbytes =
     (let base = (if heap_ptr = 0 then heap_start else heap_ptr) in (Some base, base + nbytes))"

definition ff_malloc :: "nat \<Rightarrow> nat \<Rightarrow> nat \<Rightarrow> fl_heap \<Rightarrow> bool \<Rightarrow> (nat option \<times> fl_heap \<times> bool) option" where
  "ff_malloc ff_heap root sz = FreeList_Alloc (ff_sbrk ff_heap) root sz"

definition malloc :: "nat \<Rightarrow> nat \<Rightarrow> nat \<Rightarrow> fl_heap \<Rightarrow> nat \<Rightarrow> (nat option \<times> fl_heap \<times> nat) option" where
  "malloc heap_start root sz = FreeList_Alloc (sbrk_r heap_start) root sz"

definition free :: "nat \<Rightarrow> fl_heap \<Rightarrow> fl_heap option" where
  "free ptr s = FreeList_Free ptr s"

definition ff_free :: "nat \<Rightarrow> fl_heap \<Rightarrow> fl_heap option" where
  "ff_free ptr s = FreeList_Free ptr s"

definition s_MallocContext :: fl_heap where
  "s_MallocContext = \<lparr>nextPtr = (\<lambda>_. 0), numBlocks = (\<lambda>_. 0), freeList = None, heapSize = 0\<rparr>"

subsection \<open>The ring of free blocks\<close>

text \<open>The successor of an address in the ring of \<open>F\<close>: the next higher one, or the root.\<close>

definition is_next :: "nat set \<Rightarrow> nat \<Rightarrow> nat \<Rightarrow> nat \<Rightarrow> bool" where
  "is_next F r x y \<longleftrightarrow> y \<in> F \<and>
     (x < y \<and> (\<forall>z\<in>F. x < z \<longrightarrow> y \<le> z) \<or> y = r \<and> (\<forall>z\<in>F. z \<le> x))"

text \<open>
  The headers of the free blocks \<open>F\<close> form the ring; the root is the lowest and empty, all others are not
  empty and do not overlap.
\<close>

definition ring :: "nat \<Rightarrow> nat set \<Rightarrow> fl_heap \<Rightarrow> bool" where
  "ring r F s \<longleftrightarrow> finite F \<and> r \<in> F \<and> numBlocks s r = 0 \<and>
     (\<forall>x\<in>F. x \<noteq> r \<longrightarrow> r + 8 \<le> x \<and> 1 \<le> numBlocks s x) \<and>
     (\<forall>x\<in>F. \<forall>y\<in>F. x < y \<longrightarrow> x \<noteq> r \<longrightarrow> x + 8 * numBlocks s x \<le> y) \<and>
     (\<forall>x\<in>F. is_next F r x (nextPtr s x))"

definition region :: "fl_heap \<Rightarrow> nat \<Rightarrow> nat set" where
  "region s b = {b..<b + 8 * numBlocks s b}"

definition free_bytes :: "nat \<Rightarrow> nat set \<Rightarrow> fl_heap \<Rightarrow> nat set" where
  "free_bytes r F s = (\<Union>x\<in>F - {r}. region s x)"

lemma ringD:
  assumes "ring r F s"
  shows "finite F" "r \<in> F" "numBlocks s r = 0" "x \<in> F \<Longrightarrow> r \<le> x" "x \<in> F \<Longrightarrow> x \<noteq> r \<Longrightarrow> r + 8 \<le> x"
    "x \<in> F \<Longrightarrow> x \<noteq> r \<Longrightarrow> 1 \<le> numBlocks s x"
    "x \<in> F \<Longrightarrow> y \<in> F \<Longrightarrow> x < y \<Longrightarrow> x \<noteq> r \<Longrightarrow> x + 8 * numBlocks s x \<le> y"
    "x \<in> F \<Longrightarrow> is_next F r x (nextPtr s x)" "x \<in> F \<Longrightarrow> nextPtr s x \<in> F"
  using assms by (auto simp: ring_def is_next_def le_less_linear)

lemma is_next_remove:
  assumes "is_next F r x z" "z \<noteq> y"
  shows "is_next (F - {y}) r x z"
  using assms by (auto simp: is_next_def)

lemma is_next_skip:
  assumes "is_next F r x y" "is_next F r y z" "y \<noteq> r" "y \<in> F" "\<forall>u\<in>F. r \<le> u" "x \<noteq> y"
  shows "is_next (F - {y}) r x z"
  using assms by (auto simp: is_next_def) (meson le_less_trans less_le not_le order_trans)+

lemma is_next_inj:
  assumes "is_next F r x y" "is_next F r x' y" "x \<in> F" "x' \<in> F" "y \<noteq> r"
  shows "x = x'"
  using assms by (auto simp: is_next_def) (metis leD linorder_cases)+


text \<open>Removing a block, and giving a block the one that follows it directly.\<close>

lemma ring_remove:
  assumes "ring r F s" "prv \<in> F" "nextPtr s prv = p" "p \<noteq> r"
  shows "ring r (F - {p}) (s\<lparr>nextPtr := (nextPtr s)(prv := nextPtr s p), freeList := fl\<rparr>)" "prv \<noteq> p" "p \<in> F"
proof -
  note R = ringD [OF assms(1)]
  show p: "p \<in> F" using R(9) [OF assms(2)] assms(3) by simp
  show np: "prv \<noteq> p"
  proof
    assume e: "prv = p"
    with R(8) [OF assms(2)] assms(3,4) have "is_next F r p p" "\<forall>z\<in>F. z \<le> p" by (auto simp: is_next_def)
    with assms(4) show False by (auto simp: is_next_def)
  qed
  have "is_next (F - {p}) r x (((nextPtr s)(prv := nextPtr s p)) x)" if x: "x \<in> F - {p}" for x
  proof (cases "x = prv")
    case True
    have "is_next F r prv p" using R(8) [OF assms(2)] assms(3) by simp
    from is_next_skip [OF this R(8) [OF p] assms(4) p _ np] R(4) True show ?thesis by simp
  next
    case False
    have "nextPtr s x \<noteq> p"
    proof
      assume "nextPtr s x = p"
      with R(8) [of x] x have "is_next F r x p" by simp
      from is_next_inj [OF this _ _ assms(2) assms(4)] R(8) [OF assms(2)] assms(3) x False show False by simp
    qed
    with False x R(8) [of x] show ?thesis by (simp add: is_next_remove)
  qed
  moreover have "r \<in> F - {p}" using R(2) assms(4) by simp
  ultimately show "ring r (F - {p}) (s\<lparr>nextPtr := (nextPtr s)(prv := nextPtr s p), freeList := fl\<rparr>)"
    using assms(1) by (auto simp: ring_def)
qed

lemma ring_merge:
  assumes "ring r F s" "x \<in> F" "x \<noteq> r" "x + 8 * numBlocks s x = nextPtr s x"
  shows "ring r (F - {nextPtr s x}) (s\<lparr>numBlocks := (numBlocks s)(x := numBlocks s x + numBlocks s (nextPtr s x)),
        nextPtr := (nextPtr s)(x := nextPtr s (nextPtr s x))\<rparr>)" (is "ring r ?F ?s")
    "free_bytes r (F - {nextPtr s x}) (s\<lparr>numBlocks := (numBlocks s)(x := numBlocks s x + numBlocks s (nextPtr s x)),
        nextPtr := (nextPtr s)(x := nextPtr s (nextPtr s x))\<rparr>) = free_bytes r F s" "nextPtr s x \<in> F" "nextPtr s x \<noteq> r" "x < nextPtr s x"
proof -
  note R = ringD [OF assms(1)]
  let ?y = "nextPtr s x"
  show y: "?y \<in> F" by (rule R(9) [OF assms(2)])
  show xy: "x < ?y" using R(6) [OF assms(2,3)] assms(4) by linarith
  show yr: "?y \<noteq> r" using xy R(4) [OF assms(2)] by simp
  have rm: "ring r ?F (s\<lparr>nextPtr := (nextPtr s)(x := nextPtr s ?y), freeList := freeList s\<rparr>)"
    by (rule ring_remove(1) [OF assms(1,2) refl yr])
  have gap: "x + 8 * (numBlocks s x + numBlocks s ?y) \<le> z" if "z \<in> F - {?y}" "x < z" for z
  proof -
    have "?y < z" using R(8) [OF assms(2)] that xy by (auto simp: is_next_def intro: le_neq_implies_less)
    from R(7) [OF y _ this yr] that(1) assms(4) show ?thesis by simp
  qed
  have "1 \<le> numBlocks s x + numBlocks s ?y" using R(6) [OF assms(2,3)] by simp
  with rm gap assms(3) R(3,6) show "ring r ?F ?s" unfolding ring_def by auto
  have "region s x \<union> region s ?y = {x..<x + 8 * (numBlocks s x + numBlocks s ?y)}"
    using assms(4) by (auto simp: region_def)
  moreover have "F - {r} = insert x (insert ?y (F - {r, x, ?y}))" using assms(2,3) y yr by auto
  moreover have "F - {?y} - {r} = insert x (F - {r, x, ?y})" using assms(2,3) xy by auto
  ultimately show "free_bytes r ?F ?s = free_bytes r F s" by (auto simp: free_bytes_def region_def)
qed


text \<open>The block before an address, and inserting a block after it.\<close>

definition is_pred :: "nat set \<Rightarrow> nat \<Rightarrow> nat \<Rightarrow> bool" where
  "is_pred F b p \<longleftrightarrow> p \<in> F \<and> p < b \<and> (\<forall>z\<in>F. z \<le> p \<or> b < z)"

lemma ring_insert:
  assumes "ring r F s" "is_pred F b p" "r + 8 \<le> b" "1 \<le> numBlocks s b" "region s b \<inter> free_bytes r F s = {}" "b \<notin> F"
  shows "ring r (insert b F) (s\<lparr>nextPtr := (nextPtr s)(b := nextPtr s p, p := b)\<rparr>)"
    "free_bytes r (insert b F) (s\<lparr>nextPtr := (nextPtr s)(b := nextPtr s p, p := b)\<rparr>) = free_bytes r F s \<union> region s b"
proof -
  note R = ringD [OF assms(1)]
  have p: "p \<in> F" "p < b" "\<And>z. z \<in> F \<Longrightarrow> z \<le> p \<or> b < z" using assms(2) by (auto simp: is_pred_def)
  have br: "b \<noteq> r" using assms(3) by simp
  have above: "b + 8 * numBlocks s b \<le> z" if z: "z \<in> F" "b < z" for z
  proof (rule ccontr)
    assume "\<not> b + 8 * numBlocks s b \<le> z"
    then have "z \<in> region s b" using z(2) by (simp add: region_def)
    moreover have "z \<noteq> r" using z assms(3) by simp
    then have "z \<in> free_bytes r F s" using z(1) R(6) [OF z(1)] by (auto simp: free_bytes_def region_def)
    ultimately show False using assms(5) by blast
  qed
  have below: "z + 8 * numBlocks s z \<le> b" if z: "z \<in> F" "z < b" "z \<noteq> r" for z
  proof (rule ccontr)
    assume "\<not> z + 8 * numBlocks s z \<le> b"
    then have "b \<in> region s z" using z(2) by (simp add: region_def)
    then have "b \<in> free_bytes r F s" using z(1,3) by (auto simp: free_bytes_def)
    moreover have "b \<in> region s b" using assms(4) by (simp add: region_def)
    ultimately show False using assms(5) by blast
  qed
  have nb: "is_next (insert b F) r b (nextPtr s p)"
    using R(8) [OF p(1)] p by (auto simp: is_next_def) (meson leD le_less_linear less_le_trans)+
  have np: "is_next (insert b F) r p b" using p(2) p(3) unfolding is_next_def by (metis insert_iff leD less_imp_le_nat order_refl)
  have nx: "is_next (insert b F) r x (nextPtr s x)" if "x \<in> F" "x \<noteq> p" for x
    using R(8) [OF that(1)] that(2) p p(3) [OF that(1)]
    by (auto simp: is_next_def)
  have "\<forall>x\<in>insert b F. is_next (insert b F) r x (((nextPtr s)(b := nextPtr s p, p := b)) x)"
    using nb np nx p(2) assms(6) by auto
  moreover have "\<forall>x\<in>insert b F. \<forall>y\<in>insert b F. x < y \<longrightarrow> x \<noteq> r \<longrightarrow> x + 8 * numBlocks s x \<le> y"
    using above below R(7) by auto
  ultimately show "ring r (insert b F) (s\<lparr>nextPtr := (nextPtr s)(b := nextPtr s p, p := b)\<rparr>)"
    using assms(3,4) R(1-3,5,6) unfolding ring_def by simp
  have "insert b F - {r} = insert b (F - {r})" using br by auto
  then show "free_bytes r (insert b F) (s\<lparr>nextPtr := (nextPtr s)(b := nextPtr s p, p := b)\<rparr>) = free_bytes r F s \<union> region s b"
    by (auto simp: free_bytes_def region_def)
qed


lemma free_link_ring:
  assumes "ring r F s" "is_pred F b p" "r + 8 \<le> b" "1 \<le> numBlocks s b" "region s b \<inter> free_bytes r F s = {}" "b \<notin> F"
  shows "\<exists>F'. ring r F' (free_link b p s) \<and> p \<in> F' \<and> freeList (free_link b p s) = Some p \<and>
    free_bytes r F' (free_link b p s) = free_bytes r F s \<union> region s b \<and>
    (\<forall>z. z \<notin> insert b F \<longrightarrow> numBlocks (free_link b p s) z = numBlocks s z) \<and>
    (\<exists>x\<in>F'. numBlocks s b \<le> numBlocks (free_link b p s) x)"
proof -
  let ?n = "nextPtr s p"
  have pb: "p \<in> F" "p < b" "p \<noteq> b" using assms(2) by (auto simp: is_pred_def)
  define s1 where "s1 = s\<lparr>nextPtr := (nextPtr s)(b := ?n, p := b)\<rparr>"
  have r1: "ring r (insert b F) s1" "free_bytes r (insert b F) s1 = free_bytes r F s \<union> region s b"
    using ring_insert [OF assms] by (simp_all add: s1_def)
  have e1: "nextPtr s1 b = ?n" "nextPtr s1 p = b" "numBlocks s1 = numBlocks s" using pb by (simp_all add: s1_def)
  define s2 where "s2 = (if b + 8 * numBlocks s b = ?n
    then s1\<lparr>numBlocks := (numBlocks s1)(b := numBlocks s1 b + numBlocks s1 ?n), nextPtr := (nextPtr s1)(b := nextPtr s1 ?n)\<rparr> else s1)"
  define F2 where "F2 = (if b + 8 * numBlocks s b = ?n then insert b F - {?n} else insert b F)"
  have br: "b \<noteq> r" using assms(3) by simp
  have m: "b + 8 * numBlocks s1 b = nextPtr s1 b \<longleftrightarrow> b + 8 * numBlocks s b = ?n" by (simp add: e1)
  have r2: "ring r F2 s2 \<and> free_bytes r F2 s2 = free_bytes r F s \<union> region s b \<and> b \<in> F2 \<and> p \<in> F2"
  proof (cases "b + 8 * numBlocks s b = ?n")
    case True
    note M = ring_merge [OF r1(1) insertI1 br m [THEN iffD2, OF True], unfolded e1(1)]
    have "p \<noteq> ?n" using M(5) pb(2) by simp
    with M r1(2) pb True show ?thesis by (simp add: s2_def F2_def)
  next
    case False
    with r1 pb(1) show ?thesis by (simp add: s2_def F2_def)
  qed
  have e2: "nextPtr s2 p = b" "numBlocks s2 p = numBlocks s p" using pb(3) e1 by (auto simp: s2_def)
  define s3 where "s3 = (if p + 8 * numBlocks s p = b
    then s2\<lparr>numBlocks := (numBlocks s2)(p := numBlocks s2 p + numBlocks s2 b), nextPtr := (nextPtr s2)(p := nextPtr s2 b)\<rparr> else s2)"
  define F3 where "F3 = (if p + 8 * numBlocks s p = b then F2 - {b} else F2)"
  have r3: "ring r F3 s3 \<and> free_bytes r F3 s3 = free_bytes r F s \<union> region s b \<and> p \<in> F3"
  proof (cases "p + 8 * numBlocks s p = b")
    case True
    have pr: "p \<noteq> r" using True ringD(3) [OF assms(1)] br by auto
    have "p + 8 * numBlocks s2 p = nextPtr s2 p" using True e2 by simp
    from ring_merge [OF conjunct1 [OF r2] _ pr this, unfolded e2(1)] r2 pb(3) True show ?thesis by (simp add: s3_def F3_def)
  next
    case False
    with r2 show ?thesis by (simp add: s3_def F3_def)
  qed
  have eq: "free_link b p s = s3\<lparr>freeList := Some p\<rparr>"
    using pb(2,3) assms(4,6) ringD(9) [OF assms(1) pb(1)] by (auto simp: free_link_def s3_def s2_def s1_def Let_def fun_upd_twist)
  have "ring r F3 (s3\<lparr>freeList := Some p\<rparr>) = ring r F3 s3" "free_bytes r F3 (s3\<lparr>freeList := Some p\<rparr>) = free_bytes r F3 s3"
    by (simp_all add: ring_def free_bytes_def region_def)
  moreover have "\<forall>z. z \<notin> insert b F \<longrightarrow> numBlocks s3 z = numBlocks s z"
    using pb(1) by (simp add: s3_def s2_def s1_def)
  moreover have "\<exists>x\<in>F3. numBlocks s b \<le> numBlocks s3 x"
  proof -
    have "numBlocks s b \<le> numBlocks s2 b" using e1(3) by (simp add: s2_def)
    then show ?thesis using r2 r3 by (auto simp: s3_def F3_def)
  qed
  ultimately show ?thesis unfolding eq using r3 by auto
qed


subsection \<open>Walking the ring\<close>

text \<open>Induction along the ring: from any block one comes to the block \<open>f\<close>.\<close>

definition path :: "nat set \<Rightarrow> nat \<Rightarrow> nat \<Rightarrow> nat set" where
  "path F p f = (if p \<le> f then {z\<in>F. p \<le> z \<and> z \<le> f} else {z\<in>F. p \<le> z \<or> z \<le> f})"

lemma path_next:
  assumes "ring r F s" "p \<in> F" "f \<in> F"
  shows "p \<noteq> f \<Longrightarrow> path F p f = insert p (path F (nextPtr s p) f)" "p \<noteq> f \<Longrightarrow> p \<notin> path F (nextPtr s p) f"
    "path F (nextPtr s f) f = F" "p \<in> path F p f"
proof -
  note R = ringD [OF assms(1)]
  have n: "is_next F r p (nextPtr s p)" "is_next F r f (nextPtr s f)" using R(8) assms(2,3) by auto
  show "path F p f = insert p (path F (nextPtr s p) f)" if "p \<noteq> f"
    using n(1) that assms(2,3) R(4) by (auto simp: is_next_def path_def dest: le_antisym)
  show "p \<notin> path F (nextPtr s p) f" if "p \<noteq> f"
    using n(1) that R(4) assms(2,3) by (auto simp: is_next_def path_def dest: leD)
  show "path F (nextPtr s f) f = F"
    using n(2) R(4) by (auto simp: is_next_def path_def)
  show "p \<in> path F p f" using assms(2) by (simp add: path_def)
qed

lemma ring_walk [consumes 3, case_names stop step]:
  assumes "ring r F s" "f \<in> F" "p \<in> F" "P f" "\<And>p. p \<in> F \<Longrightarrow> p \<noteq> f \<Longrightarrow> P (nextPtr s p) \<Longrightarrow> P p"
  shows "P p"
  using assms(3)
proof (induction "card (path F p f)" arbitrary: p rule: less_induct)
  case less
  show ?case
  proof (cases "p = f")
    case False
    note p = path_next [OF assms(1) less.prems assms(2)]
    have "finite (path F p f)" using ringD(1) [OF assms(1)] by (simp add: path_def)
    with p(1,2) [OF False] have "card (path F (nextPtr s p) f) < card (path F p f)" by simp
    from less.hyps [OF this ringD(9) [OF assms(1) less.prems]] show ?thesis by (rule assms(5) [OF less.prems False])
  qed (simp add: assms(4))
qed

lemma is_pred_exists:
  assumes "ring r F s" "r < b" "b \<notin> F"
  shows "\<exists>p. is_pred F b p"
proof -
  note R = ringD [OF assms(1)]
  let ?S = "{z\<in>F. z < b}"
  have S: "finite ?S" "?S \<noteq> {}" using R(1,2) assms(2) by auto
  have "Max ?S \<in> ?S" by (rule Max_in [OF S])
  moreover have "z \<le> Max ?S \<or> b < z" if "z \<in> F" for z
    using Max_ge [OF S(1), of z] that assms(3) by (metis (mono_tags, lifting) linorder_neqE_nat mem_Collect_eq)
  ultimately have "is_pred F b (Max ?S)" by (simp add: is_pred_def)
  then show ?thesis ..
qed

lemma free_search_pred:
  assumes "ring r F s" "q \<in> F" "r < b" "b \<notin> F"
  shows "\<exists>p. free_search b q s = Some p \<and> is_pred F b p"
proof -
  note R = ringD [OF assms(1)]
  obtain p where p: "is_pred F b p" using is_pred_exists [OF assms(1,3,4)] ..
  have pF: "p \<in> F" using p by (simp add: is_pred_def)
  from assms(1) pF assms(2) have "free_search b q s = Some p"
  proof (induction rule: ring_walk)
    case stop
    have "is_next F r p (nextPtr s p)" by (rule R(8) [OF pF])
    then have "p < b \<and> b < nextPtr s p \<or> nextPtr s p \<le> p \<and> p < b"
      using p R(4) [OF pF] by (auto simp: is_next_def is_pred_def)
    then show ?case by (subst free_search.simps) (auto simp: Let_def)
  next
    case (step q)
    have "is_next F r q (nextPtr s q)" by (rule R(8) [OF step(1)])
    moreover have "q < p \<or> b < q" using p step(1,2) by (auto simp: is_pred_def le_less)
    ultimately have "\<not> (q < b \<and> b < nextPtr s q) \<and> \<not> (nextPtr s q \<le> q \<and> (q < b \<or> b < nextPtr s q))"
      using p assms(3) by (auto simp: is_next_def is_pred_def leD)
    with step(3) show ?case by (subst free_search.simps) (auto simp: Let_def)
  qed
  with p show ?thesis by blast
qed


subsection \<open>The invariant of the heap\<close>

text \<open>
  \<open>L\<close> are the headers of the allocated blocks.  They do not overlap each other or a free block, and with the
  free blocks they are all the memory \<open>A\<close> the heap has: no byte is lost and none is in two blocks.
\<close>

definition live_ok :: "nat \<Rightarrow> nat set \<Rightarrow> nat set \<Rightarrow> nat set \<Rightarrow> fl_heap \<Rightarrow> bool" where
  "live_ok r F L A s \<longleftrightarrow> ring r F s \<and> (\<exists>f\<in>F. freeList s = Some f) \<and>
     (\<forall>b\<in>L. r + 8 \<le> b \<and> 1 \<le> numBlocks s b \<and> region s b \<inter> free_bytes r F s = {}) \<and>
     (\<forall>b\<in>L. \<forall>c\<in>L. b \<noteq> c \<longrightarrow> region s b \<inter> region s c = {}) \<and>
     free_bytes r F s \<union> (\<Union>b\<in>L. region s b) = A"

definition heap_inv :: "nat \<Rightarrow> nat set \<Rightarrow> nat set \<Rightarrow> fl_heap \<Rightarrow> bool" where
  "heap_inv r L A s \<longleftrightarrow> (\<exists>F. live_ok r F L A s)"

lemma live_notin:
  assumes "ring r F s" "r + 8 \<le> b" "1 \<le> numBlocks s b" "region s b \<inter> free_bytes r F s = {}"
  shows "b \<notin> F"
proof
  assume "b \<in> F"
  with assms(2) have "region s b \<subseteq> free_bytes r F s" by (auto simp: free_bytes_def)
  moreover have "b \<in> region s b" using assms(3) by (simp add: region_def)
  ultimately show False using assms(4) by blast
qed

lemma FreeList_Free_ring:
  assumes "ring r F s" "f \<in> F" "freeList s = Some f" "r + 8 \<le> b" "1 \<le> numBlocks s b" "region s b \<inter> free_bytes r F s = {}"
  shows "\<exists>s' F'. FreeList_Free (b + 8) s = Some s' \<and> ring r F' s' \<and> (\<exists>f\<in>F'. freeList s' = Some f) \<and>
    free_bytes r F' s' = free_bytes r F s \<union> region s b \<and> (\<forall>z. z \<notin> insert b F \<longrightarrow> numBlocks s' z = numBlocks s z) \<and>
    (\<exists>x\<in>F'. numBlocks s b \<le> numBlocks s' x)"
proof -
  have b: "b \<notin> F" by (rule live_notin [OF assms(1,4,5,6)])
  have "r < b" using assms(4) by simp
  from free_search_pred [OF assms(1,2) this b] obtain p where p: "free_search b f s = Some p" "is_pred F b p" by blast
  have "FreeList_Free (b + 8) s = Some (free_link b p s)" by (simp add: FreeList_Free_def assms(3) p(1))
  with free_link_ring [OF assms(1) p(2) assms(4-6) b] show ?thesis by blast
qed

lemma region_cong: "numBlocks s b = numBlocks s' b \<Longrightarrow> region s b = region s' b"
  by (simp add: region_def)

lemma live_ok_free:
  assumes "live_ok r F L A s" "b \<in> L"
  shows "\<exists>s' F'. FreeList_Free (b + 8) s = Some s' \<and> live_ok r F' (L - {b}) A s' \<and>
    (\<forall>c\<in>L - {b}. numBlocks s' c = numBlocks s c) \<and> (\<exists>x\<in>F'. numBlocks s b \<le> numBlocks s' x)"
proof -
  from assms obtain f where R: "ring r F s" and f: "f \<in> F" "freeList s = Some f"
    and live: "\<forall>b\<in>L. r + 8 \<le> b \<and> 1 \<le> numBlocks s b \<and> region s b \<inter> free_bytes r F s = {}"
    and dis: "\<forall>b\<in>L. \<forall>c\<in>L. b \<noteq> c \<longrightarrow> region s b \<inter> region s c = {}"
    and A: "free_bytes r F s \<union> (\<Union>b\<in>L. region s b) = A" by (auto simp: live_ok_def)
  have b: "r + 8 \<le> b" "1 \<le> numBlocks s b" "region s b \<inter> free_bytes r F s = {}" using live assms(2) by auto
  from FreeList_Free_ring [OF R f b] obtain s' F' where s': "FreeList_Free (b + 8) s = Some s'" "ring r F' s'"
    "\<exists>f\<in>F'. freeList s' = Some f" "free_bytes r F' s' = free_bytes r F s \<union> region s b"
    "\<And>z. z \<notin> insert b F \<Longrightarrow> numBlocks s' z = numBlocks s z" "\<exists>x\<in>F'. numBlocks s b \<le> numBlocks s' x" by blast
  have same: "numBlocks s' c = numBlocks s c" "region s' c = region s c" if c: "c \<in> L - {b}" for c
  proof -
    have "c \<notin> F" using live c live_notin [OF R] by blast
    with c show "numBlocks s' c = numBlocks s c" by (simp add: s'(5))
    then show "region s' c = region s c" by (rule region_cong)
  qed
  have "region s' c \<inter> free_bytes r F' s' = {}" if "c \<in> L - {b}" for c
    using live dis that assms(2) by (simp add: same s'(4) Int_Un_distrib)
  moreover have "free_bytes r F' s' \<union> (\<Union>c\<in>L - {b}. region s' c) = A"
    using A assms(2) by (auto simp: same s'(4))
  ultimately have "live_ok r F' (L - {b}) A s'"
    using s'(2,3) live dis by (auto simp: live_ok_def same)
  with s'(1,6) same(1) show ?thesis by blast
qed


lemma live_ok_take:
  assumes "live_ok r F L A s" "ring r F' s'" "\<exists>f\<in>F'. freeList s' = Some f" "r + 8 \<le> b" "1 \<le> numBlocks s' b"
    "region s' b \<inter> free_bytes r F' s' = {}" "free_bytes r F' s' \<union> region s' b = free_bytes r F s"
    "\<forall>c\<in>L. numBlocks s' c = numBlocks s c"
  shows "live_ok r F' (insert b L) A s'" "b \<notin> L"
proof -
  have same: "region s' c = region s c" if "c \<in> L" for c using bspec [OF assms(8) that] by (rule region_cong)
  have sub: "region s' b \<subseteq> free_bytes r F s" "free_bytes r F' s' \<subseteq> free_bytes r F s" using assms(7) by auto
  have disj: "region s c \<inter> free_bytes r F s = {}" if "c \<in> L" for c using assms(1) that by (auto simp: live_ok_def)
  have "b \<in> region s' b" using assms(5) by (simp add: region_def)
  then show b: "b \<notin> L" using sub(1) disj same by blast
  have "\<forall>c\<in>L. region s' b \<inter> region s' c = {} \<and> region s' c \<inter> free_bytes r F' s' = {}"
    using sub disj same by blast
  moreover have "\<forall>c\<in>L. \<forall>d\<in>L. c \<noteq> d \<longrightarrow> region s' c \<inter> region s' d = {}" using assms(1) same by (simp add: live_ok_def)
  moreover have "\<forall>c\<in>L. r + 8 \<le> c \<and> 1 \<le> numBlocks s' c" using assms(1,8) by (simp add: live_ok_def)
  moreover have "free_bytes r F' s' \<union> (\<Union>c\<in>insert b L. region s' c) = A"
    using assms(1,7) same by (auto simp: live_ok_def)
  ultimately show "live_ok r F' (insert b L) A s'"
    using assms(2-6) unfolding live_ok_def by (auto simp: Int_commute)
qed

lemma ring_shrink:
  assumes "ring r F s" "p \<in> F" "p \<noteq> r" "n < numBlocks s p" "1 \<le> n" "q = p + 8 * (numBlocks s p - n)"
    "s' = s\<lparr>numBlocks := (numBlocks s)(p := numBlocks s p - n, q := n), freeList := fl\<rparr>"
  shows "ring r F s'" "q \<notin> F" "r + 8 \<le> q" "free_bytes r F s' \<union> region s' q = free_bytes r F s"
    "region s' q \<inter> free_bytes r F s' = {}"
proof -
  note R = ringD [OF assms(1)]
  have pq: "p < q" "q < p + 8 * numBlocks s p" using assms(4-6) by auto
  show q: "q \<notin> F" using R(7) [OF assms(2) _ pq(1) assms(3)] pq(2) by fastforce
  show "r + 8 \<le> q" using R(5) [OF assms(2,3)] pq(1) by simp
  have n: "numBlocks s' x = numBlocks s x" if "x \<in> F" "x \<noteq> p" for x using q that assms(7) by auto
  have np: "numBlocks s' p = numBlocks s p - n" "nextPtr s' = nextPtr s" "numBlocks s' q = n" using pq assms(7) by auto
  have le: "numBlocks s' x \<le> numBlocks s x" if "x \<in> F" for x using n [OF that] np(1) by (cases "x = p") auto
  have "numBlocks s' r = 0" "\<forall>x\<in>F. x \<noteq> r \<longrightarrow> 1 \<le> numBlocks s' x"
    using n R(2,3,6) np(1) assms(3,4) by (metis, metis less_imp_add_positive add_diff_cancel_left' Suc_leI One_nat_def)
  moreover have "\<forall>x\<in>F. \<forall>y\<in>F. x < y \<longrightarrow> x \<noteq> r \<longrightarrow> x + 8 * numBlocks s' x \<le> y" using R(7) le by (meson add_le_cancel_left le_trans mult_le_mono2)
  ultimately show "ring r F s'" using R(1,2,5,8) by (simp add: ring_def np(2))
  have reg: "region s' p \<union> region s' q = region s p" "region s' p \<inter> region s' q = {}"
    using pq assms(4-6) np by (auto simp: region_def)
  have rx: "region s' x = region s x" if "x \<in> F" "x \<noteq> p" for x using n [OF that] by (rule region_cong)
  have F: "F - {r} = insert p (F - {r, p})" using assms(2,3) by auto
  then have fb: "free_bytes r F s' = region s' p \<union> (\<Union>x\<in>F - {r, p}. region s x)" "free_bytes r F s = region s p \<union> (\<Union>x\<in>F - {r, p}. region s x)"
    using rx by (simp_all add: free_bytes_def)
  show "free_bytes r F s' \<union> region s' q = free_bytes r F s" unfolding fb reg(1) [symmetric] by (simp only: Un_ac)
  have sub: "region s' q \<subseteq> region s p" using reg(1) by blast
  have "region s p \<inter> region s x = {}" if "x \<in> F - {r, p}" for x
    using that R(7) [OF assms(2), of x] R(7) [of x p] assms(2,3) by (cases "x < p") (auto simp: region_def)
  with sub have "region s' q \<inter> region s x = {}" if "x \<in> F - {r, p}" for x using that by blast
  with reg(2) show "region s' q \<inter> free_bytes r F s' = {}" unfolding fb(1) by blast
qed

lemma take_block_ok:
  assumes "live_ok r F L A s" "prv \<in> F" "p = nextPtr s prv" "nb \<le> numBlocks s p" "1 \<le> nb" "take_block nb prv p s = (ptr, s')"
  shows "\<exists>F' b. ptr = b + 8 \<and> live_ok r F' (insert b L) A s' \<and> b \<notin> L \<and> numBlocks s' b = nb \<and> (\<forall>c\<in>L. numBlocks s' c = numBlocks s c)"
proof -
  have R: "ring r F s" and live: "\<forall>b\<in>L. r + 8 \<le> b \<and> 1 \<le> numBlocks s b \<and> region s b \<inter> free_bytes r F s = {}"
    using assms(1) by (auto simp: live_ok_def)
  note R' = ringD [OF R]
  have p: "p \<in> F" "p \<noteq> r" using assms(3-5) R'(9) [OF assms(2)] R'(3) by auto
  have pL: "c \<notin> F" if "c \<in> L" for c using live that live_notin [OF R] by blast
  show ?thesis
  proof (cases "numBlocks s p = nb")
    case True
    define s1 where "s1 = s\<lparr>nextPtr := (nextPtr s)(prv := nextPtr s p), freeList := Some prv\<rparr>"
    have e: "ptr = p + 8" "s' = s1" using assms(6) True by (auto simp: take_block_def s1_def)
    have rm: "ring r (F - {p}) s1" "prv \<noteq> p" using ring_remove [OF R assms(2) assms(3) [symmetric] p(2)] by (simp_all add: s1_def)
    have n: "numBlocks s1 = numBlocks s" by (simp add: s1_def)
    then have reg: "region s1 = region s" by (simp add: region_def fun_eq_iff)
    have F: "F - {r} = insert p (F - {p} - {r})" using p by auto
    have "free_bytes r (F - {p}) s1 \<union> region s1 p = free_bytes r F s"
      unfolding free_bytes_def F reg by auto
    moreover have "region s p \<inter> region s x = {}" if "x \<in> F - {p} - {r}" for x
      using that R'(7) [OF p(1), of x] R'(7) [of x p] p by (cases "x < p") (auto simp: region_def)
    then have "region s1 p \<inter> free_bytes r (F - {p}) s1 = {}" unfolding reg free_bytes_def by blast
    moreover have "\<exists>f\<in>F - {p}. freeList s1 = Some f" using assms(2) rm(2) by (simp add: s1_def)
    ultimately have "live_ok r (F - {p}) (insert p L) A s1" "p \<notin> L"
      using live_ok_take [OF assms(1) rm(1), of p] R'(5) [OF p] R'(6) [OF p] n by simp_all
    with e n True show ?thesis by auto
  next
    case False
    let ?q = "p + 8 * (numBlocks s p - nb)"
    define s1 where "s1 = s\<lparr>numBlocks := (numBlocks s)(p := numBlocks s p - nb, ?q := nb), freeList := Some prv\<rparr>"
    have e: "ptr = ?q + 8" "s' = s1" using assms(6) False by (auto simp: take_block_def s1_def Let_def)
    have lt: "nb < numBlocks s p" using False assms(4) by simp
    note sh = ring_shrink [OF R p lt assms(5) refl s1_def]
    have q: "?q \<notin> L"
    proof
      assume "?q \<in> L"
      with live have "region s ?q \<inter> free_bytes r F s = {}" "1 \<le> numBlocks s ?q" by blast+
      moreover have "region s p \<subseteq> free_bytes r F s" using p by (auto simp: free_bytes_def)
      ultimately have "region s ?q \<inter> region s p = {}" "?q \<in> region s ?q" by (blast, simp add: region_def)
      moreover have "?q \<in> region s p" using lt assms(5) by (simp add: region_def)
      ultimately show False by blast
    qed
    have n: "numBlocks s1 ?q = nb" "\<forall>c\<in>L. numBlocks s1 c = numBlocks s c" using q pL p(1) by (auto simp: s1_def)
    moreover have "\<exists>f\<in>F. freeList s1 = Some f" using assms(2) by (simp add: s1_def)
    ultimately have "live_ok r F (insert ?q L) A s1"
      using live_ok_take(1) [OF assms(1) sh(1) _ sh(3) _ sh(5,4)] assms(5) by simp
    with e n q show ?thesis by auto
  qed
qed


text \<open>A heap is ready when nothing was allocated yet, or under the invariant.\<close>

definition heap_ready :: "nat \<Rightarrow> nat set \<Rightarrow> nat set \<Rightarrow> fl_heap \<Rightarrow> bool" where
  "heap_ready r L A s \<longleftrightarrow> freeList s = None \<and> L = {} \<and> A = {} \<or> heap_inv r L A s"

lemma heap_ready_init:
  assumes "heap_ready r L A s"
  shows "heap_inv r L A (init_root r s)"
proof (cases "freeList s")
  case None
  then have "L = {}" "A = {}" using assms by (auto simp: heap_ready_def heap_inv_def live_ok_def)
  with None have "live_ok r {r} L A (init_root r s)"
    by (simp add: live_ok_def init_root_def ring_def is_next_def free_bytes_def)
  then show ?thesis by (auto simp: heap_inv_def)
next
  case (Some f)
  with assms show ?thesis by (auto simp: heap_ready_def init_root_def)
qed

subsection \<open>Growing the heap\<close>

lemma ring_cong:
  assumes "ring r F s" "\<And>x. x \<in> F \<Longrightarrow> numBlocks s' x = numBlocks s x" "\<And>x. x \<in> F \<Longrightarrow> nextPtr s' x = nextPtr s x"
  shows "ring r F s'"
  using assms unfolding ring_def by simp

lemma add_block_ok:
  assumes "live_ok r F L A s" "{p..<p + n} \<inter> (A \<union> {..<r + 8}) = {}" "8 \<le> n" "n mod 8 = 0"
  shows "\<exists>s' F'. add_block p n s = Some s' \<and> live_ok r F' L (A \<union> {p..<p + n}) s' \<and>
    (\<forall>c\<in>L. numBlocks s' c = numBlocks s c) \<and> (\<exists>x\<in>F'. n div 8 \<le> numBlocks s' x)"
proof -
  let ?s = "s\<lparr>nextPtr := (nextPtr s)(p := 0), numBlocks := (numBlocks s)(p := n div 8)\<rparr>"
  from assms(1) have R: "ring r F s"
    and live: "\<forall>b\<in>L. r + 8 \<le> b \<and> 1 \<le> numBlocks s b \<and> region s b \<inter> free_bytes r F s = {}"
    and dis: "\<forall>b\<in>L. \<forall>c\<in>L. b \<noteq> c \<longrightarrow> region s b \<inter> region s c = {}"
    and A: "free_bytes r F s \<union> (\<Union>b\<in>L. region s b) = A" and f: "\<exists>f\<in>F. freeList s = Some f" by (auto simp: live_ok_def)
  have n: "8 * (n div 8) = n" using assms(4) by auto
  have pin: "p \<in> {p..<p + n}" using assms(3) by simp
  then have pA: "p \<notin> A" "\<not> p < r + 8" using assms(2) by (auto simp: disjoint_iff)
  have pF: "p \<notin> F"
  proof
    assume p: "p \<in> F"
    then have "p \<in> region s p" "p \<noteq> r" using pA(2) ringD(6) [OF R p] by (auto simp: region_def)
    then have "p \<in> A" using p A by (auto simp: free_bytes_def)
    with pA(1) show False ..
  qed
  have pL: "p \<notin> L"
  proof
    assume p: "p \<in> L"
    then have "p \<in> region s p" using live by (force simp: region_def)
    then have "p \<in> A" using p A by auto
    with pA(1) show False ..
  qed
  have same: "region ?s c = region s c" if "c \<noteq> p" for c using that by (simp add: region_def)
  have R': "ring r F ?s" by (rule ring_cong [OF R]) (use pF in auto)
  have fb: "free_bytes r F ?s = free_bytes r F s" unfolding free_bytes_def by (intro SUP_cong refl same) (use pF in auto)
  have rp: "region ?s p = {p..<p + n}" by (simp add: region_def n)
  have nL: "\<forall>c\<in>L. c \<noteq> p" using pL by auto
  have sub: "free_bytes r F s \<subseteq> A" "\<forall>c\<in>L. region s c \<subseteq> A" using A by auto
  have dp: "\<forall>c\<in>L. {p..<p + n} \<inter> region s c = {} \<and> region s c \<inter> {p..<p + n} = {}" "{p..<p + n} \<inter> free_bytes r F s = {}" using sub assms(2) by blast+
  have "live_ok r F (insert p L) (A \<union> {p..<p + n}) ?s"
    unfolding live_ok_def fb
  proof (intro conjI)
    show "\<forall>b\<in>insert p L. r + 8 \<le> b \<and> 1 \<le> numBlocks ?s b \<and> region ?s b \<inter> free_bytes r F s = {}"
      using live nL pA(2) assms(3) dp(2) by (simp add: same rp)
    show "\<forall>b\<in>insert p L. \<forall>c\<in>insert p L. b \<noteq> c \<longrightarrow> region ?s b \<inter> region ?s c = {}"
      using dis nL dp(1) by (simp add: same rp)
    show "free_bytes r F s \<union> (\<Union>b\<in>insert p L. region ?s b) = A \<union> {p..<p + n}"
      using A nL by (auto simp: same rp)
  qed (use R' f in simp_all)
  from live_ok_free [OF this insertI1] obtain s' F' where s': "FreeList_Free (p + 8) ?s = Some s'" "live_ok r F' (insert p L - {p}) (A \<union> {p..<p + n}) s'"
    "\<forall>c\<in>insert p L - {p}. numBlocks s' c = numBlocks ?s c" "\<exists>x\<in>F'. numBlocks ?s p \<le> numBlocks s' x" by blast
  have "insert p L - {p} = L" using pL by auto
  with s' nL have "add_block p n s = Some (s'\<lparr>heapSize := heapSize s' + of_nat n\<rparr>)" "live_ok r F' L (A \<union> {p..<p + n}) s'"
    "\<forall>c\<in>L. numBlocks s' c = numBlocks s c" "\<exists>x\<in>F'. n div 8 \<le> numBlocks s' x" by (simp_all add: add_block_def)
  moreover have "live_ok r F' L B (s'\<lparr>heapSize := h\<rparr>) = live_ok r F' L B s'" for B h
    by (simp add: live_ok_def ring_def free_bytes_def region_def)
  ultimately show ?thesis by (intro exI [of _ "s'\<lparr>heapSize := heapSize s' + of_nat n\<rparr>"] exI [of _ F']) simp
qed


subsection \<open>Allocation\<close>

definition grow :: "'s sbrk \<Rightarrow> nat \<Rightarrow> fl_heap \<Rightarrow> 's \<Rightarrow> (nat option \<times> fl_heap \<times> 's) option" where
  "grow sbrkFunc nb s st =
     do { (mem, st) \<leftarrow> sbrk_loop sbrkFunc (if nb < 1024 then 1024 else nb) nb 1 st;
          case mem of
            None \<Rightarrow> Some (None, s, st)
          | Some (p, addBytes) \<Rightarrow>
              do { s \<leftarrow> add_block p addBytes s; p \<leftarrow> freeList s; alloc_loop sbrkFunc nb p (nextPtr s p) s st } }"

text \<open>One pass over the ring finds a block that is large enough or comes to its end.\<close>

lemma alloc_walk:
  assumes "ring r F s" "f \<in> F" "freeList s = Some f" "p \<in> F" "prv \<in> F" "nextPtr s prv = p"
  shows "(\<exists>q\<in>F. nb \<le> numBlocks s (nextPtr s q) \<and>
      alloc_loop sb nb prv p s st = (let (ptr, s') = take_block nb q (nextPtr s q) s in Some (Some ptr, s', st))) \<or>
    (\<forall>x\<in>path F p f. numBlocks s x < nb) \<and> alloc_loop sb nb prv p s st = grow sb nb s st"
  using assms(1,2,4,5,6)
proof (induction arbitrary: prv rule: ring_walk)
  case (stop prv)
  have "path F f f = {f}" using assms(2) by (auto simp: path_def)
  with stop assms(3) show ?case
    by (subst (1 2) alloc_loop.simps) (auto simp: grow_def not_le Let_def)
next
  case (step p prv)
  note path = path_next(1) [OF assms(1) step(1) assms(2) step(2)]
  show ?case
  proof (cases "nb \<le> numBlocks s p")
    case True
    with step(4,5) show ?thesis by (subst alloc_loop.simps) auto
  next
    case False
    have "alloc_loop sb nb prv p s st = alloc_loop sb nb p (nextPtr s p) s st"
      using False step(2) assms(3) by (subst alloc_loop.simps) simp
    with step(3) [OF step(1) refl] False show ?thesis unfolding path by auto
  qed
qed

lemma alloc_pass:
  assumes "live_ok r F L A s" "freeList s = Some f" "1 \<le> nb"
  obtains (taken) b F' s' where "alloc_loop sb nb f (nextPtr s f) s st = Some (Some (b + 8), s', st)"
      "live_ok r F' (insert b L) A s'" "b \<notin> L" "numBlocks s' b = nb" "\<forall>c\<in>L. numBlocks s' c = numBlocks s c"
    | (none) "\<forall>x\<in>F. numBlocks s x < nb" "alloc_loop sb nb f (nextPtr s f) s st = grow sb nb s st"
proof -
  have R: "ring r F s" and f: "f \<in> F" using assms(1,2) by (auto simp: live_ok_def)
  from alloc_walk [OF R f assms(2) ringD(9) [OF R f] f refl, of nb sb st, unfolded path_next(3) [OF R f f]] show ?thesis
  proof (elim disjE bexE conjE)
    fix q
    assume q: "q \<in> F" "nb \<le> numBlocks s (nextPtr s q)"
      "alloc_loop sb nb f (nextPtr s f) s st = (let (ptr, s') = take_block nb q (nextPtr s q) s in Some (Some ptr, s', st))"
    obtain ptr s' where t: "take_block nb q (nextPtr s q) s = (ptr, s')" by fastforce
    from take_block_ok [OF assms(1) q(1) refl q(2) assms(3) t] q(3) t taken show ?thesis by auto
  qed (rule none)
qed

locale sbrk_provider =
  fixes sbrk :: "'s sbrk" and given :: "'s \<Rightarrow> nat set" and left_over :: "'s \<Rightarrow> nat"
  assumes fresh: "sbrk st n = (Some p, st') \<Longrightarrow> {p..<p + n} \<inter> given st = {} \<and> given st \<union> {p..<p + n} \<subseteq> given st'"
    and refused: "sbrk st n = (None, st') \<Longrightarrow> st' = st"
    and progress: "sbrk st n = (None, st) \<Longrightarrow> sbrk st m = (Some p, st') \<Longrightarrow> left_over st' < left_over st"
begin

lemma sbrk_loop_ok:
  assumes "2 \<le> nb" "ab * 8 < 2 ^ 32" "1 \<le> d" "nb \<le> ab div (if d = 1 then 1 else d - 1)"
    "d \<noteq> 1 \<Longrightarrow> \<exists>n. sbrk st n = (None, st)"
  shows "\<exists>mem st'. sbrk_loop sbrk ab nb d st = Some (mem, st') \<and>
    (case mem of None \<Rightarrow> st' = st \<and> (\<exists>n. sbrk st n = (None, st))
     | Some (p, n) \<Rightarrow> 8 \<le> n \<and> n mod 8 = 0 \<and> sbrk st n = (Some p, st') \<and> (8 * nb \<le> n \<or> left_over st' < left_over st))"
  using assms(3-5)
proof (induction "ab + 1 - d" arbitrary: d rule: less_induct)
  case less
  let ?n = "(ab div d) * 8"
  have lt: "?n mod 2 ^ 32 = ?n"
  proof -
    have "ab div d * 8 \<le> ab * 8" by simp
    with assms(2) have "?n < 2 ^ 32" by linarith
    then show ?thesis by simp
  qed
  have "ab div d * 8 \<le> ab * 8" "nb \<le> ab" using less.prems(2) by (auto intro: le_trans)
  with assms(2) have nb: "nb * 8 mod 2 ^ 32 = nb * 8" by simp
  have pos: "1 \<le> ab div d"
  proof (cases "d = 1")
    case False
    then have "2 \<le> ab div (d - 1)" using less.prems(2) assms(1) by simp
    then have "2 * (d - 1) \<le> ab" using less.prems(1) False by (simp add: less_eq_div_iff_mult_less_eq)
    then have "d \<le> ab" using False less.prems(1) by linarith
    then show ?thesis using less.prems(1) by (simp add: less_eq_div_iff_mult_less_eq)
  qed (use less.prems(2) assms(1) in simp)
  obtain res st' where res: "sbrk st ?n = (res, st')" by fastforce
  have eq: "sbrk_loop sbrk ab nb d st =
    (case res of Some p \<Rightarrow> Some (Some (p, ?n), st')
     | None \<Rightarrow> if nb * 8 \<le> ?n then sbrk_loop sbrk ab nb (d + 1) st' else Some (None, st'))"
    by (subst sbrk_loop.simps) (simp only: lt nb Let_def res prod.case)
  show ?case
  proof (cases res)
    case (Some p)
    have "8 * nb \<le> ?n \<or> left_over st' < left_over st"
    proof (cases "d = 1")
      case False
      from less.prems(3) [OF False] res Some show ?thesis by (auto intro: progress)
    qed (use less.prems(2) in simp)
    with pos res Some show ?thesis by (simp add: eq)
  next
    case None
    then have st: "st' = st" using refused res by simp
    show ?thesis
    proof (cases "nb * 8 \<le> ?n")
      case True
      then have "nb \<le> ab div d" by simp
      moreover have "d \<le> ab" using pos by (metis div_less not_one_le_zero not_le)
      ultimately have "\<exists>mem st'. sbrk_loop sbrk ab nb (d + 1) st = Some (mem, st') \<and>
        (case mem of None \<Rightarrow> st' = st \<and> (\<exists>n. sbrk st n = (None, st))
         | Some (p, n) \<Rightarrow> 8 \<le> n \<and> n mod 8 = 0 \<and> sbrk st n = (Some p, st') \<and> (8 * nb \<le> n \<or> left_over st' < left_over st))"
        using res None st less.prems(1) by (intro less.hyps) auto
      with True None st show ?thesis by (simp add: eq)
    qed (use None st eq res in auto)
  qed
qed

lemma alloc_loop_ok:
  assumes "live_ok r F L A s" "freeList s = Some f" "A \<union> {..<r + 8} \<subseteq> given st" "2 \<le> nb" "nb < 2 ^ 29"
  shows "\<exists>res s' st' F' A'. alloc_loop sbrk nb f (nextPtr s f) s st = Some (res, s', st') \<and> A \<subseteq> A' \<and>
    A' \<union> {..<r + 8} \<subseteq> given st' \<and> (\<forall>c\<in>L. numBlocks s' c = numBlocks s c) \<and>
    (case res of None \<Rightarrow> live_ok r F' L A' s' \<and> (\<forall>x\<in>F'. numBlocks s' x < nb) \<and> (\<exists>n. sbrk st' n = (None, st'))
     | Some ptr \<Rightarrow> \<exists>b. ptr = b + 8 \<and> b \<notin> L \<and> numBlocks s' b = nb \<and> live_ok r F' (insert b L) A' s')"
    (is "?P A f s st")
  using assms(1-3)
proof (induction "left_over st" arbitrary: F A s f st rule: less_induct)
  case less
  have nb1: "1 \<le> nb" using assms(4) by simp
  have small: "?P A f s st" if "live_ok r F L A s" "freeList s = Some f" "A \<union> {..<r + 8} \<subseteq> given st" "\<exists>x\<in>F. nb \<le> numBlocks s x"
    for F A f s st
  proof (cases rule: alloc_pass [OF that(1,2) nb1, of sbrk st])
    case (1 b F' s')
    with that(3) show ?thesis by auto
  next
    case 2
    with that(4) show ?thesis by (meson not_le)
  qed
  let ?ab = "if nb < 1024 then 1024 else nb"
  show ?case
  proof (cases rule: alloc_pass [OF less.prems(1,2) nb1, of sbrk st])
    case (1 b F' s')
    with less.prems(3) show ?thesis by auto
  next
    case 2
    have "?ab * 8 < 2 ^ 32" using assms(5) by simp
    moreover have "nb \<le> ?ab" by simp
    ultimately obtain mem st1 where
      sl: "sbrk_loop sbrk ?ab nb 1 st = Some (mem, st1)" and
      mem: "case mem of None \<Rightarrow> st1 = st \<and> (\<exists>n. sbrk st n = (None, st))
         | Some (p, n) \<Rightarrow> 8 \<le> n \<and> n mod 8 = 0 \<and> sbrk st n = (Some p, st1) \<and> (8 * nb \<le> n \<or> left_over st1 < left_over st)"
      using sbrk_loop_ok [OF assms(4), of ?ab 1 st] by auto
    show ?thesis
    proof (cases mem)
      case None
      with 2 sl mem less.prems show ?thesis by (auto simp: grow_def)
    next
      case (Some m)
      obtain p n where m: "m = (p, n)" by fastforce
      have pn: "8 \<le> n" "n mod 8 = 0" "sbrk st n = (Some p, st1)" "8 * nb \<le> n \<or> left_over st1 < left_over st"
        using mem Some m by auto
      from fresh [OF pn(3)] less.prems(3) have fr: "{p..<p + n} \<inter> (A \<union> {..<r + 8}) = {}" "A \<union> {p..<p + n} \<union> {..<r + 8} \<subseteq> given st1"
        by blast+
      from add_block_ok [OF less.prems(1) fr(1) pn(1,2)] obtain s1 F1 where s1: "add_block p n s = Some s1"
        "live_ok r F1 L (A \<union> {p..<p + n}) s1" "\<forall>c\<in>L. numBlocks s1 c = numBlocks s c" "\<exists>x\<in>F1. n div 8 \<le> numBlocks s1 x" by blast
      obtain f1 where f1: "freeList s1 = Some f1" using s1(2) by (auto simp: live_ok_def)
      have "?P (A \<union> {p..<p + n}) f1 s1 st1"
      proof (cases "8 * nb \<le> n")
        case True
        have "nb \<le> n div 8" using True by simp
        with s1(4) have "\<exists>x\<in>F1. nb \<le> numBlocks s1 x" using le_trans by blast
        from small [OF s1(2) f1 fr(2) this] show ?thesis .
      next
        case False
        with pn(4) have "left_over st1 < left_over st" by simp
        from less.hyps [OF this s1(2) f1 fr(2)] show ?thesis .
      qed
      then obtain res s' st' F' A' where "alloc_loop sbrk nb f1 (nextPtr s1 f1) s1 st1 = Some (res, s', st')"
          "A \<union> {p..<p + n} \<subseteq> A'" "A' \<union> {..<r + 8} \<subseteq> given st'" "\<forall>c\<in>L. numBlocks s' c = numBlocks s1 c"
          "case res of None \<Rightarrow> live_ok r F' L A' s' \<and> (\<forall>x\<in>F'. numBlocks s' x < nb) \<and> (\<exists>n. sbrk st' n = (None, st'))
           | Some ptr \<Rightarrow> \<exists>b. ptr = b + 8 \<and> b \<notin> L \<and> numBlocks s' b = nb \<and> live_ok r F' (insert b L) A' s'" by blast
      moreover from this(1) have "alloc_loop sbrk nb f (nextPtr s f) s st = Some (res, s', st')"
        using 2(2) sl Some m s1(1) f1 by (simp add: grow_def)
      moreover have "A \<subseteq> A'" "\<forall>c\<in>L. numBlocks s' c = numBlocks s c" using calculation(2,4) s1(3) by auto
      ultimately show ?thesis by blast
    qed
  qed
qed

lemma FreeList_Alloc_ok:
  assumes "heap_ready r L A s" "A \<union> {..<r + 8} \<subseteq> given st" "1 \<le> sz" "sz \<le> 2 ^ 31"
  shows "\<exists>res s' st' A'. FreeList_Alloc sbrk r sz s st = Some (res, s', st') \<and> A \<subseteq> A' \<and>
    A' \<union> {..<r + 8} \<subseteq> given st' \<and> (\<forall>c\<in>L. numBlocks s' c = numBlocks s c) \<and>
    (case res of None \<Rightarrow> (\<exists>F. live_ok r F L A' s' \<and> (\<forall>x\<in>F. numBlocks s' x < block_count sz)) \<and> (\<exists>n. sbrk st' n = (None, st'))
     | Some ptr \<Rightarrow> 8 \<le> ptr \<and> ptr - 8 \<notin> L \<and> sz \<le> 8 * (numBlocks s' (ptr - 8) - 1) \<and> heap_inv r (insert (ptr - 8) L) A' s')"
proof -
  have nb: "2 \<le> block_count sz" "block_count sz < 2 ^ 29" "sz \<le> 8 * (block_count sz - 1)"
    using assms(3,4) by (simp_all add: block_count_def)
  obtain F where F: "live_ok r F L A (init_root r s)" using heap_ready_init [OF assms(1)] by (auto simp: heap_inv_def)
  have n: "\<forall>c\<in>L. numBlocks (init_root r s) c = numBlocks s c"
    using assms(1) by (auto simp: heap_ready_def init_root_def heap_inv_def live_ok_def split: option.splits)
  obtain f where f: "freeList (init_root r s) = Some f" using F by (auto simp: live_ok_def)
  from alloc_loop_ok [OF F f assms(2) nb(1,2)] obtain res s' st' F' A' where al:
    "alloc_loop sbrk (block_count sz) f (nextPtr (init_root r s) f) (init_root r s) st = Some (res, s', st')" "A \<subseteq> A'"
    "A' \<union> {..<r + 8} \<subseteq> given st'" "\<forall>c\<in>L. numBlocks s' c = numBlocks (init_root r s) c"
    "case res of None \<Rightarrow> live_ok r F' L A' s' \<and> (\<forall>x\<in>F'. numBlocks s' x < block_count sz) \<and> (\<exists>n. sbrk st' n = (None, st'))
     | Some ptr \<Rightarrow> \<exists>b. ptr = b + 8 \<and> b \<notin> L \<and> numBlocks s' b = block_count sz \<and> live_ok r F' (insert b L) A' s'" by blast
  have "FreeList_Alloc sbrk r sz s st = Some (res, s', st')"
    using al(1) f by (simp add: FreeList_Alloc_def Let_def)
  moreover have "\<forall>c\<in>L. numBlocks s' c = numBlocks s c" using al(4) n by simp
  moreover have "case res of None \<Rightarrow> (\<exists>F. live_ok r F L A' s' \<and> (\<forall>x\<in>F. numBlocks s' x < block_count sz)) \<and> (\<exists>n. sbrk st' n = (None, st'))
     | Some ptr \<Rightarrow> 8 \<le> ptr \<and> ptr - 8 \<notin> L \<and> sz \<le> 8 * (numBlocks s' (ptr - 8) - 1) \<and> heap_inv r (insert (ptr - 8) L) A' s'"
    using al(5) nb(3) by (auto simp: heap_inv_def split: option.splits)
  ultimately show ?thesis using al(2,3) by blast
qed

end

text \<open>Both heaps are such providers.\<close>

definition brk :: "nat \<Rightarrow> nat \<Rightarrow> nat" where
  "brk heap_start heap_ptr = (if heap_ptr = 0 then heap_start else heap_ptr)"

interpretation libc_heap: sbrk_provider "sbrk_r heap_start" "\<lambda>st. {..<brk heap_start st}" "\<lambda>_. 0" for heap_start
  by unfold_locales (auto simp: sbrk_r_def brk_def Let_def)

definition ff_given :: "nat \<Rightarrow> bool \<Rightarrow> nat set" where
  "ff_given ff_heap init = (if init then {..<ff_heap + 4096} else {..<ff_heap})"

interpretation ff_heap: sbrk_provider "ff_sbrk ff_heap" "ff_given ff_heap" "\<lambda>init. if init then 0 else 1" for ff_heap
  by unfold_locales (auto simp: ff_sbrk_def ff_given_def split: if_splits)

subsection \<open>Properties\<close>

text \<open>
  C6. \<open>malloc\<close> ends and gives a block for every size from 1 to \<open>2 ^ 31\<close>: a block of at least that size behind a
  header that was not allocated, with all blocks, allocated and free, still disjoint and together all the
  memory of the heap, the other blocks unchanged.
\<close>

theorem malloc_block:
  assumes "heap_ready r L A s" "A \<union> {..<r + 8} \<subseteq> {..<brk heap_start st}" "1 \<le> sz" "sz \<le> 2 ^ 31"
  shows "\<exists>ptr s' st' A'. malloc heap_start r sz s st = Some (Some ptr, s', st') \<and> 8 \<le> ptr \<and> ptr - 8 \<notin> L \<and>
    sz \<le> 8 * (numBlocks s' (ptr - 8) - 1) \<and> heap_inv r (insert (ptr - 8) L) A' s' \<and> A \<subseteq> A' \<and>
    A' \<union> {..<r + 8} \<subseteq> {..<brk heap_start st'} \<and> (\<forall>c\<in>L. numBlocks s' c = numBlocks s c)"
proof -
  from libc_heap.FreeList_Alloc_ok [OF assms] obtain res s' st' A' where *:
    "FreeList_Alloc (sbrk_r heap_start) r sz s st = Some (res, s', st')" "A \<subseteq> A'"
    "A' \<union> {..<r + 8} \<subseteq> {..<brk heap_start st'}" "\<forall>c\<in>L. numBlocks s' c = numBlocks s c"
    "case res of None \<Rightarrow> (\<exists>F. live_ok r F L A' s' \<and> (\<forall>x\<in>F. numBlocks s' x < block_count sz)) \<and> (\<exists>n. sbrk_r heap_start st' n = (None, st'))
     | Some ptr \<Rightarrow> 8 \<le> ptr \<and> ptr - 8 \<notin> L \<and> sz \<le> 8 * (numBlocks s' (ptr - 8) - 1) \<and> heap_inv r (insert (ptr - 8) L) A' s'" by blast
  then obtain ptr where "res = Some ptr" by (cases res) (auto simp: sbrk_r_def Let_def)
  with * show ?thesis by (auto simp: malloc_def)
qed

lemma malloc_block_witness:
  "\<exists>ptr s' st' A'. malloc 1000 100 10 s_MallocContext 0 = Some (Some ptr, s', st') \<and> 8 \<le> ptr \<and> ptr - 8 \<notin> {} \<and>
    10 \<le> 8 * (numBlocks s' (ptr - 8) - 1) \<and> heap_inv 100 (insert (ptr - 8) {}) A' s' \<and> {} \<subseteq> A' \<and>
    A' \<union> {..<100 + 8} \<subseteq> {..<brk 1000 st'} \<and> (\<forall>c\<in>{}. numBlocks s' c = numBlocks s_MallocContext c)"
  by (rule malloc_block) (simp_all add: heap_ready_def s_MallocContext_def brk_def)

text \<open>
  C28. \<open>ff_malloc\<close> ends although its memory is small and granted once, in a piece that may be smaller than the
  request: it gives a block as \<open>malloc\<close> does, or none when no free block is large enough, with all allocated
  blocks as before.
\<close>

theorem ff_malloc_ends:
  assumes "heap_ready r L A s" "A \<union> {..<r + 8} \<subseteq> ff_given ff_heap st" "1 \<le> sz" "sz \<le> 2 ^ 31"
  shows "\<exists>res s' st' A'. ff_malloc ff_heap r sz s st = Some (res, s', st') \<and> A \<subseteq> A' \<and>
    A' \<union> {..<r + 8} \<subseteq> ff_given ff_heap st' \<and> (\<forall>c\<in>L. numBlocks s' c = numBlocks s c) \<and>
    (case res of None \<Rightarrow> \<exists>F. live_ok r F L A' s' \<and> (\<forall>x\<in>F. numBlocks s' x < block_count sz)
     | Some ptr \<Rightarrow> 8 \<le> ptr \<and> ptr - 8 \<notin> L \<and> sz \<le> 8 * (numBlocks s' (ptr - 8) - 1) \<and> heap_inv r (insert (ptr - 8) L) A' s')"
proof -
  from ff_heap.FreeList_Alloc_ok [OF assms] obtain res s' st' A' where
    "FreeList_Alloc (ff_sbrk ff_heap) r sz s st = Some (res, s', st')" "A \<subseteq> A'"
    "A' \<union> {..<r + 8} \<subseteq> ff_given ff_heap st'" "\<forall>c\<in>L. numBlocks s' c = numBlocks s c"
    "case res of None \<Rightarrow> (\<exists>F. live_ok r F L A' s' \<and> (\<forall>x\<in>F. numBlocks s' x < block_count sz)) \<and> (\<exists>n. ff_sbrk ff_heap st' n = (None, st'))
     | Some ptr \<Rightarrow> 8 \<le> ptr \<and> ptr - 8 \<notin> L \<and> sz \<le> 8 * (numBlocks s' (ptr - 8) - 1) \<and> heap_inv r (insert (ptr - 8) L) A' s'" by blast
  then show ?thesis unfolding ff_malloc_def by (cases res) auto
qed

lemma ff_malloc_ends_witness:
  "\<exists>res s' st' A'. ff_malloc 1000 100 4090 s_MallocContext False = Some (res, s', st') \<and> {} \<subseteq> A' \<and>
    A' \<union> {..<100 + 8} \<subseteq> ff_given 1000 st' \<and> (\<forall>c\<in>{}. numBlocks s' c = numBlocks s_MallocContext c) \<and>
    (case res of None \<Rightarrow> \<exists>F. live_ok 100 F {} A' s' \<and> (\<forall>x\<in>F. numBlocks s' x < block_count 4090)
     | Some ptr \<Rightarrow> 8 \<le> ptr \<and> ptr - 8 \<notin> {} \<and> 4090 \<le> 8 * (numBlocks s' (ptr - 8) - 1) \<and> heap_inv 100 (insert (ptr - 8) {}) A' s')"
  by (rule ff_malloc_ends) (simp_all add: heap_ready_def s_MallocContext_def ff_given_def)

text \<open>
  C17. \<open>free\<close> of an allocated block ends and gives its bytes back: the block is no longer allocated, no
  byte of the heap is lost, free neighbours are merged without overlap, and the other blocks are unchanged.
\<close>

theorem free_block:
  assumes "heap_inv r L A s" "b \<in> L"
  shows "\<exists>s'. free (b + 8) s = Some s' \<and> heap_inv r (L - {b}) A s' \<and> (\<forall>c\<in>L - {b}. numBlocks s' c = numBlocks s c)"
  using assms live_ok_free unfolding heap_inv_def free_def by blast

lemma free_block_witness:
  "\<exists>s'. free (1000 + 8) \<lparr>nextPtr = (\<lambda>_. 100), numBlocks = (\<lambda>x. if x = 1000 then 2 else 0), freeList = Some 100, heapSize = 0\<rparr> = Some s' \<and>
    heap_inv 100 ({1000} - {1000}) {1000..<1016} s' \<and> (\<forall>c\<in>{1000} - {1000}. numBlocks s' c = numBlocks
      \<lparr>nextPtr = (\<lambda>_. 100), numBlocks = (\<lambda>x. if x = 1000 then 2 else 0), freeList = Some 100, heapSize = 0\<rparr> c)"
  by (rule free_block)
    (auto simp: heap_inv_def live_ok_def ring_def is_next_def free_bytes_def region_def intro!: exI [of _ "{100}"])

end
