(* ===== verification/Spec2Isabelle.thy ===== *)
theory Spec2Isabelle
  imports Prelude Libc Printf StringLight World Files MemChannel IniParser Drive Drv00 Drv01 Drv02 CardDevice Hardfile Drv08 Channel Freelist
begin

text \<open>
  Verification library for the Replay firmware.
\<close>

end
